theory Spec2Isabelle
  imports Main "HOL-Library.Signed_Division"
begin

section \<open>Symbols\<close>

text \<open>
  A \<open>Symbol\<close> of \<^verbatim>\<open>lamb.h\<close> is a label and a tag. Labels are interned C strings that
  the code compares by address; two interned labels have the same address exactly when
  they are the same string, so a label is its string here and the interning table is
  not part of the state. The tag is a \<^verbatim>\<open>size_t\<close>; it is a natural number here (the
  counter of \<^verbatim>\<open>symbol_fresh\<close> would need \<open>2^64\<close> renamings to wrap).
\<close>

datatype symbol = Symbol (label: string) (tag: nat)

definition symbol_eq :: "symbol \<Rightarrow> symbol \<Rightarrow> bool" where
  "symbol_eq a b \<longleftrightarrow> label a = label b \<and> tag a = tag b"

definition symbol :: "string \<Rightarrow> symbol" where
  "symbol l = Symbol l 0"

section \<open>The expression arena\<close>

text \<open>
  \<^verbatim>\<open>Expr\<close> is a kind tag with a union; the two together are the datatype \<open>node\<close>.
  Children are arena indices (\<^verbatim>\<open>Expr_Index\<close>), never pointers.
\<close>

datatype node =
    EXPR_VAR symbol
  | EXPR_FUN symbol nat
  | EXPR_APP nat nat
  | EXPR_MAG string

record expr =
  kind :: node
  visited :: bool
  live :: bool

text \<open>
  The global \<^verbatim>\<open>GC\<close> context (slots, free list \<open>dead\<close>, the two generation lists and
  the current generation), the static \<^verbatim>\<open>global_counter\<close> of \<^verbatim>\<open>symbol_fresh\<close>, the
  characters the program has printed on standard output, and the C library's random number
  generator as an infinite sequence with a read position.
  C leaves unspecified the order in which the arguments of a call are evaluated. Where two
  arguments of one call both change the arena, the order is drawn, each time the call is
  evaluated, from the sequence \<open>order_seq\<close> of choices, read at \<open>order_pos\<close>; what is
  proved holds for every sequence.
  The dynamic arrays are lists whose last element is the most recently appended one.
  \<open>gen_cur\<close> is only ever \<open>0\<close> or \<open>1\<close> (it starts at \<open>0\<close> and is only assigned
  \<open>1 - gen_cur\<close>).
\<close>

record state =
  slots :: "expr list"
  dead :: "nat list"
  gens0 :: "nat list"
  gens1 :: "nat list"
  gen_cur :: nat
  global_counter :: nat
  stdout :: string
  rand_seq :: "nat \<Rightarrow> nat"
  rand_pos :: nat
  order_seq :: "nat \<Rightarrow> bool"
  order_pos :: nat

text \<open>
  What stops the C program: a failed \<^verbatim>\<open>assert\<close>, a read or write outside an array
  (undefined behaviour in C), and, for the recursions over the arena that need not
  terminate on a cyclic arena, the exhaustion of the fuel of the model.
\<close>

datatype err = AssertFail | OutOfBounds | OutOfFuel

definition gens_cur :: "state \<Rightarrow> nat list" where
  "gens_cur s = (if gen_cur s = 0 then gens0 s else gens1 s)"

definition gens_cur_update :: "(nat list \<Rightarrow> nat list) \<Rightarrow> state \<Rightarrow> state" where
  "gens_cur_update f s =
     (if gen_cur s = 0 then s\<lparr>gens0 := f (gens0 s)\<rparr> else s\<lparr>gens1 := f (gens1 s)\<rparr>)"

text \<open>The macro \<^verbatim>\<open>expr_slot\<close>: both of its assertions, then the slot.\<close>

definition expr_slot :: "state \<Rightarrow> nat \<Rightarrow> err + expr" where
  "expr_slot s i =
     (if i < length (slots s) \<and> live (slots s ! i) then Inr (slots s ! i)
      else Inl AssertFail)"

text \<open>An assignment \<^verbatim>\<open>expr_slot(i).kind = ...; expr_slot(i).as... = ...\<close>.\<close>

definition set_kind :: "nat \<Rightarrow> node \<Rightarrow> state \<Rightarrow> err + state" where
  "set_kind i k s =
     (if i < length (slots s) \<and> live (slots s ! i)
      then Inr (s\<lparr>slots := (slots s)[i := (slots s ! i)\<lparr>kind := k\<rparr>]\<rparr>)
      else Inl AssertFail)"

text \<open>
  \<^verbatim>\<open>Expr expr = {0}\<close>: kind \<^verbatim>\<open>EXPR_VAR\<close> (the enumeration's zero) with a null label,
  which the empty string stands for; every caller of \<open>alloc_expr\<close> overwrites it.
\<close>

definition zero_expr :: expr where
  "zero_expr = \<lparr>kind = EXPR_VAR (Symbol [] 0), visited = False, live = False\<rparr>"

definition alloc_expr :: "state \<Rightarrow> err + (nat \<times> state)" where
  "alloc_expr s =
     (let (result, s1) =
            (if dead s \<noteq> [] then (last (dead s), s\<lparr>dead := butlast (dead s)\<rparr>)
             else (length (slots s), s\<lparr>slots := slots s @ [zero_expr]\<rparr>))
      in if \<not> result < length (slots s1) then Inl OutOfBounds
         else if live (slots s1 ! result) then Inl AssertFail
         else Inr (result,
                gens_cur_update (\<lambda>g. g @ [result])
                  (s1\<lparr>slots := (slots s1)[result := (slots s1 ! result)\<lparr>live := True\<rparr>]\<rparr>)))"

definition free_expr :: "nat \<Rightarrow> state \<Rightarrow> err + state" where
  "free_expr e s =
     (if e < length (slots s) \<and> live (slots s ! e)
      then Inr (s\<lparr>slots := (slots s)[e := (slots s ! e)\<lparr>live := False\<rparr>],
                  dead := dead s @ [e]\<rparr>)
      else Inl AssertFail)"

definition new_expr :: "node \<Rightarrow> state \<Rightarrow> err + (nat \<times> state)" where
  "new_expr k s =
     (case alloc_expr s of
        Inl e \<Rightarrow> Inl e
      | Inr (i, s1) \<Rightarrow> (case set_kind i k s1 of Inl e \<Rightarrow> Inl e | Inr s2 \<Rightarrow> Inr (i, s2)))"

definition var :: "symbol \<Rightarrow> state \<Rightarrow> err + (nat \<times> state)" where
  "var name s = new_expr (EXPR_VAR name) s"

definition magic :: "string \<Rightarrow> state \<Rightarrow> err + (nat \<times> state)" where
  "magic l s = new_expr (EXPR_MAG l) s"

definition fun_expr :: "symbol \<Rightarrow> nat \<Rightarrow> state \<Rightarrow> err + (nat \<times> state)" where
  "fun_expr param body s = new_expr (EXPR_FUN param body) s"

definition app :: "nat \<Rightarrow> nat \<Rightarrow> state \<Rightarrow> err + (nat \<times> state)" where
  "app lhs rhs s = new_expr (EXPR_APP lhs rhs) s"

definition symbol_fresh :: "symbol \<Rightarrow> state \<Rightarrow> symbol \<times> state" where
  "symbol_fresh sy s =
     (Symbol (label sy) (Suc (global_counter s)),
      s\<lparr>global_counter := Suc (global_counter s)\<rparr>)"

text \<open>
  The choice for one call: \<open>True\<close> when the second argument is evaluated before the first.
\<close>

definition args_right_to_left :: "state \<Rightarrow> bool \<times> state" where
  "args_right_to_left s = (order_seq s (order_pos s), s\<lparr>order_pos := Suc (order_pos s)\<rparr>)"

section \<open>Substitution\<close>

text \<open>
  The recursions of the evaluator follow the indices stored in the arena; \<open>n\<close> bounds
  their depth. In \<^verbatim>\<open>app(replace(..lhs..), replace(..rhs..))\<close> both arguments allocate and
  draw fresh tags, and C leaves their order open: \<open>first\<close> is the child whose replacement
  is computed first.
\<close>

fun is_var_free_there :: "nat \<Rightarrow> symbol \<Rightarrow> nat \<Rightarrow> state \<Rightarrow> err + bool" where
  "is_var_free_there 0 name there s = Inl OutOfFuel"
| "is_var_free_there (Suc n) name there s =
     (case expr_slot s there of
        Inl e \<Rightarrow> Inl e
      | Inr sl \<Rightarrow>
          (case kind sl of
             EXPR_VAR v \<Rightarrow> Inr (symbol_eq v name)
           | EXPR_FUN p b \<Rightarrow>
               if symbol_eq p name then Inr False else is_var_free_there n name b s
           | EXPR_APP l r \<Rightarrow>
               (case is_var_free_there n name l s of
                  Inl e \<Rightarrow> Inl e
                | Inr True \<Rightarrow> Inr True
                | Inr False \<Rightarrow> is_var_free_there n name r s)
           | EXPR_MAG m \<Rightarrow> Inr False))"

fun replace :: "nat \<Rightarrow> symbol \<Rightarrow> nat \<Rightarrow> nat \<Rightarrow> state \<Rightarrow> err + (nat \<times> state)" where
  "replace 0 param body arg s = Inl OutOfFuel"
| "replace (Suc n) param body arg s =
     (case expr_slot s body of
        Inl e \<Rightarrow> Inl e
      | Inr sl \<Rightarrow>
          (case kind sl of
             EXPR_MAG m \<Rightarrow> Inr (body, s)
           | EXPR_VAR v \<Rightarrow> if symbol_eq v param then Inr (arg, s) else Inr (body, s)
           | EXPR_FUN p b \<Rightarrow>
               if symbol_eq p param then Inr (body, s)
               else
                 (case is_var_free_there n p arg s of
                    Inl e \<Rightarrow> Inl e
                  | Inr False \<Rightarrow>
                      (case replace n param b arg s of
                         Inl e \<Rightarrow> Inl e
                       | Inr (b', s1) \<Rightarrow> fun_expr p b' s1)
                  | Inr True \<Rightarrow>
                      (let (fresh_param_name, s1) = symbol_fresh p s in
                       case var fresh_param_name s1 of
                         Inl e \<Rightarrow> Inl e
                       | Inr (fresh_param, s2) \<Rightarrow>
                           (case replace n p b fresh_param s2 of
                              Inl e \<Rightarrow> Inl e
                            | Inr (b1, s3) \<Rightarrow>
                                (case replace n param b1 arg s3 of
                                   Inl e \<Rightarrow> Inl e
                                 | Inr (b2, s4) \<Rightarrow> fun_expr fresh_param_name b2 s4))))
           | EXPR_APP l r \<Rightarrow>
               (let (rtl, s0) = args_right_to_left s;
                    (first, second) = (if rtl then (r, l) else (l, r))
                in
                case replace n param first arg s0 of
                  Inl e \<Rightarrow> Inl e
                | Inr (first', s1) \<Rightarrow>
                    (case replace n param second arg s1 of
                       Inl e \<Rightarrow> Inl e
                     | Inr (second', s2) \<Rightarrow>
                         if rtl then app second' first' s2 else app first' second' s2))))"

section \<open>Display and mass\<close>

text \<open>The decimal digits that \<^verbatim>\<open>%zu\<close> and \<^verbatim>\<open>%d\<close> print for a natural number.\<close>

function show_nat :: "nat \<Rightarrow> string" where
  "show_nat n =
     (if n < 10 then [''0123456789'' ! n]
      else show_nat (n div 10) @ [''0123456789'' ! (n mod 10)])"
  by pat_completeness auto
termination
  by (relation "measure id") auto

declare show_nat.simps [simp del]

definition show_symbol :: "symbol \<Rightarrow> string" where
  "show_symbol v = (if tag v \<noteq> 0 then label v @ '':'' @ show_nat (tag v) else label v)"

text \<open>
  The \<^verbatim>\<open>while\<close> loop of the \<^verbatim>\<open>EXPR_FUN\<close> case of \<open>expr_display\<close>: the parameters of
  a chain of nested functions, each followed by a dot, and the index the loop stops at.
\<close>

fun display_params :: "nat \<Rightarrow> nat \<Rightarrow> state \<Rightarrow> err + (string \<times> nat)" where
  "display_params 0 expr s = Inl OutOfFuel"
| "display_params (Suc n) expr s =
     (case expr_slot s expr of
        Inl e \<Rightarrow> Inl e
      | Inr sl \<Rightarrow>
          (case kind sl of
             EXPR_FUN p b \<Rightarrow>
               (case display_params n b s of
                  Inl e \<Rightarrow> Inl e
                | Inr (str, expr') \<Rightarrow> Inr (show_symbol p @ ''.'' @ str, expr'))
           | _ \<Rightarrow> Inr ([], expr)))"

definition paren :: "bool \<Rightarrow> string \<Rightarrow> string" where
  "paren b str = (if b then ''('' @ str @ '')'' else str)"

fun expr_display :: "nat \<Rightarrow> nat \<Rightarrow> state \<Rightarrow> err + string" where
  "expr_display 0 expr s = Inl OutOfFuel"
| "expr_display (Suc n) expr s =
     (case expr_slot s expr of
        Inl e \<Rightarrow> Inl e
      | Inr sl \<Rightarrow>
          (case kind sl of
             EXPR_VAR v \<Rightarrow> Inr (show_symbol v)
           | EXPR_FUN p b \<Rightarrow>
               (case display_params n expr s of
                  Inl e \<Rightarrow> Inl e
                | Inr (str, expr') \<Rightarrow>
                    (case expr_display n expr' s of
                       Inl e \<Rightarrow> Inl e
                     | Inr str' \<Rightarrow> Inr (CHR 0x5C # str @ str')))
           | EXPR_APP lhs rhs \<Rightarrow>
               (case expr_slot s lhs of
                  Inl e \<Rightarrow> Inl e
                | Inr lsl \<Rightarrow>
                    (case expr_display n lhs s of
                       Inl e \<Rightarrow> Inl e
                     | Inr lstr \<Rightarrow>
                         (case expr_slot s rhs of
                            Inl e \<Rightarrow> Inl e
                          | Inr rsl \<Rightarrow>
                              (case expr_display n rhs s of
                                 Inl e \<Rightarrow> Inl e
                               | Inr rstr \<Rightarrow>
                                   Inr (paren (case kind lsl of EXPR_FUN p b \<Rightarrow> True | _ \<Rightarrow> False) lstr
                                        @ '' '' @
                                        paren (case kind rsl of EXPR_VAR v \<Rightarrow> False
                                                 | EXPR_MAG m \<Rightarrow> False | _ \<Rightarrow> True) rstr)))))
           | EXPR_MAG m \<Rightarrow> Inr (''#'' @ m)))"

text \<open>
  \<open>expr_mass\<close> computes in \<^verbatim>\<open>size_t\<close>; the sums wrap at \<open>2^64\<close>. Its test of \<open>live\<close>
  comes after the assertion of \<open>expr_slot\<close>, as in the source.
\<close>

fun expr_mass :: "nat \<Rightarrow> nat \<Rightarrow> state \<Rightarrow> err + nat" where
  "expr_mass 0 expr s = Inl OutOfFuel"
| "expr_mass (Suc n) expr s =
     (case expr_slot s expr of
        Inl e \<Rightarrow> Inl e
      | Inr sl \<Rightarrow>
          if \<not> live sl then Inr 0
          else
            (case kind sl of
               EXPR_VAR v \<Rightarrow> Inr 1
             | EXPR_MAG m \<Rightarrow> Inr 1
             | EXPR_FUN p b \<Rightarrow>
                 (case expr_mass n b s of
                    Inl e \<Rightarrow> Inl e
                  | Inr mb \<Rightarrow> Inr ((1 + mb) mod 2 ^ 64))
             | EXPR_APP l r \<Rightarrow>
                 (case expr_mass n l s of
                    Inl e \<Rightarrow> Inl e
                  | Inr ml \<Rightarrow>
                      (case expr_mass n r s of
                         Inl e \<Rightarrow> Inl e
                       | Inr mr \<Rightarrow> Inr ((1 + ml + mr) mod 2 ^ 64)))))"

section \<open>Reduction\<close>

definition print :: "string \<Rightarrow> state \<Rightarrow> state" where
  "print str s = s\<lparr>stdout := stdout s @ str\<rparr>"

text \<open>
  \<open>eval1\<close> returns \<^verbatim>\<open>false\<close> (here \<open>None\<close>) or \<^verbatim>\<open>true\<close> with the index written to
  \<^verbatim>\<open>*expr1\<close>. The source reads the children of \<open>expr\<close> again after the recursive
  calls; the model reads them once, before.
\<close>

definition ret :: "err + (nat \<times> state) \<Rightarrow> err + (nat option \<times> state)" where
  "ret r = (case r of Inl e \<Rightarrow> Inl e | Inr (i, s) \<Rightarrow> Inr (Some i, s))"

fun eval1 :: "nat \<Rightarrow> nat \<Rightarrow> state \<Rightarrow> err + (nat option \<times> state)" where
  "eval1 0 expr s = Inl OutOfFuel"
| "eval1 (Suc n) expr s =
     (case expr_slot s expr of
        Inl e \<Rightarrow> Inl e
      | Inr sl \<Rightarrow>
          (case kind sl of
             EXPR_VAR v \<Rightarrow> Inr (Some expr, s)
           | EXPR_FUN p b \<Rightarrow>
               (case eval1 n b s of
                  Inl e \<Rightarrow> Inl e
                | Inr (None, s1) \<Rightarrow> Inr (None, s1)
                | Inr (Some body, s1) \<Rightarrow>
                    if body \<noteq> b then ret (fun_expr p body s1) else Inr (Some expr, s1))
           | EXPR_APP lhs rhs \<Rightarrow>
               (case expr_slot s lhs of
                  Inl e \<Rightarrow> Inl e
                | Inr lsl \<Rightarrow>
                    (case kind lsl of
                       EXPR_FUN p b \<Rightarrow> ret (replace n p b rhs s)
                     | EXPR_MAG m \<Rightarrow>
                         if m = ''trace'' then
                           (case eval1 n rhs s of
                              Inl e \<Rightarrow> Inl e
                            | Inr (None, s1) \<Rightarrow> Inr (None, s1)
                            | Inr (Some new_rhs, s1) \<Rightarrow>
                                if new_rhs = rhs then
                                  (case expr_display n rhs s1 of
                                     Inl e \<Rightarrow> Inl e
                                   | Inr str \<Rightarrow>
                                       Inr (Some rhs, print (''TRACE: '' @ str @ [CHR 0x0A]) s1))
                                else ret (app lhs new_rhs s1))
                         else if m = ''void'' then
                           (case eval1 n rhs s of
                              Inl e \<Rightarrow> Inl e
                            | Inr (None, s1) \<Rightarrow> Inr (None, s1)
                            | Inr (Some new_rhs, s1) \<Rightarrow>
                                if new_rhs = rhs then Inr (Some lhs, s1)
                                else ret (app lhs new_rhs s1))
                         else Inr (None, print (''ERROR: unknown magic #'' @ m @ [CHR 0x0A]) s)
                     | _ \<Rightarrow>
                         (case eval1 n lhs s of
                            Inl e \<Rightarrow> Inl e
                          | Inr (None, s1) \<Rightarrow> Inr (None, s1)
                          | Inr (Some new_lhs, s1) \<Rightarrow>
                              if lhs \<noteq> new_lhs then ret (app new_lhs rhs s1)
                              else
                                (case eval1 n rhs s1 of
                                   Inl e \<Rightarrow> Inl e
                                 | Inr (None, s2) \<Rightarrow> Inr (None, s2)
                                 | Inr (Some new_rhs, s2) \<Rightarrow>
                                     if rhs \<noteq> new_rhs then ret (app lhs new_rhs s2)
                                     else Inr (Some expr, s2)))))
           | EXPR_MAG m \<Rightarrow> Inr (Some expr, s)))"

datatype Eval_Result = EVAL_DONE | EVAL_LIMIT | EVAL_ERROR

text \<open>
  The result of \<open>eval_bounded\<close> with the index written to \<^verbatim>\<open>*out\<close>, if one was. The
  loop counter \<open>i\<close> runs from \<open>0\<close> to \<open>limit\<close>; the recursion is on the iterations left.
\<close>

text \<open>The safety check \<^verbatim>\<open>max_mass > 0 && expr_mass(curr) > max_mass\<close>.\<close>

definition over_mass :: "nat \<Rightarrow> nat \<Rightarrow> nat \<Rightarrow> state \<Rightarrow> err + bool" where
  "over_mass n cur max_mass s =
     (if 0 < max_mass
      then (case expr_mass n cur s of Inl e \<Rightarrow> Inl e | Inr m \<Rightarrow> Inr (max_mass < m))
      else Inr False)"

fun eval_bounded ::
  "nat \<Rightarrow> nat \<Rightarrow> nat \<Rightarrow> nat \<Rightarrow> state \<Rightarrow> err + (Eval_Result \<times> nat option \<times> state)" where
  "eval_bounded n cur 0 max_mass s = Inr (EVAL_LIMIT, None, s)"
| "eval_bounded n cur (Suc limit) max_mass s =
     (case over_mass n cur max_mass s of
        Inl e \<Rightarrow> Inl e
      | Inr True \<Rightarrow> Inr (EVAL_LIMIT, None, s)
      | Inr False \<Rightarrow>
          (case eval1 n cur s of
             Inl e \<Rightarrow> Inl e
           | Inr (None, s1) \<Rightarrow> Inr (EVAL_ERROR, None, s1)
           | Inr (Some next, s1) \<Rightarrow>
               if cur = next then Inr (EVAL_DONE, Some cur, s1)
               else eval_bounded n next limit max_mass s1))"

section \<open>Expressions as trees\<close>

text \<open>
  The expression an index stands for, when the slots reachable from it are in range,
  live and form a tree or a graph without cycles. \<open>denotes s i t\<close> reads the arena
  along \<open>t\<close>; it is the only link between the arena and the trees of the specification.
\<close>

datatype tree = Var symbol | Magic string | Fun symbol tree | App tree tree

fun denotes :: "state \<Rightarrow> nat \<Rightarrow> tree \<Rightarrow> bool" where
  "denotes s i (Var v) =
     (case expr_slot s i of Inl e \<Rightarrow> False | Inr sl \<Rightarrow> kind sl = EXPR_VAR v)"
| "denotes s i (Magic m) =
     (case expr_slot s i of Inl e \<Rightarrow> False | Inr sl \<Rightarrow> kind sl = EXPR_MAG m)"
| "denotes s i (Fun p tb) =
     (case expr_slot s i of
        Inl e \<Rightarrow> False
      | Inr sl \<Rightarrow> (case kind sl of EXPR_FUN q b \<Rightarrow> q = p \<and> denotes s b tb | _ \<Rightarrow> False))"
| "denotes s i (App ta tb) =
     (case expr_slot s i of
        Inl e \<Rightarrow> False
      | Inr sl \<Rightarrow>
          (case kind sl of EXPR_APP l r \<Rightarrow> denotes s l ta \<and> denotes s r tb | _ \<Rightarrow> False))"

text \<open>
  The free-variable test of the specification: \<open>v\<close> occurs as a \<open>Var\<close> outside the scope
  of every \<open>Fun\<close> whose parameter is \<open>v\<close>.
\<close>

fun free_in :: "symbol \<Rightarrow> tree \<Rightarrow> bool" where
  "free_in v (Var w) \<longleftrightarrow> w = v"
| "free_in v (Magic m) \<longleftrightarrow> False"
| "free_in v (Fun p b) \<longleftrightarrow> p \<noteq> v \<and> free_in v b"
| "free_in v (App l r) \<longleftrightarrow> free_in v l \<or> free_in v r"

text \<open>
  The capture-avoiding substitution of the specification, on trees, with the counter of
  fresh tags passed along: \<open>fresh p\<close> is \<open>p\<close> with the tag \<open>++counter\<close>. The
  specification does not say which child of an application is substituted in first, and
  the fresh tags depend on it: \<open>ord\<close> is a sequence of choices (\<open>True\<close>: the right child
  first), read at the position passed along with the counter. The nested call terminates
  because substituting a variable keeps the size of the body.
\<close>

function subst ::
  "(nat \<Rightarrow> bool) \<Rightarrow> symbol \<Rightarrow> tree \<Rightarrow> tree \<Rightarrow> nat \<times> nat \<Rightarrow> tree \<times> nat \<times> nat" where
  "subst ord param (Var v) arg ck = (if v = param then arg else Var v, ck)"
| "subst ord param (Magic m) arg ck = (Magic m, ck)"
| "subst ord param (Fun p b) arg (c, k) =
     (if p = param then (Fun p b, (c, k))
      else if \<not> free_in p arg then
        (case subst ord param b arg (c, k) of (b', ck') \<Rightarrow> (Fun p b', ck'))
      else
        (case subst ord p b (Var (Symbol (label p) (Suc c))) (Suc c, k) of
           (b1, ck1) \<Rightarrow>
             (case subst ord param b1 arg ck1 of
                (b2, ck2) \<Rightarrow> (Fun (Symbol (label p) (Suc c)) b2, ck2))))"
| "subst ord param (App l r) arg (c, k) =
     (case subst ord param (if ord k then r else l) arg (c, Suc k) of
        (first', ck1) \<Rightarrow>
          (case subst ord param (if ord k then l else r) arg ck1 of
             (second', ck2) \<Rightarrow>
               (if ord k then App second' first' else App first' second', ck2)))"
  by pat_completeness auto

lemma subst_var_size_dom:
  "subst_dom (ord, param, body, arg, ck) \<Longrightarrow> \<forall>w. arg = Var w \<longrightarrow>
   size (fst (subst ord param body arg ck)) = size body"
proof (induction ord param body arg ck rule: subst.pinduct)
  case (1 ord param v arg ck)
  then show ?case by (auto simp: subst.psimps)
next
  case (2 ord param m arg ck)
  then show ?case by (auto simp: subst.psimps)
next
  case (3 ord param p b arg c k)
  show ?case
  proof (intro allI impI)
    fix w assume w: "arg = Var w"
    show "size (fst (subst ord param (Fun p b) arg (c, k))) = size (Fun p b)"
    proof (cases "p = param")
      case True
      then show ?thesis using 3(1) by (simp add: subst.psimps)
    next
      case False
      show ?thesis
      proof (cases "free_in p arg")
        case nf: False
        from 3(2)[OF False] nf w have "size (fst (subst ord param b arg (c, k))) = size b" by simp
        then show ?thesis using 3(1) False nf
          by (auto simp: subst.psimps split: prod.splits)
      next
        case fr: True
        obtain b1 ck1 where
          e1: "subst ord p b (Var (Symbol (label p) (Suc c))) (Suc c, k) = (b1, ck1)"
          by (cases "subst ord p b (Var (Symbol (label p) (Suc c))) (Suc c, k)")
        from 3(3)[OF False] fr have s1: "size b1 = size b" using e1 by simp
        from 3(4)[OF False _ e1[symmetric]] fr w
        have "size (fst (subst ord param b1 arg ck1)) = size b1"
          by simp
        then show ?thesis using 3(1) False fr e1 s1
          by (auto simp: subst.psimps split: prod.splits)
      qed
    qed
  qed
next
  case (4 ord param l r arg c k)
  show ?case
  proof (intro allI impI)
    fix w assume w: "arg = Var w"
    obtain f1 ck1 where e1: "subst ord param (if ord k then r else l) arg (c, Suc k) = (f1, ck1)"
      by (cases "subst ord param (if ord k then r else l) arg (c, Suc k)")
    from 4(2) w e1 have s1: "size f1 = size (if ord k then r else l)" by simp
    from 4(3)[OF e1[symmetric]] w
    have "size (fst (subst ord param (if ord k then l else r) arg ck1)) =
          size (if ord k then l else r)" by simp
    then show "size (fst (subst ord param (App l r) arg (c, k))) = size (App l r)"
      using 4(1) e1 s1 by (auto simp: subst.psimps split: prod.splits)
  qed
qed

termination subst
proof (relation "measure (\<lambda>(ord, param, body, arg, ck). size body)", goal_cases)
  case (4 ord param p b arg c k b1 ck1)
  from 4(3) have "b1 = fst (subst ord p b (Var (Symbol (label p) (Suc c))) (Suc c, k))"
    by (metis fst_conv)
  then show ?case
    using 4(4) subst_var_size_dom [of ord p b "Var (Symbol (label p) (Suc c))" "(Suc c, k)"]
    by simp
qed auto

lemma subst_var_size: "size (fst (subst ord param body (Var w) ck)) = size body"
proof -
  have "\<forall>w. arg = Var w \<longrightarrow> size (fst (subst ord param body arg ck)) = size body" for arg
  proof (induction ord param body arg ck rule: subst.induct)
    case (3 ord param p b arg c k)
    show ?case
    proof (intro allI impI)
      fix w assume w: "arg = Var w"
      show "size (fst (subst ord param (Fun p b) arg (c, k))) = size (Fun p b)"
      proof (cases "p = param")
        case True
        then show ?thesis by simp
      next
        case False
        show ?thesis
        proof (cases "free_in p arg")
          case nf: False
          from 3(1)[OF False] nf w have "size (fst (subst ord param b arg (c, k))) = size b"
            by simp
          then show ?thesis using False nf by (auto split: prod.splits)
        next
          case fr: True
          obtain b1 ck1 where
            e1: "subst ord p b (Var (Symbol (label p) (Suc c))) (Suc c, k) = (b1, ck1)"
            by (cases "subst ord p b (Var (Symbol (label p) (Suc c))) (Suc c, k)")
          from 3(2)[OF False] fr have s1: "size b1 = size b" using e1 by simp
          from 3(3)[OF False _ e1[symmetric]] fr w
          have "size (fst (subst ord param b1 arg ck1)) = size b1" by simp
          then show ?thesis using False fr e1 s1 by (auto split: prod.splits)
        qed
      qed
    qed
  next
    case (4 ord param l r arg c k)
    show ?case
    proof (intro allI impI)
      fix w assume w: "arg = Var w"
      obtain f1 ck1 where
        e1: "subst ord param (if ord k then r else l) arg (c, Suc k) = (f1, ck1)"
        by (cases "subst ord param (if ord k then r else l) arg (c, Suc k)")
      from 4(1) w e1 have s1: "size f1 = size (if ord k then r else l)" by simp
      from 4(2)[OF e1[symmetric]] w
      have "size (fst (subst ord param (if ord k then l else r) arg ck1)) =
            size (if ord k then l else r)" by simp
      then show "size (fst (subst ord param (App l r) arg (c, k))) = size (App l r)"
        using e1 s1 by (auto split: prod.splits)
    qed
  qed auto
  then show ?thesis by simp
qed

text \<open>
  The free list is sound: its indices are in range, not live, and none occurs twice.
  \<open>alloc_expr\<close> stops the program on a free list that is not.
\<close>

definition dead_ok :: "state \<Rightarrow> bool" where
  "dead_ok s \<longleftrightarrow>
     distinct (dead s) \<and> (\<forall>i \<in> set (dead s). i < length (slots s) \<and> \<not> live (slots s ! i))"

text \<open>Every slot that is live in \<open>s\<close> is the same slot in \<open>s'\<close>.\<close>

definition keeps_live :: "state \<Rightarrow> state \<Rightarrow> bool" where
  "keeps_live s s' \<longleftrightarrow>
     length (slots s) \<le> length (slots s') \<and>
     (\<forall>i < length (slots s). live (slots s ! i) \<longrightarrow> slots s' ! i = slots s ! i)"

lemma expr_slot_Inr:
  "expr_slot s i = Inr sl \<longleftrightarrow> i < length (slots s) \<and> live (slots s ! i) \<and> sl = slots s ! i"
  by (auto simp: expr_slot_def)

lemma expr_slot_Inl: "expr_slot s i = Inl e \<Longrightarrow> e = AssertFail"
  by (auto simp: expr_slot_def split: if_splits)

lemma keeps_live_refl: "keeps_live s s"
  by (simp add: keeps_live_def)

lemma keeps_live_trans: "keeps_live s s1 \<Longrightarrow> keeps_live s1 s2 \<Longrightarrow> keeps_live s s2"
  unfolding keeps_live_def by (metis le_trans less_le_trans)

lemma keeps_live_slot:
  "keeps_live s s' \<Longrightarrow> expr_slot s i = Inr sl \<Longrightarrow> expr_slot s' i = Inr sl"
  by (auto simp: keeps_live_def expr_slot_Inr)

lemma keeps_live_slots_eq: "slots s' = slots s \<Longrightarrow> keeps_live s s'"
  by (simp add: keeps_live_def)

lemma gens_cur_update_fields [simp]:
  "slots (gens_cur_update f s) = slots s"
  "dead (gens_cur_update f s) = dead s"
  "global_counter (gens_cur_update f s) = global_counter s"
  "stdout (gens_cur_update f s) = stdout s"
  "rand_seq (gens_cur_update f s) = rand_seq s"
  "rand_pos (gens_cur_update f s) = rand_pos s"
  "order_seq (gens_cur_update f s) = order_seq s"
  "order_pos (gens_cur_update f s) = order_pos s"
  "gen_cur (gens_cur_update f s) = gen_cur s"
  "gens_cur (gens_cur_update f s) = f (gens_cur s)"
  by (simp_all add: gens_cur_update_def gens_cur_def)

lemma gens_cur_other_update [simp]:
  "gens_cur (slots_update f1 s) = gens_cur s"
  "gens_cur (dead_update f2 s) = gens_cur s"
  "gens_cur (global_counter_update f3 s) = gens_cur s"
  "gens_cur (stdout_update f4 s) = gens_cur s"
  "gens_cur (rand_pos_update f5 s) = gens_cur s"
  "gens_cur (order_pos_update f6 s) = gens_cur s"
  by (simp_all add: gens_cur_def)

lemma alloc_expr_Inr:
  assumes "alloc_expr s = Inr (i, s')"
  shows "keeps_live s s'" 
    and "i < length (slots s')" and "live (slots s' ! i)"
    and "i < length (slots s) \<longrightarrow> \<not> live (slots s ! i)"
    and "global_counter s' = global_counter s" and "stdout s' = stdout s"
    and "rand_seq s' = rand_seq s" and "rand_pos s' = rand_pos s"
    and "gen_cur s' = gen_cur s" and "gens_cur s' = gens_cur s @ [i]"
    and "length (slots s') = (if dead s = [] then Suc (length (slots s)) else length (slots s))"
    and "\<forall>j < length (slots s). j \<noteq> i \<longrightarrow> slots s' ! j = slots s ! j"
    and "dead s' = butlast (dead s)" and "dead s \<noteq> [] \<longrightarrow> i = last (dead s)"
    and "dead s = [] \<longrightarrow> i = length (slots s)"
    and "visited (slots s' ! i) = (if dead s = [] then False else visited (slots s ! i))"
    and "order_seq s' = order_seq s" and "order_pos s' = order_pos s"
  using assms
  by (auto simp: alloc_expr_def Let_def keeps_live_def nth_list_update nth_append zero_expr_def
           split: if_splits)

lemma alloc_expr_total:
  assumes "dead_ok s"
  shows "\<exists>i s'. alloc_expr s = Inr (i, s') \<and> dead_ok s'"
proof (cases "dead s = []")
  case True
  then show ?thesis using assms
    by (auto simp: alloc_expr_def Let_def dead_ok_def zero_expr_def nth_append)
next
  case False
  then have l: "last (dead s) \<in> set (dead s)" by simp
  have nb: "last (dead s) \<notin> set (butlast (dead s))"
    using assms False unfolding dead_ok_def
    by (metis append_butlast_last_id distinct_append disjoint_iff list.set_intros(1) distinct.simps(2) not_distinct_conv_prefix)
  show ?thesis using assms False l nb
    by (auto simp: alloc_expr_def Let_def dead_ok_def distinct_butlast nth_list_update
             dest: in_set_butlastD)
qed

lemma new_expr_Inr:
  assumes "new_expr k s = Inr (i, s')"
  shows "keeps_live s s'"
    and "i < length (slots s')" and "live (slots s' ! i)" and "kind (slots s' ! i) = k"
    and "i < length (slots s) \<longrightarrow> \<not> live (slots s ! i)"
    and "global_counter s' = global_counter s" and "stdout s' = stdout s"
    and "rand_seq s' = rand_seq s" and "rand_pos s' = rand_pos s"
    and "order_seq s' = order_seq s" and "order_pos s' = order_pos s"
proof -
  from assms obtain s1 where a: "alloc_expr s = Inr (i, s1)" and k: "set_kind i k s1 = Inr s'"
    by (auto simp: new_expr_def split: sum.splits)
  note A = alloc_expr_Inr[OF a]
  from k have s': "s' = s1\<lparr>slots := (slots s1)[i := (slots s1 ! i)\<lparr>kind := k\<rparr>]\<rparr>"
    by (auto simp: set_kind_def split: if_splits)
  show "keeps_live s s'" using A(1,2,4) unfolding s' keeps_live_def
    by (auto simp: nth_list_update)
  show "i < length (slots s')" "live (slots s' ! i)" "kind (slots s' ! i) = k"
    using A(2,3) by (simp_all add: s')
  show "i < length (slots s) \<longrightarrow> \<not> live (slots s ! i)" using A(4) .
  show "global_counter s' = global_counter s" "stdout s' = stdout s"
     "rand_seq s' = rand_seq s" "rand_pos s' = rand_pos s"
     "order_seq s' = order_seq s" "order_pos s' = order_pos s"
    using A by (simp_all add: s')
qed

lemma new_expr_total:
  assumes "dead_ok s"
  shows "\<exists>i s'. new_expr k s = Inr (i, s') \<and> dead_ok s'"
proof -
  from alloc_expr_total[OF assms] obtain i s1 where a: "alloc_expr s = Inr (i, s1)"
    and d: "dead_ok s1" by blast
  note A = alloc_expr_Inr[OF a]
  have "set_kind i k s1 = Inr (s1\<lparr>slots := (slots s1)[i := (slots s1 ! i)\<lparr>kind := k\<rparr>]\<rparr>)"
    using A(2,3) by (simp add: set_kind_def)
  moreover have "dead_ok (s1\<lparr>slots := (slots s1)[i := (slots s1 ! i)\<lparr>kind := k\<rparr>]\<rparr>)"
    using d A(2) by (auto simp: dead_ok_def nth_list_update split: if_splits)
  ultimately show ?thesis using a by (simp add: new_expr_def)
qed

lemma symbol_eq_iff [simp]: "symbol_eq a b \<longleftrightarrow> a = b"
  by (cases a; cases b) (simp add: symbol_eq_def)

lemma denotes_keeps_live: "keeps_live s s' \<Longrightarrow> denotes s i t \<Longrightarrow> denotes s' i t"
proof (induction t arbitrary: i)
  case (Var v)
  then show ?case by (auto simp: keeps_live_slot split: sum.splits)
next
  case (Magic m)
  then show ?case by (auto simp: keeps_live_slot split: sum.splits)
next
  case (Fun p t)
  then show ?case by (auto simp: keeps_live_slot split: sum.splits node.splits)
next
  case (App t1 t2)
  then show ?case by (auto simp: keeps_live_slot split: sum.splits node.splits)
qed

lemma denotes_Var: "denotes s i (Var v) \<longleftrightarrow> (\<exists>sl. expr_slot s i = Inr sl \<and> kind sl = EXPR_VAR v)"
  by (auto split: sum.splits)
lemma denotes_Magic: "denotes s i (Magic m) \<longleftrightarrow> (\<exists>sl. expr_slot s i = Inr sl \<and> kind sl = EXPR_MAG m)"
  by (auto split: sum.splits)
lemma denotes_Fun: "denotes s i (Fun p t) \<longleftrightarrow>
   (\<exists>sl b. expr_slot s i = Inr sl \<and> kind sl = EXPR_FUN p b \<and> denotes s b t)"
  by (auto split: sum.splits node.splits)
lemma denotes_App: "denotes s i (App t1 t2) \<longleftrightarrow>
   (\<exists>sl l r. expr_slot s i = Inr sl \<and> kind sl = EXPR_APP l r \<and> denotes s l t1 \<and> denotes s r t2)"
  by (auto split: sum.splits node.splits)

declare denotes.simps [simp del]

lemma new_expr_slot:
  assumes "new_expr k s = Inr (i, s')"
  shows "\<exists>sl. expr_slot s' i = Inr sl \<and> kind sl = k"
  using new_expr_Inr(2,3,4)[OF assms] by (simp add: expr_slot_Inr)

lemma symbol_fresh_keeps: "symbol_fresh p s = (p', s1) \<Longrightarrow> keeps_live s s1"
  by (auto simp: symbol_fresh_def keeps_live_def)

text \<open>
  What the specification passes along: the counter of fresh tags and the position in the
  sequence of choices.
\<close>

definition tags :: "state \<Rightarrow> nat \<times> nat" where
  "tags s = (global_counter s, order_pos s)"

lemma new_expr_tags:
  "new_expr k s = Inr (i, s') \<Longrightarrow> tags s' = tags s \<and> order_seq s' = order_seq s"
  using new_expr_Inr(6,10,11) by (simp add: tags_def)

lemma args_right_to_left_fields:
  assumes "args_right_to_left s = (rtl, s0)"
  shows "rtl = order_seq s (order_pos s)" and "tags s0 = (global_counter s, Suc (order_pos s))"
    and "order_seq s0 = order_seq s" and "keeps_live s s0" and "dead_ok s0 = dead_ok s"
    and "slots s0 = slots s"
  using assms by (auto simp: args_right_to_left_def tags_def keeps_live_def dead_ok_def)

text \<open>
  The application case of \<open>replace\<close>, taken apart: the choice, the two replacements in
  the order chosen, and the new node.
\<close>

lemma replace_App:
  assumes "replace (Suc n) param body arg s = Inr (r, s')"
    and "expr_slot s body = Inr sl" and "kind sl = EXPR_APP lhs rhs"
  obtains rtl s0 first' s1 second' s2 where
    "args_right_to_left s = (rtl, s0)"
    "replace n param (if rtl then rhs else lhs) arg s0 = Inr (first', s1)"
    "replace n param (if rtl then lhs else rhs) arg s1 = Inr (second', s2)"
    "app (if rtl then second' else first') (if rtl then first' else second') s2 = Inr (r, s')"
proof -
  obtain rtl s0 where c: "args_right_to_left s = (rtl, s0)" by (cases "args_right_to_left s")
  show thesis
  proof (cases rtl)
    case True
    with assms c obtain first' s1 second' s2 where
      "replace n param rhs arg s0 = Inr (first', s1)"
      "replace n param lhs arg s1 = Inr (second', s2)"
      "app second' first' s2 = Inr (r, s')"
      by (auto split: sum.splits)
    then show thesis using that[OF c, of first' s1 second' s2] True by simp
  next
    case False
    with assms c obtain first' s1 second' s2 where
      "replace n param lhs arg s0 = Inr (first', s1)"
      "replace n param rhs arg s1 = Inr (second', s2)"
      "app first' second' s2 = Inr (r, s')"
      by (auto split: sum.splits)
    then show thesis using that[OF c, of first' s1 second' s2] False by simp
  qed
qed

lemma replace_App_eq:
  assumes "expr_slot s body = Inr sl" and "kind sl = EXPR_APP lhs rhs"
    and "args_right_to_left s = (rtl, s0)"
    and "replace n param (if rtl then rhs else lhs) arg s0 = Inr (first', s1)"
    and "replace n param (if rtl then lhs else rhs) arg s1 = Inr (second', s2)"
  shows "replace (Suc n) param body arg s =
         app (if rtl then second' else first') (if rtl then first' else second') s2"
  using assms by (cases rtl) simp_all

lemma replace_keeps_live: "replace n param body arg s = Inr (r, s') \<Longrightarrow> keeps_live s s'"
proof (induction n arbitrary: param body arg s r s')
  case 0
  then show ?case by simp
next
  case (Suc n)
  from Suc.prems obtain sl where sl: "expr_slot s body = Inr sl"
    by (auto split: sum.splits)
  show ?case
  proof (cases "kind sl")
    case (EXPR_VAR v)
    then show ?thesis using Suc.prems sl by (auto simp: keeps_live_refl split: if_splits)
  next
    case (EXPR_MAG m)
    then show ?thesis using Suc.prems sl by (auto simp: keeps_live_refl)
  next
    case (EXPR_APP l r0)
    from replace_App[OF Suc.prems sl EXPR_APP] obtain rtl s0 first' s1 second' s2 where
      0: "args_right_to_left s = (rtl, s0)" and
      1: "replace n param (if rtl then r0 else l) arg s0 = Inr (first', s1)" and
      2: "replace n param (if rtl then l else r0) arg s1 = Inr (second', s2)" and
      3: "app (if rtl then second' else first') (if rtl then first' else second') s2 = Inr (r, s')"
      by blast
    from args_right_to_left_fields(4)[OF 0] Suc.IH[OF 1] Suc.IH[OF 2]
      new_expr_Inr(1)[OF 3[unfolded app_def]]
    show ?thesis by (blast intro: keeps_live_trans)
  next
    case (EXPR_FUN p b)
    show ?thesis
    proof (cases "p = param")
      case True
      then show ?thesis using Suc.prems sl EXPR_FUN by (auto simp: keeps_live_refl)
    next
      case False
      from Suc.prems sl EXPR_FUN False obtain fr where fr: "is_var_free_there n p arg s = Inr fr"
        by (auto split: sum.splits)
      show ?thesis
      proof (cases fr)
        case nf: False
        from Suc.prems sl EXPR_FUN False fr nf obtain b' s1 where
          1: "replace n param b arg s = Inr (b', s1)" and 2: "fun_expr p b' s1 = Inr (r, s')"
          by (auto split: sum.splits)
        from Suc.IH[OF 1] new_expr_Inr(1)[OF 2[unfolded fun_expr_def]]
        show ?thesis by (blast intro: keeps_live_trans)
      next
        case True
        obtain p' s1 where f: "symbol_fresh p s = (p', s1)" by (cases "symbol_fresh p s")
        from Suc.prems sl EXPR_FUN False fr True f obtain fp s2 b1 s3 b2 s4 where
          1: "var p' s1 = Inr (fp, s2)" and 2: "replace n p b fp s2 = Inr (b1, s3)"
          and 3: "replace n param b1 arg s3 = Inr (b2, s4)" and 4: "fun_expr p' b2 s4 = Inr (r, s')"
          by (auto split: sum.splits)
        from symbol_fresh_keeps[OF f] new_expr_Inr(1)[OF 1[unfolded var_def]] Suc.IH[OF 2]
          Suc.IH[OF 3] new_expr_Inr(1)[OF 4[unfolded fun_expr_def]]
        show ?thesis by (blast intro: keeps_live_trans)
      qed
    qed
  qed
qed

lemma is_var_free_there_denotes:
  "is_var_free_there n v e s = Inr b \<Longrightarrow> denotes s e t \<Longrightarrow> b = free_in v t"
proof (induction n arbitrary: e t b)
  case 0
  then show ?case by simp
next
  case (Suc n)
  show ?case
  proof (cases t)
    case (Var w)
    then show ?thesis using Suc.prems by (auto simp: denotes_Var)
  next
    case (Magic m)
    then show ?thesis using Suc.prems by (auto simp: denotes_Magic)
  next
    case (Fun p tb)
    with Suc.prems obtain sl b0 where sl: "expr_slot s e = Inr sl" "kind sl = EXPR_FUN p b0"
      and d: "denotes s b0 tb" by (auto simp: denotes_Fun)
    show ?thesis
    proof (cases "p = v")
      case True
      then show ?thesis using Suc.prems(1) sl Fun by simp
    next
      case False
      with Suc.prems(1) sl have "is_var_free_there n v b0 s = Inr b" by simp
      from Suc.IH[OF this d] show ?thesis using Fun False by simp
    qed
  next
    case (App t1 t2)
    with Suc.prems obtain sl l r where sl: "expr_slot s e = Inr sl" "kind sl = EXPR_APP l r"
      and d: "denotes s l t1" "denotes s r t2" by (auto simp: denotes_App)
    from Suc.prems(1) sl obtain bl where bl: "is_var_free_there n v l s = Inr bl"
      by (auto split: sum.splits)
    from Suc.IH[OF bl d(1)] have bl_eq: "bl = free_in v t1" .
    show ?thesis
    proof (cases bl)
      case True
      then show ?thesis using Suc.prems(1) sl bl bl_eq App by simp
    next
      case False
      with Suc.prems(1) sl bl have "is_var_free_there n v r s = Inr b" by simp
      from Suc.IH[OF this d(2)] show ?thesis using App bl_eq False by simp
    qed
  qed
qed

lemma is_var_free_there_total:
  "denotes s e t \<Longrightarrow> size t < n \<Longrightarrow> is_var_free_there n v e s = Inr (free_in v t)"
proof (induction t arbitrary: e n)
  case (Var w)
  then obtain k where "n = Suc k" by (cases n) auto
  then show ?case using Var by (auto simp: denotes_Var)
next
  case (Magic m)
  then obtain k where "n = Suc k" by (cases n) auto
  then show ?case using Magic by (auto simp: denotes_Magic)
next
  case (Fun p tb)
  then obtain k where n: "n = Suc k" by (cases n) auto
  from Fun.prems obtain sl b0 where sl: "expr_slot s e = Inr sl" "kind sl = EXPR_FUN p b0"
      and d: "denotes s b0 tb" by (auto simp: denotes_Fun)
  from Fun.IH[OF d, of k] Fun.prems(2) n have "is_var_free_there k v b0 s = Inr (free_in v tb)"
    by simp
  then show ?case using sl n by auto
next
  case (App t1 t2)
  then obtain k where n: "n = Suc k" by (cases n) auto
  from App.prems obtain sl l r where sl: "expr_slot s e = Inr sl" "kind sl = EXPR_APP l r"
      and d: "denotes s l t1" "denotes s r t2" by (auto simp: denotes_App)
  from App.IH(1)[OF d(1), of k] App.IH(2)[OF d(2), of k] App.prems(2) n
  have "is_var_free_there k v l s = Inr (free_in v t1)" "is_var_free_there k v r s = Inr (free_in v t2)"
    by simp_all
  then show ?case using sl n by (auto split: bool.splits)
qed

lemma new_expr_denotes_Var:
  "new_expr (EXPR_VAR v) s = Inr (i, s') \<Longrightarrow> denotes s' i (Var v)"
  using new_expr_slot[of "EXPR_VAR v" s i s'] by (auto simp: denotes_Var)

lemma new_expr_denotes_Magic:
  "new_expr (EXPR_MAG m) s = Inr (i, s') \<Longrightarrow> denotes s' i (Magic m)"
  using new_expr_slot[of "EXPR_MAG m" s i s'] by (auto simp: denotes_Magic)

lemma new_expr_denotes_Fun:
  "new_expr (EXPR_FUN p b) s = Inr (i, s') \<Longrightarrow> denotes s b t \<Longrightarrow> denotes s' i (Fun p t)"
  using new_expr_slot[of "EXPR_FUN p b" s i s'] denotes_keeps_live[OF new_expr_Inr(1), of _ s i s' b t]
  by (auto simp: denotes_Fun)

lemma new_expr_denotes_App:
  "new_expr (EXPR_APP l r) s = Inr (i, s') \<Longrightarrow> denotes s l t1 \<Longrightarrow> denotes s r t2 \<Longrightarrow>
   denotes s' i (App t1 t2)"
  using new_expr_slot[of "EXPR_APP l r" s i s'] denotes_keeps_live[OF new_expr_Inr(1), of _ s i s']
  by (auto simp: denotes_App)

lemma replace_denotes:
  "replace n param body arg s = Inr (r, s') \<Longrightarrow> denotes s body tb \<Longrightarrow> denotes s arg ta \<Longrightarrow>
   denotes s' r (fst (subst (order_seq s) param tb ta (tags s))) \<and>
   tags s' = snd (subst (order_seq s) param tb ta (tags s)) \<and> order_seq s' = order_seq s"
proof (induction n arbitrary: param body arg s r s' tb ta)
  case 0
  then show ?case by simp
next
  case (Suc n)
  define ord where "ord = order_seq s"
  define c where "c = global_counter s"
  define k where "k = order_pos s"
  have tg: "tags s = (c, k)" by (simp add: tags_def c_def k_def)
  show ?case
  proof (cases tb)
    case (Var v)
    then show ?thesis using Suc.prems by (auto simp: denotes_Var)
  next
    case (Magic m)
    then show ?thesis using Suc.prems by (auto simp: denotes_Magic)
  next
    case (App t1 t2)
    with Suc.prems obtain sl l r0 where sl: "expr_slot s body = Inr sl" "kind sl = EXPR_APP l r0"
      and d: "denotes s l t1" "denotes s r0 t2" by (auto simp: denotes_App)
    from replace_App[OF Suc.prems(1) sl] obtain rtl s0 first' s1 second' s2 where
      0: "args_right_to_left s = (rtl, s0)" and
      1: "replace n param (if rtl then r0 else l) arg s0 = Inr (first', s1)" and
      2: "replace n param (if rtl then l else r0) arg s1 = Inr (second', s2)" and
      3: "app (if rtl then second' else first') (if rtl then first' else second') s2 = Inr (r, s')"
      by blast
    note F = args_right_to_left_fields[OF 0]
    have rtl: "rtl = ord k" using F(1) by (simp add: ord_def k_def)
    have t0: "tags s0 = (c, Suc k)" "order_seq s0 = ord" using F(2,3) by (simp_all add: c_def k_def ord_def)
    note k0 = F(4) and k1 = replace_keeps_live[OF 1] and k2 = replace_keeps_live[OF 2]
    have d1: "denotes s0 (if rtl then r0 else l) (if rtl then t2 else t1)"
      using d k0 by (auto intro: denotes_keeps_live)
    have da0: "denotes s0 arg ta" using Suc.prems(3) k0 by (rule denotes_keeps_live[rotated])
    from Suc.IH[OF 1 d1 da0] t0
    have r1: "denotes s1 first' (fst (subst ord param (if rtl then t2 else t1) ta (c, Suc k)))"
      "tags s1 = snd (subst ord param (if rtl then t2 else t1) ta (c, Suc k))"
      "order_seq s1 = ord" by simp_all
    have d2: "denotes s1 (if rtl then l else r0) (if rtl then t1 else t2)"
      using d k0 k1 by (auto intro: denotes_keeps_live)
    have da1: "denotes s1 arg ta" using da0 k1 by (rule denotes_keeps_live[rotated])
    from Suc.IH[OF 2 d2 da1] r1(3)
    have r2: "denotes s2 second' (fst (subst ord param (if rtl then t1 else t2) ta (tags s1)))"
      "tags s2 = snd (subst ord param (if rtl then t1 else t2) ta (tags s1))"
      "order_seq s2 = ord" by simp_all
    note n3 = new_expr_tags[OF 3[unfolded app_def]]
    have r1': "denotes s2 first' (fst (subst ord param (if rtl then t2 else t1) ta (c, Suc k)))"
      using r1(1) k2 by (rule denotes_keeps_live[rotated])
    show ?thesis
    proof (cases rtl)
      case True
      from new_expr_denotes_App[OF 3[unfolded app_def]] True r1' r2(1)
      have "denotes s' r (App (fst (subst ord param t1 ta (tags s1)))
                              (fst (subst ord param t2 ta (c, Suc k))))" by simp
      then show ?thesis
        unfolding App ord_def[symmetric] tg using True rtl r1(2) r2(2,3) n3
        by (simp add: case_prod_beta)
    next
      case False
      from new_expr_denotes_App[OF 3[unfolded app_def]] False r1' r2(1)
      have "denotes s' r (App (fst (subst ord param t1 ta (c, Suc k)))
                              (fst (subst ord param t2 ta (tags s1))))" by simp
      then show ?thesis
        unfolding App ord_def[symmetric] tg using False rtl r1(2) r2(2,3) n3
        by (simp add: case_prod_beta)
    qed
  next
    case (Fun p tbb)
    with Suc.prems obtain sl b where sl: "expr_slot s body = Inr sl" "kind sl = EXPR_FUN p b"
      and d: "denotes s b tbb" by (auto simp: denotes_Fun)
    show ?thesis
    proof (cases "p = param")
      case True
      then show ?thesis using Suc.prems sl Fun tg by auto
    next
      case False
      from Suc.prems(1) sl False obtain fr where fr: "is_var_free_there n p arg s = Inr fr"
        by (auto split: sum.splits)
      from is_var_free_there_denotes[OF fr Suc.prems(3)] have fr_eq: "fr = free_in p ta" .
      show ?thesis
      proof (cases fr)
        case nf: False
        from Suc.prems(1) sl False fr nf obtain b' s1 where
          1: "replace n param b arg s = Inr (b', s1)" and 2: "fun_expr p b' s1 = Inr (r, s')"
          by (auto split: sum.splits)
        from Suc.IH[OF 1 d Suc.prems(3)]
        have r1: "denotes s1 b' (fst (subst ord param tbb ta (c, k)))"
          "tags s1 = snd (subst ord param tbb ta (c, k))" "order_seq s1 = ord"
          by (simp_all add: ord_def tg)
        from new_expr_denotes_Fun[OF 2[unfolded fun_expr_def] r1(1)]
          new_expr_tags[OF 2[unfolded fun_expr_def]] r1(2,3)
        show ?thesis unfolding Fun ord_def[symmetric] tg using False nf fr_eq
          by (simp add: case_prod_beta)
      next
        case True
        define p' where "p' = Symbol (label p) (Suc c)"
        define s1 where "s1 = s\<lparr>global_counter := Suc c\<rparr>"
        have f: "symbol_fresh p s = (p', s1)" by (simp add: symbol_fresh_def p'_def s1_def c_def)
        from Suc.prems(1) sl False fr True f obtain fp s2 b1 s3 b2 s4 where
          1: "var p' s1 = Inr (fp, s2)" and 2: "replace n p b fp s2 = Inr (b1, s3)"
          and 3: "replace n param b1 arg s3 = Inr (b2, s4)" and 4: "fun_expr p' b2 s4 = Inr (r, s')"
          by (auto split: sum.splits)
        note k0 = symbol_fresh_keeps[OF f] and k1 = new_expr_Inr(1)[OF 1[unfolded var_def]]
          and k2 = replace_keeps_live[OF 2]
        have c2: "tags s2 = (Suc c, k)" "order_seq s2 = ord"
          using new_expr_tags[OF 1[unfolded var_def]]
          by (simp_all add: s1_def tags_def k_def ord_def)
        have dfp: "denotes s2 fp (Var p')" using new_expr_denotes_Var[OF 1[unfolded var_def]] .
        have db: "denotes s2 b tbb" using d k0 k1 by (blast intro: denotes_keeps_live)
        from Suc.IH[OF 2 db dfp] c2
        have r1: "denotes s3 b1 (fst (subst ord p tbb (Var p') (Suc c, k)))"
          "tags s3 = snd (subst ord p tbb (Var p') (Suc c, k))" "order_seq s3 = ord"
          by simp_all
        have da: "denotes s3 arg ta" using Suc.prems(3) k0 k1 k2 by (blast intro: denotes_keeps_live)
        from Suc.IH[OF 3 r1(1) da] r1(3)
        have r2: "denotes s4 b2
                    (fst (subst ord param (fst (subst ord p tbb (Var p') (Suc c, k))) ta (tags s3)))"
          "tags s4 = snd (subst ord param (fst (subst ord p tbb (Var p') (Suc c, k))) ta (tags s3))"
          "order_seq s4 = ord"
          by simp_all
        from new_expr_denotes_Fun[OF 4[unfolded fun_expr_def] r2(1)]
          new_expr_tags[OF 4[unfolded fun_expr_def]] r2(2,3) r1(2)
        show ?thesis unfolding Fun ord_def[symmetric] tg using False True fr_eq
          by (simp add: p'_def[symmetric] case_prod_beta)
      qed
    qed
  qed
qed

lemma subst_free_in:
  "free_in v (fst (subst ord param b a ck)) \<Longrightarrow> (free_in v b \<and> v \<noteq> param) \<or> free_in v a"
proof (induction ord param b a ck arbitrary: v rule: subst.induct)
  case (1 ord param w arg ck)
  then show ?case by (auto split: if_splits)
next
  case (2 ord param m arg ck)
  then show ?case by simp
next
  case (3 ord param p b arg c k)
  show ?case
  proof (cases "p = param")
    case True
    then show ?thesis using 3(4) by auto
  next
    case False
    show ?thesis
    proof (cases "free_in p arg")
      case nf: False
      with 3(4) False have "p \<noteq> v" "free_in v (fst (subst ord param b arg (c, k)))"
        by (auto simp: case_prod_beta)
      with 3(1)[OF False nf] show ?thesis by auto
    next
      case fr: True
      define p' where "p' = Symbol (label p) (Suc c)"
      obtain b1 ck1 where e1: "subst ord p b (Var p') (Suc c, k) = (b1, ck1)"
        by (cases "subst ord p b (Var p') (Suc c, k)")
      from 3(4) False fr e1 have v: "p' \<noteq> v" "free_in v (fst (subst ord param b1 arg ck1))"
        by (auto simp: case_prod_beta p'_def)
      from 3(3)[OF False _ e1[unfolded p'_def, symmetric] v(2)] fr
      have "free_in v b1 \<and> v \<noteq> param \<or> free_in v arg" by simp
      then show ?thesis
      proof
        assume a: "free_in v b1 \<and> v \<noteq> param"
        then have "free_in v (fst (subst ord p b (Var p') (Suc c, k)))" using e1 by simp
        from 3(2)[OF False _ this[unfolded p'_def]] fr v(1)
        have "free_in v b \<and> v \<noteq> p" by (auto simp: p'_def)
        then show ?thesis using a by auto
      qed simp
    qed
  qed
next
  case (4 ord param l r arg c k)
  obtain f1 ck1 where e1: "subst ord param (if ord k then r else l) arg (c, Suc k) = (f1, ck1)"
    by (cases "subst ord param (if ord k then r else l) arg (c, Suc k)")
  from 4(3) e1
  have "free_in v f1 \<or> free_in v (fst (subst ord param (if ord k then l else r) arg ck1))"
    by (auto simp: case_prod_beta split: if_splits)
  then show ?case
  proof
    assume "free_in v f1"
    then have "free_in v (fst (subst ord param (if ord k then r else l) arg (c, Suc k)))"
      using e1 by simp
    from 4(1)[OF this] show ?thesis by (auto split: if_splits)
  next
    assume "free_in v (fst (subst ord param (if ord k then l else r) arg ck1))"
    from 4(2)[OF e1[symmetric] this] show ?thesis by (auto split: if_splits)
  qed
qed

lemma replace_total:
  "dead_ok s \<Longrightarrow> denotes s body tb \<Longrightarrow> denotes s arg ta \<Longrightarrow> size tb + size ta < n \<Longrightarrow>
   \<exists>r s'. replace n param body arg s = Inr (r, s') \<and> dead_ok s'"
proof (induction n arbitrary: param body arg s tb ta)
  case 0
  then show ?case by simp
next
  case (Suc n)
  show ?case
  proof (cases tb)
    case (Var v)
    then show ?thesis using Suc.prems by (auto simp: denotes_Var)
  next
    case (Magic m)
    then show ?thesis using Suc.prems by (auto simp: denotes_Magic)
  next
    case (App t1 t2)
    with Suc.prems obtain sl l r0 where sl: "expr_slot s body = Inr sl" "kind sl = EXPR_APP l r0"
      and d: "denotes s l t1" "denotes s r0 t2" by (auto simp: denotes_App)
    from Suc.prems(4) App have sz: "size t1 + size ta < n" "size t2 + size ta < n" by simp_all
    obtain rtl s0 where 0: "args_right_to_left s = (rtl, s0)" by (cases "args_right_to_left s")
    note F = args_right_to_left_fields[OF 0]
    have ok0: "dead_ok s0" using F(5) Suc.prems(1) by simp
    have d1: "denotes s0 (if rtl then r0 else l) (if rtl then t2 else t1)"
      using d F(4) by (auto intro: denotes_keeps_live)
    have da0: "denotes s0 arg ta" using Suc.prems(3) F(4) by (rule denotes_keeps_live[rotated])
    have "size (if rtl then t2 else t1) + size ta < n" using sz by simp
    from Suc.IH[OF ok0 d1 da0 this] obtain first' s1 where
      1: "replace n param (if rtl then r0 else l) arg s0 = Inr (first', s1)" and
      ok1: "dead_ok s1" by blast
    note k1 = replace_keeps_live[OF 1]
    have d2: "denotes s1 (if rtl then l else r0) (if rtl then t1 else t2)"
      using d F(4) k1 by (auto intro: denotes_keeps_live)
    have "size (if rtl then t1 else t2) + size ta < n" using sz by simp
    from Suc.IH[OF ok1 d2 denotes_keeps_live[OF k1 da0] this]
    obtain second' s2 where
      2: "replace n param (if rtl then l else r0) arg s1 = Inr (second', s2)" and
      ok2: "dead_ok s2" by blast
    from new_expr_total[OF ok2] obtain r s' where
      3: "app (if rtl then second' else first') (if rtl then first' else second') s2 = Inr (r, s')"
      "dead_ok s'" unfolding app_def by blast
    show ?thesis using replace_App_eq[OF sl 0 1 2] 3 by simp
  next
    case (Fun p tbb)
    with Suc.prems obtain sl b where sl: "expr_slot s body = Inr sl" "kind sl = EXPR_FUN p b"
      and d: "denotes s b tbb" by (auto simp: denotes_Fun)
    from Suc.prems(4) Fun have sz: "size tbb + size ta < n" "size ta < n" by simp_all
    have fr: "is_var_free_there n p arg s = Inr (free_in p ta)"
      using is_var_free_there_total[OF Suc.prems(3) sz(2)] .
    show ?thesis
    proof (cases "p = param")
      case True
      then show ?thesis using Suc.prems sl by auto
    next
      case False
      show ?thesis
      proof (cases "free_in p ta")
        case nf: False
        from Suc.IH[OF Suc.prems(1) d Suc.prems(3) sz(1)] obtain b' s1 where
          1: "replace n param b arg s = Inr (b', s1)" and ok1: "dead_ok s1" by blast
        from new_expr_total[OF ok1] obtain r s' where
          2: "fun_expr p b' s1 = Inr (r, s')" "dead_ok s'" unfolding fun_expr_def by blast
        show ?thesis using sl False fr nf 1 2 by simp
      next
        case True
        define c where "c = global_counter s"
        define p' where "p' = Symbol (label p) (Suc c)"
        define s1 where "s1 = s\<lparr>global_counter := Suc c\<rparr>"
        have f: "symbol_fresh p s = (p', s1)" by (simp add: symbol_fresh_def p'_def s1_def c_def)
        have ok1: "dead_ok s1" using Suc.prems(1) by (simp add: dead_ok_def s1_def)
        from new_expr_total[OF ok1] obtain fp s2 where
          1: "var p' s1 = Inr (fp, s2)" and ok2: "dead_ok s2" unfolding var_def by blast
        note k0 = symbol_fresh_keeps[OF f] and k1 = new_expr_Inr(1)[OF 1[unfolded var_def]]
        have dfp: "denotes s2 fp (Var p')" using new_expr_denotes_Var[OF 1[unfolded var_def]] .
        have db: "denotes s2 b tbb" using d k0 k1 by (blast intro: denotes_keeps_live)
        have "size tbb + size (Var p') < n" using sz(1) by simp
        from Suc.IH[OF ok2 db dfp this, of p] obtain b1 s3 where
          2: "replace n p b fp s2 = Inr (b1, s3)" and ok3: "dead_ok s3" by blast
        note k2 = replace_keeps_live[OF 2]
        from replace_denotes[OF 2 db dfp]
        have d1: "denotes s3 b1 (fst (subst (order_seq s2) p tbb (Var p') (tags s2)))" by simp
        have da: "denotes s3 arg ta" using Suc.prems(3) k0 k1 k2 by (blast intro: denotes_keeps_live)
        have "size (fst (subst (order_seq s2) p tbb (Var p') (tags s2))) + size ta < n"
          using sz(1) by (simp add: subst_var_size)
        from Suc.IH[OF ok3 d1 da this, of param] obtain b2 s4 where
          3: "replace n param b1 arg s3 = Inr (b2, s4)" and ok4: "dead_ok s4" by blast
        from new_expr_total[OF ok4] obtain r s' where
          4: "fun_expr p' b2 s4 = Inr (r, s')" "dead_ok s'" unfolding fun_expr_def by blast
        show ?thesis using sl False fr True f 1 2 3 4 by simp
      qed
    qed
  qed
qed

lemma new_expr_keeps: "new_expr k s = Inr (i, s') \<Longrightarrow> keeps_live t s \<Longrightarrow> keeps_live t s'"
  using new_expr_Inr(1) keeps_live_trans by blast

lemma replace_keeps: "replace n param body arg s = Inr (r, s') \<Longrightarrow> keeps_live t s \<Longrightarrow> keeps_live t s'"
  using replace_keeps_live keeps_live_trans by blast

lemma print_keeps: "keeps_live t s \<Longrightarrow> keeps_live t (print str s)"
  by (simp add: keeps_live_def print_def)

lemma ret_Inr: "ret x = Inr (ro, s') \<longleftrightarrow> (\<exists>i. x = Inr (i, s') \<and> ro = Some i)"
  by (auto simp: ret_def split: sum.splits)

lemma eval1_keeps: "eval1 n expr s = Inr (ro, s') \<Longrightarrow> keeps_live t s \<Longrightarrow> keeps_live t s'"
proof (induction n arbitrary: expr s ro s' t)
  case 0
  then show ?case by simp
next
  case (Suc n)
  from Suc.prems(1) obtain sl where sl: "expr_slot s expr = Inr sl"
    by (auto split: sum.splits)
  show ?case
  proof (cases "kind sl")
    case (EXPR_VAR v)
    then show ?thesis using Suc.prems sl by auto
  next
    case (EXPR_MAG m)
    then show ?thesis using Suc.prems sl by auto
  next
    case (EXPR_FUN p b)
    then show ?thesis using Suc.prems sl
      by (auto split: sum.splits option.splits if_splits simp: ret_Inr fun_expr_def)
         (blast intro: Suc.IH new_expr_keeps)+
  next
    case (EXPR_APP lhs rhs)
    from Suc.prems(1) sl EXPR_APP obtain lsl where lsl: "expr_slot s lhs = Inr lsl"
      by (auto split: sum.splits)
    show ?thesis
    proof (cases "kind lsl")
      case (EXPR_FUN p b)
      then show ?thesis using Suc.prems sl EXPR_APP lsl
        by (auto simp: ret_Inr intro: replace_keeps)
    next
      case (EXPR_MAG m)
      then show ?thesis using Suc.prems sl EXPR_APP lsl
        by (auto split: sum.splits option.splits if_splits simp: ret_Inr app_def)
           (blast intro: Suc.IH new_expr_keeps print_keeps)+
    next
      case (EXPR_VAR v)
      then show ?thesis using Suc.prems sl EXPR_APP lsl
        by (auto split: sum.splits option.splits if_splits simp: ret_Inr app_def)
           (blast intro: Suc.IH new_expr_keeps)+
    next
      case (EXPR_APP l2 r2)
      then show ?thesis using Suc.prems sl \<open>kind sl = EXPR_APP lhs rhs\<close> lsl
        by (auto split: sum.splits option.splits if_splits simp: ret_Inr app_def)
           (blast intro: Suc.IH new_expr_keeps)+
    qed
  qed
qed


lemma display_params_keeps:
  "display_params n e s = Inr x \<Longrightarrow> keeps_live s s' \<Longrightarrow> display_params n e s' = Inr x"
proof (induction n arbitrary: e x)
  case 0
  then show ?case by simp
next
  case (Suc n)
  from Suc.prems(1) obtain sl where sl: "expr_slot s e = Inr sl" by (auto split: sum.splits)
  note sl' = keeps_live_slot[OF Suc.prems(2) sl]
  show ?case using Suc.prems(1) sl sl'
    by (cases "kind sl") (auto split: sum.splits dest: Suc.IH[OF _ Suc.prems(2)])
qed

lemma expr_display_keeps:
  "expr_display n e s = Inr x \<Longrightarrow> keeps_live s s' \<Longrightarrow> expr_display n e s' = Inr x"
proof (induction n arbitrary: e x)
  case 0
  then show ?case by simp
next
  case (Suc n)
  from Suc.prems(1) obtain sl where sl: "expr_slot s e = Inr sl" by (auto split: sum.splits)
  note sl' = keeps_live_slot[OF Suc.prems(2) sl]
  show ?case
  proof (cases "kind sl")
    case (EXPR_APP l r)
    from Suc.prems(1) sl EXPR_APP obtain lsl ls rsl rs where
      1: "expr_slot s l = Inr lsl" "expr_display n l s = Inr ls"
         "expr_slot s r = Inr rsl" "expr_display n r s = Inr rs"
      by (auto split: sum.splits)
    note 2 = keeps_live_slot[OF Suc.prems(2) 1(1)] keeps_live_slot[OF Suc.prems(2) 1(3)]
       Suc.IH[OF 1(2) Suc.prems(2)] Suc.IH[OF 1(4) Suc.prems(2)]
    show ?thesis using Suc.prems(1) sl sl' EXPR_APP 1 2 by simp
  next
    case (EXPR_FUN p b)
    from Suc.prems(1) sl EXPR_FUN obtain str e' str' where
      1: "display_params n e s = Inr (str, e')" "expr_display n e' s = Inr str'"
      by (auto split: sum.splits)
    note 2 = display_params_keeps[OF 1(1) Suc.prems(2)] Suc.IH[OF 1(2) Suc.prems(2)]
    show ?thesis using Suc.prems(1) sl sl' EXPR_FUN 1 2 by simp
  qed (use Suc.prems(1) sl sl' in auto)
qed

text \<open>
  An arena for the concrete instances below: \<^verbatim>\<open>(\x.\y.x) y\<close> at index 4, built in the
  order the parser builds it, and one dead slot on the free list.
\<close>

definition example_arena :: state where
  "example_arena =
     \<lparr>slots =
        [\<lparr>kind = EXPR_VAR (Symbol ''x'' 0), visited = False, live = True\<rparr>,
         \<lparr>kind = EXPR_VAR (Symbol ''y'' 0), visited = False, live = True\<rparr>,
         \<lparr>kind = EXPR_FUN (Symbol ''y'' 0) 0, visited = False, live = True\<rparr>,
         \<lparr>kind = EXPR_FUN (Symbol ''x'' 0) 2, visited = False, live = True\<rparr>,
         \<lparr>kind = EXPR_APP 3 1, visited = False, live = True\<rparr>,
         \<lparr>kind = EXPR_MAG ''void'', visited = False, live = False\<rparr>],
      dead = [5], gens0 = [0, 1, 2, 3, 4], gens1 = [], gen_cur = 0, global_counter = 0,
      stdout = [], rand_seq = (\<lambda>i. 0), rand_pos = 0,
      order_seq = (\<lambda>i. True), order_pos = 0\<rparr>"

text \<open>
  An arena with \<^verbatim>\<open>(\y.x) (\y.x)\<close> at index 3, its two children being the one node 2, and
  \<^verbatim>\<open>(\x.(\y.x) (\y.x)) y\<close> at index 5. Arguments are evaluated from right to left.
\<close>

definition pair_arena :: state where
  "pair_arena =
     \<lparr>slots =
        [\<lparr>kind = EXPR_VAR (Symbol ''x'' 0), visited = False, live = True\<rparr>,
         \<lparr>kind = EXPR_VAR (Symbol ''y'' 0), visited = False, live = True\<rparr>,
         \<lparr>kind = EXPR_FUN (Symbol ''y'' 0) 0, visited = False, live = True\<rparr>,
         \<lparr>kind = EXPR_APP 2 2, visited = False, live = True\<rparr>,
         \<lparr>kind = EXPR_FUN (Symbol ''x'' 0) 3, visited = False, live = True\<rparr>,
         \<lparr>kind = EXPR_APP 4 1, visited = False, live = True\<rparr>],
      dead = [], gens0 = [0, 1, 2, 3, 4, 5], gens1 = [], gen_cur = 0, global_counter = 0,
      stdout = [], rand_seq = (\<lambda>i. 0), rand_pos = 0,
      order_seq = (\<lambda>i. True), order_pos = 0\<rparr>"

lemmas arena_eval =
  example_arena_def expr_slot_def new_expr_def alloc_expr_def set_kind_def var_def fun_expr_def
  app_def magic_def symbol_fresh_def gens_cur_update_def symbol_def ret_def print_def
  eval_nat_numeral Let_def zero_expr_def

text \<open>
  C1. \<open>replace\<close> follows the case analysis of the specification's \<open>subst\<close>: on an arena
  with a sound free list, where \<open>body\<close> and \<open>arg\<close> stand for the trees \<open>tb\<close> and \<open>ta\<close>,
  \<open>replace\<close> returns (given fuel beyond the sizes of the two trees) an index that stands
  for \<open>subst param tb ta\<close>, with the same fresh tags drawn from the same counter, whatever
  the order in which the two arguments of \<^verbatim>\<open>app\<close> are evaluated each time: \<open>subst\<close> takes
  the children of an application in the order that the choices of the state give. A \<open>Var\<close>
  equal to \<open>param\<close> returns the index \<open>arg\<close> itself; any other \<open>Var\<close>, a \<open>Magic\<close> and a \<open>Fun\<close>
  that binds \<open>param\<close> return the index \<open>body\<close> itself, and the arena is untouched.
\<close>

theorem replace_follows_subst:
  assumes "dead_ok s" and "denotes s body tb" and "denotes s arg ta"
    and "size tb + size ta < n"
  shows "\<exists>r s'. replace n param body arg s = Inr (r, s') \<and>
           denotes s' r (fst (subst (order_seq s) param tb ta (tags s))) \<and>
           tags s' = snd (subst (order_seq s) param tb ta (tags s)) \<and>
           (tb = Var param \<longrightarrow> r = arg \<and> s' = s) \<and>
           ((\<exists>v. tb = Var v \<and> v \<noteq> param) \<or> (\<exists>m. tb = Magic m) \<or> (\<exists>b. tb = Fun param b)
              \<longrightarrow> r = body \<and> s' = s)"
proof -
  from replace_total[OF assms] obtain r s' where r: "replace n param body arg s = Inr (r, s')"
    by blast
  obtain k where n: "n = Suc k" using assms(4) by (cases n) auto
  have "tb = Var param \<longrightarrow> r = arg \<and> s' = s"
    using r assms(2) unfolding n by (auto simp: denotes_Var)
  moreover have "(\<exists>v. tb = Var v \<and> v \<noteq> param) \<or> (\<exists>m. tb = Magic m) \<or> (\<exists>b. tb = Fun param b)
              \<longrightarrow> r = body \<and> s' = s"
    using r assms(2) unfolding n by (auto simp: denotes_Var denotes_Magic denotes_Fun)
  ultimately show ?thesis using r replace_denotes[OF r assms(2,3)] by simp
qed

text \<open>
  The instance \<^verbatim>\<open>replace(x, (\y.x) (\y.x), y)\<close>: the parameter \<open>y\<close> is free in the argument,
  so both functions are renamed before \<open>x\<close> is replaced. From right to left the right one
  draws the tag 1 and the result is \<^verbatim>\<open>(\y:2.y) (\y:1.y)\<close>; from left to right it is
  \<^verbatim>\<open>(\y:1.y) (\y:2.y)\<close>.
\<close>

theorem replace_follows_subst_witness:
  "dead_ok pair_arena \<and>
   denotes pair_arena 3
     (App (Fun (Symbol ''y'' 0) (Var (Symbol ''x'' 0)))
          (Fun (Symbol ''y'' 0) (Var (Symbol ''x'' 0)))) \<and>
   denotes pair_arena 1 (Var (Symbol ''y'' 0)) \<and>
   (\<exists>r s'. replace 4 (Symbol ''x'' 0) 3 1 pair_arena = Inr (r, s') \<and>
      denotes s' r
        (App (Fun (Symbol ''y'' 2) (Var (Symbol ''y'' 0)))
             (Fun (Symbol ''y'' 1) (Var (Symbol ''y'' 0)))) \<and>
      tags s' = (2, 1)) \<and>
   (\<exists>r s'. replace 4 (Symbol ''x'' 0) 3 1 (pair_arena\<lparr>order_seq := \<lambda>i. False\<rparr>) = Inr (r, s') \<and>
      denotes s' r
        (App (Fun (Symbol ''y'' 1) (Var (Symbol ''y'' 0)))
             (Fun (Symbol ''y'' 2) (Var (Symbol ''y'' 0)))) \<and>
      tags s' = (2, 1))"
proof -
  define tb where
    "tb = App (Fun (Symbol ''y'' 0) (Var (Symbol ''x'' 0)))
              (Fun (Symbol ''y'' 0) (Var (Symbol ''x'' 0)))"
  define s2 where "s2 = pair_arena\<lparr>order_seq := \<lambda>i. False\<rparr>"
  have h1: "dead_ok pair_arena" "dead_ok s2"
    by (simp_all add: dead_ok_def pair_arena_def s2_def)
  have h2: "denotes pair_arena 3 tb" "denotes s2 3 tb"
    by (simp_all add: denotes.simps expr_slot_def pair_arena_def s2_def tb_def)
  have h3: "denotes pair_arena 1 (Var (Symbol ''y'' 0))" "denotes s2 1 (Var (Symbol ''y'' 0))"
    by (simp_all add: denotes.simps expr_slot_def pair_arena_def s2_def)
  have h4: "size tb + size (Var (Symbol ''y'' 0)) < (4::nat)" by (simp add: tb_def)
  have c: "tags pair_arena = (0, 0)" "order_seq pair_arena = (\<lambda>i. True)"
    "tags s2 = (0, 0)" "order_seq s2 = (\<lambda>i. False)"
    by (simp_all add: pair_arena_def tags_def s2_def)
  have 1: "\<exists>r s'. replace 4 (Symbol ''x'' 0) 3 1 pair_arena = Inr (r, s') \<and>
      denotes s' r
        (App (Fun (Symbol ''y'' 2) (Var (Symbol ''y'' 0)))
             (Fun (Symbol ''y'' 1) (Var (Symbol ''y'' 0)))) \<and>
      tags s' = (2, 1)"
    using replace_follows_subst[OF h1(1) h2(1) h3(1) h4, of "Symbol ''x'' 0"]
    by (simp add: c tb_def numeral_2_eq_2)
  have 2: "\<exists>r s'. replace 4 (Symbol ''x'' 0) 3 1 s2 = Inr (r, s') \<and>
      denotes s' r
        (App (Fun (Symbol ''y'' 1) (Var (Symbol ''y'' 0)))
             (Fun (Symbol ''y'' 2) (Var (Symbol ''y'' 0)))) \<and>
      tags s' = (2, 1)"
    using replace_follows_subst[OF h1(2) h2(2) h3(2) h4, of "Symbol ''x'' 0"]
    by (simp add: c tb_def numeral_2_eq_2)
  show ?thesis using h1(1) h2(1) h3(1) 1 2 unfolding tb_def s2_def by blast
qed


text \<open>
  C2. The free variables of what \<open>replace\<close> returns are among those of \<open>body\<close> other than
  \<open>param\<close> and those of \<open>arg\<close>. \<open>free_in\<close> is the free-variable test of the specification,
  and it is what \<open>is_var_free_there\<close> computes on the returned index. With a sound free
  list and fuel beyond the sizes of the two trees \<open>replace\<close> does return.
\<close>

theorem replace_free_variables:
  assumes "denotes s body tb" and "denotes s arg ta"
  shows "(dead_ok s \<and> size tb + size ta < n \<longrightarrow>
            (\<exists>r s'. replace n param body arg s = Inr (r, s'))) \<and>
         (\<forall>r s'. replace n param body arg s = Inr (r, s') \<longrightarrow>
            (\<exists>tr. denotes s' r tr \<and>
               {v. free_in v tr} \<subseteq> ({v. free_in v tb} - {param}) \<union> {v. free_in v ta} \<and>
               (\<forall>v k. size tr < k \<longrightarrow> is_var_free_there k v r s' = Inr (free_in v tr))))"
proof (intro conjI allI impI)
  assume "dead_ok s \<and> size tb + size ta < n"
  then show "\<exists>r s'. replace n param body arg s = Inr (r, s')"
    using replace_total[OF _ assms] by blast
next
  fix r s'
  assume r: "replace n param body arg s = Inr (r, s')"
  define tr where "tr = fst (subst (order_seq s) param tb ta (tags s))"
  have d: "denotes s' r tr" using replace_denotes[OF r assms] by (simp add: tr_def)
  have "{v. free_in v tr} \<subseteq> ({v. free_in v tb} - {param}) \<union> {v. free_in v ta}"
    unfolding tr_def using subst_free_in by blast
  moreover have "\<forall>v k. size tr < k \<longrightarrow> is_var_free_there k v r s' = Inr (free_in v tr)"
    using is_var_free_there_total[OF d] by blast
  ultimately show "\<exists>tr. denotes s' r tr \<and>
       {v. free_in v tr} \<subseteq> ({v. free_in v tb} - {param}) \<union> {v. free_in v ta} \<and>
       (\<forall>v k. size tr < k \<longrightarrow> is_var_free_there k v r s' = Inr (free_in v tr))"
    using d by blast
qed

text \<open>
  The instance \<^verbatim>\<open>replace(x, \y.x, y)\<close> again: the result \<^verbatim>\<open>\y:1.y\<close> has the one free
  variable \<open>y\<close>, which comes from the argument.
\<close>

theorem replace_free_variables_witness:
  "denotes example_arena 2 (Fun (Symbol ''y'' 0) (Var (Symbol ''x'' 0))) \<and>
   denotes example_arena 1 (Var (Symbol ''y'' 0)) \<and>
   dead_ok example_arena \<and>
   (\<exists>r s'. replace 3 (Symbol ''x'' 0) 2 1 example_arena = Inr (r, s') \<and>
      (\<exists>tr. denotes s' r tr \<and>
         {v. free_in v tr} \<subseteq>
           ({v. free_in v (Fun (Symbol ''y'' 0) (Var (Symbol ''x'' 0)))} - {Symbol ''x'' 0})
           \<union> {v. free_in v (Var (Symbol ''y'' 0))}))"
proof -
  have h1: "denotes example_arena 2 (Fun (Symbol ''y'' 0) (Var (Symbol ''x'' 0)))"
    by (simp add: denotes.simps arena_eval)
  have h2: "denotes example_arena 1 (Var (Symbol ''y'' 0))"
    by (simp add: denotes.simps arena_eval)
  have h3: "dead_ok example_arena" by (simp add: dead_ok_def example_arena_def)
  note T = replace_free_variables[OF h1 h2, of 3 "Symbol ''x'' 0"]
  from T h3 obtain r s' where r: "replace 3 (Symbol ''x'' 0) 2 1 example_arena = Inr (r, s')"
    by auto
  from T r show ?thesis using h1 h2 h3 by blast
qed

text \<open>
  C10. Evaluation is non-destructive: a call of \<open>replace\<close> or of \<open>eval1\<close> that returns leaves
  every slot that was live before the call as it was (kind, payload and both collector
  bits), and an expression that could be displayed before the call is displayed as the
  same string after it. New nodes are written only to slots that \<open>alloc_expr\<close> found not
  live.
\<close>

theorem evaluation_keeps_live_slots:
  assumes "replace n param body arg s = Inr (r, s') \<or> eval1 n expr s = Inr (ro, s')"
  shows "(\<forall>i < length (slots s). live (slots s ! i) \<longrightarrow>
            i < length (slots s') \<and> slots s' ! i = slots s ! i) \<and>
         (\<forall>k e str. expr_display k e s = Inr str \<longrightarrow> expr_display k e s' = Inr str)"
proof -
  have k: "keeps_live s s'"
    using assms replace_keeps_live eval1_keeps[OF _ keeps_live_refl] by blast
  then show ?thesis using expr_display_keeps[OF _ k] by (auto simp: keeps_live_def)
qed

text \<open>
  One step of \<^verbatim>\<open>(\x.\y.x) y\<close> at index 4: the step allocates two nodes, one of them in
  the dead slot 5, and the five slots live before are unchanged.
\<close>

theorem evaluation_keeps_live_slots_witness:
  "\<exists>ro s'. eval1 4 4 example_arena = Inr (ro, s') \<and>
     (\<forall>i < length (slots example_arena). live (slots example_arena ! i) \<longrightarrow>
        i < length (slots s') \<and> slots s' ! i = slots example_arena ! i) \<and>
     expr_display 5 4 example_arena = Inr (''('' @ [CHR 0x5C] @ ''x.y.x) y'') \<and>
     expr_display 5 4 s' = Inr (''('' @ [CHR 0x5C] @ ''x.y.x) y'')"
proof -
  obtain ro s' where e: "eval1 4 4 example_arena = Inr (ro, s')"
    by (simp add: arena_eval symbol_eq_def)
  have d: "expr_display 5 4 example_arena = Inr (''('' @ [CHR 0x5C] @ ''x.y.x) y'')"
    by (simp add: arena_eval show_symbol_def paren_def)
  from evaluation_keeps_live_slots[where n=4 and expr=4 and s=example_arena, OF disjI2, OF e] d e
  show ?thesis by blast
qed

text \<open>
  The single-step reducer of the specification, on trees: the reduct, whether the
  expression changed, and the counter of fresh tags with the position in the sequence of
  choices that \<open>subst\<close> reads; \<open>None\<close> is the error of an unknown magic label. The head of an application is dispatched in the order
  \<open>Fun\<close>, \<open>Magic\<close>, anything else.
\<close>

fun eval1_spec ::
  "(nat \<Rightarrow> bool) \<Rightarrow> tree \<Rightarrow> nat \<times> nat \<Rightarrow> (tree \<times> bool \<times> nat \<times> nat) option" where
  "eval1_spec ord (Var v) c = Some (Var v, False, c)"
| "eval1_spec ord (Magic m) c = Some (Magic m, False, c)"
| "eval1_spec ord (Fun p b) c =
     (case eval1_spec ord b c of
        None \<Rightarrow> None
      | Some (b', changed, c') \<Rightarrow>
          if changed then Some (Fun p b', True, c') else Some (Fun p b, False, c'))"
| "eval1_spec ord (App (Fun p b) r) c =
     (case subst ord p b r c of (t, c') \<Rightarrow> Some (t, True, c'))"
| "eval1_spec ord (App (Magic m) r) c =
     (if m = ''trace'' then
        (case eval1_spec ord r c of
           None \<Rightarrow> None
         | Some (r', changed, c') \<Rightarrow>
             if changed then Some (App (Magic m) r', True, c') else Some (r, True, c'))
      else if m = ''void'' then
        (case eval1_spec ord r c of
           None \<Rightarrow> None
         | Some (r', changed, c') \<Rightarrow>
             if changed then Some (App (Magic m) r', True, c') else Some (Magic m, True, c'))
      else None)"
| "eval1_spec ord (App l r) c =
     (case eval1_spec ord l c of
        None \<Rightarrow> None
      | Some (l', changed, c') \<Rightarrow>
          if changed then Some (App l' r, True, c')
          else
            (case eval1_spec ord r c' of
               None \<Rightarrow> None
             | Some (r', changed', c'') \<Rightarrow>
                 if changed' then Some (App l r', True, c'') else Some (App l r, False, c'')))"


lemma denotes_unique: "denotes s i t \<Longrightarrow> denotes s i t' \<Longrightarrow> t = t'"
proof (induction t arbitrary: i t')
  case (Var v)
  then show ?case by (cases t') (auto simp: denotes_Var denotes_Magic denotes_Fun denotes_App)
next
  case (Magic m)
  then show ?case by (cases t') (auto simp: denotes_Var denotes_Magic denotes_Fun denotes_App)
next
  case (Fun p t)
  then show ?case by (cases t') (auto simp: denotes_Var denotes_Magic denotes_Fun denotes_App)
next
  case (App t1 t2)
  then show ?case by (cases t') (auto simp: denotes_Var denotes_Magic denotes_Fun denotes_App)
qed

lemma denotes_live: "denotes s i t \<Longrightarrow> i < length (slots s) \<and> live (slots s ! i)"
  by (cases t) (auto simp: denotes_Var denotes_Magic denotes_Fun denotes_App expr_slot_Inr)

lemma replace_result:
  "replace n param body arg s = Inr (r, s') \<Longrightarrow>
   r = body \<or> r = arg \<or> \<not> (r < length (slots s) \<and> live (slots s ! r))"
proof (induction n arbitrary: param body arg s r s')
  case 0
  then show ?case by simp
next
  case (Suc n)
  from Suc.prems obtain sl where sl: "expr_slot s body = Inr sl"
    by (auto split: sum.splits)
  have new: "\<not> (r < length (slots s) \<and> live (slots s ! r))"
    if k: "keeps_live s s1" and a: "new_expr nd s1 = Inr (r, s')" for s1 nd
  proof
    assume "r < length (slots s) \<and> live (slots s ! r)"
    then have "r < length (slots s1) \<and> live (slots s1 ! r)" using k
      by (auto simp: keeps_live_def)
    then show False using new_expr_Inr(5)[OF a] by simp
  qed
  show ?case
  proof (cases "kind sl")
    case (EXPR_VAR v)
    then show ?thesis using Suc.prems sl by (auto split: if_splits)
  next
    case (EXPR_MAG m)
    then show ?thesis using Suc.prems sl by auto
  next
    case (EXPR_APP l r0)
    from replace_App[OF Suc.prems sl EXPR_APP] obtain rtl s0 first' s1 second' s2 where
      0: "args_right_to_left s = (rtl, s0)" and
      1: "replace n param (if rtl then r0 else l) arg s0 = Inr (first', s1)" and
      2: "replace n param (if rtl then l else r0) arg s1 = Inr (second', s2)" and
      3: "app (if rtl then second' else first') (if rtl then first' else second') s2 = Inr (r, s')"
      by blast
    have "keeps_live s s2"
      using args_right_to_left_fields(4)[OF 0] replace_keeps_live[OF 1] replace_keeps_live[OF 2]
      by (blast intro: keeps_live_trans)
    from new[OF this 3[unfolded app_def]] show ?thesis by simp
  next
    case (EXPR_FUN p b)
    show ?thesis
    proof (cases "p = param")
      case True
      then show ?thesis using Suc.prems sl EXPR_FUN by auto
    next
      case False
      from Suc.prems sl EXPR_FUN False obtain fr where fr: "is_var_free_there n p arg s = Inr fr"
        by (auto split: sum.splits)
      show ?thesis
      proof (cases fr)
        case nf: False
        from Suc.prems sl EXPR_FUN False fr nf obtain b' s1 where
          1: "replace n param b arg s = Inr (b', s1)" and 2: "fun_expr p b' s1 = Inr (r, s')"
          by (auto split: sum.splits)
        from new[OF replace_keeps_live[OF 1] 2[unfolded fun_expr_def]] show ?thesis by simp
      next
        case True
        obtain p' s1 where f: "symbol_fresh p s = (p', s1)" by (cases "symbol_fresh p s")
        from Suc.prems sl EXPR_FUN False fr True f obtain fp s2 b1 s3 b2 s4 where
          1: "var p' s1 = Inr (fp, s2)" and 2: "replace n p b fp s2 = Inr (b1, s3)"
          and 3: "replace n param b1 arg s3 = Inr (b2, s4)" and 4: "fun_expr p' b2 s4 = Inr (r, s')"
          by (auto split: sum.splits)
        have "keeps_live s s4"
          using symbol_fresh_keeps[OF f] new_expr_Inr(1)[OF 1[unfolded var_def]]
            replace_keeps_live[OF 2] replace_keeps_live[OF 3]
          by (blast intro: keeps_live_trans)
        from new[OF this 4[unfolded fun_expr_def]] show ?thesis by simp
      qed
    qed
  qed
qed

lemma display_params_total:
  "denotes s e t \<Longrightarrow> size t < n \<Longrightarrow>
   \<exists>str e' t'. display_params n e s = Inr (str, e') \<and> denotes s e' t' \<and>
      size t' \<le> size t \<and> ((\<exists>p b. t = Fun p b) \<longrightarrow> size t' < size t)"
proof (induction n arbitrary: e t)
  case 0
  then show ?case by simp
next
  case (Suc n)
  show ?case
  proof (cases t)
    case (Fun p tb)
    with Suc.prems obtain sl b where sl: "expr_slot s e = Inr sl" "kind sl = EXPR_FUN p b"
      and d: "denotes s b tb" by (auto simp: denotes_Fun)
    from Suc.IH[OF d] Suc.prems(2) Fun obtain str e' t' where
      "display_params n b s = Inr (str, e')" "denotes s e' t'" "size t' \<le> size tb" by auto
    then show ?thesis using sl Fun by auto
  next
    case (Var v)
    then have "display_params (Suc n) e s = Inr ([], e)"
      using Suc.prems by (auto simp: denotes_Var)
    then show ?thesis using Suc.prems(1) Var by blast
  next
    case (Magic m)
    then have "display_params (Suc n) e s = Inr ([], e)"
      using Suc.prems by (auto simp: denotes_Magic)
    then show ?thesis using Suc.prems(1) Magic by blast
  next
    case (App t1 t2)
    then have "display_params (Suc n) e s = Inr ([], e)"
      using Suc.prems by (auto simp: denotes_App)
    then show ?thesis using Suc.prems(1) App by blast
  qed
qed

lemma expr_display_total:
  "denotes s e t \<Longrightarrow> size t + 1 < n \<Longrightarrow> \<exists>str. expr_display n e s = Inr str"
proof (induction n arbitrary: e t)
  case 0
  then show ?case by simp
next
  case (Suc n)
  show ?case
  proof (cases t)
    case (Fun p tb)
    with Suc.prems obtain sl b where sl: "expr_slot s e = Inr sl" "kind sl = EXPR_FUN p b"
      by (auto simp: denotes_Fun)
    from display_params_total[OF Suc.prems(1), of n] Suc.prems(2) Fun obtain str e' t' where
      1: "display_params n e s = Inr (str, e')" "denotes s e' t'" "size t' < size t" by auto
    from Suc.IH[OF 1(2)] 1(3) Suc.prems(2) obtain str' where "expr_display n e' s = Inr str'"
      by auto
    then show ?thesis using sl 1 by auto
  next
    case (App t1 t2)
    with Suc.prems obtain sl l r where sl: "expr_slot s e = Inr sl" "kind sl = EXPR_APP l r"
      and d: "denotes s l t1" "denotes s r t2" by (auto simp: denotes_App)
    from denotes_live[OF d(1)] denotes_live[OF d(2)]
    obtain lsl rsl where ls: "expr_slot s l = Inr lsl" "expr_slot s r = Inr rsl"
      by (auto simp: expr_slot_Inr)
    from Suc.IH[OF d(1)] Suc.IH[OF d(2)] Suc.prems(2) App obtain s1 s2 where
      "expr_display n l s = Inr s1" "expr_display n r s = Inr s2" by auto
    then show ?thesis using sl ls by auto
  qed (use Suc.prems in \<open>auto simp: denotes_Var denotes_Magic\<close>)
qed

lemma new_expr_fresh_neq: "new_expr k s = Inr (i, s') \<Longrightarrow> denotes s e t \<Longrightarrow> i \<noteq> e"
  using new_expr_Inr(5) denotes_live by blast

lemma dead_ok_print [simp]: "dead_ok (print str s) = dead_ok s"
  by (simp add: dead_ok_def print_def)

lemma global_counter_print [simp]: "global_counter (print str s) = global_counter s"
  by (simp add: print_def)

lemma tags_print [simp]: "tags (print str s) = tags s" "order_seq (print str s) = order_seq s"
  by (simp_all add: print_def tags_def)

lemma denotes_child_neq:
  "denotes s e t \<Longrightarrow> denotes s e' t' \<Longrightarrow> size t' < size t \<Longrightarrow> e' \<noteq> e"
  using denotes_unique by blast

lemma eval1_refines:
  "dead_ok s \<Longrightarrow> denotes s expr t \<Longrightarrow> size t + 1 < n \<Longrightarrow>
   \<exists>ro s'. eval1 n expr s = Inr (ro, s') \<and> dead_ok s' \<and> order_seq s' = order_seq s \<and>
     (case eval1_spec (order_seq s) t (tags s) of
        None \<Rightarrow> ro = None
      | Some (t', changed, c') \<Rightarrow>
          \<exists>e'. ro = Some e' \<and> denotes s' e' t' \<and> (changed \<longleftrightarrow> e' \<noteq> expr) \<and>
               tags s' = c')"
proof (induction n arbitrary: expr s t)
  case 0
  then show ?case by simp
next
  case (Suc n)
  note ok = Suc.prems(1) and dt = Suc.prems(2)
  define c where "c = tags s"
  define ord where "ord = order_seq s"
  \<comment> \<open>an application whose head is neither a function nor a magic\<close>
  have default: ?case
    if t: "t = App t1 t2" and sl: "expr_slot s expr = Inr sl" "kind sl = EXPR_APP lhs rhs"
      and d: "denotes s lhs t1" "denotes s rhs t2"
      and lsl: "expr_slot s lhs = Inr lsl"
      and code: "(\<exists>v. kind lsl = EXPR_VAR v) \<or> (\<exists>l r. kind lsl = EXPR_APP l r)"
      and tree: "(\<exists>v. t1 = Var v) \<or> (\<exists>a b. t1 = App a b)"
    for t1 t2 sl lhs rhs lsl
  proof -
    have sz: "size t1 + 1 < n" "size t2 + 1 < n" using Suc.prems(3) t by simp_all
    have spec: "eval1_spec ord (App t1 t2) c =
         (case eval1_spec ord t1 c of
            None \<Rightarrow> None
          | Some (l', changed, c') \<Rightarrow>
              if changed then Some (App l' t2, True, c')
              else
                (case eval1_spec ord t2 c' of
                   None \<Rightarrow> None
                 | Some (r', changed', c'') \<Rightarrow>
                     if changed' then Some (App t1 r', True, c'') else Some (App t1 t2, False, c'')))"
      using tree by auto
    from Suc.IH[OF ok d(1) sz(1)] obtain ro1 s1 where
      1: "eval1 n lhs s = Inr (ro1, s1)" and ok1: "dead_ok s1" and os1 [simp]: "order_seq s1 = ord" and
      r1: "case eval1_spec ord t1 c of None \<Rightarrow> ro1 = None
           | Some (t', changed, c') \<Rightarrow> \<exists>e'. ro1 = Some e' \<and> denotes s1 e' t' \<and>
                 (changed \<longleftrightarrow> e' \<noteq> lhs) \<and> tags s1 = c'"
      unfolding c_def ord_def by blast
    note k1 = eval1_keeps[OF 1 keeps_live_refl]
    have ev: "eval1 (Suc n) expr s =
        (case eval1 n lhs s of
           Inl e \<Rightarrow> Inl e
         | Inr (None, s1) \<Rightarrow> Inr (None, s1)
         | Inr (Some new_lhs, s1) \<Rightarrow>
             if lhs \<noteq> new_lhs then ret (app new_lhs rhs s1)
             else
               (case eval1 n rhs s1 of
                  Inl e \<Rightarrow> Inl e
                | Inr (None, s2) \<Rightarrow> Inr (None, s2)
                | Inr (Some new_rhs, s2) \<Rightarrow>
                    if rhs \<noteq> new_rhs then ret (app lhs new_rhs s2)
                    else Inr (Some expr, s2)))"
      using sl lsl code by auto
    show ?thesis
    proof (cases "eval1_spec ord t1 c")
      case None
      then show ?thesis using r1 1 ok1 ev spec t by (simp add: c_def ord_def)
    next
      case (Some x)
      then obtain t1' ch1 c1 where x: "eval1_spec ord t1 c = Some (t1', ch1, c1)" by (cases x) auto
      from r1 x obtain e1 where e1: "ro1 = Some e1" "denotes s1 e1 t1'" "ch1 \<longleftrightarrow> e1 \<noteq> lhs"
        "tags s1 = c1" by auto
      show ?thesis
      proof (cases ch1)
        case True
        from new_expr_total[OF ok1] obtain i s' where
          a: "new_expr (EXPR_APP e1 rhs) s1 = Inr (i, s')" and ok': "dead_ok s'" by blast
        have "denotes s' i (App t1' t2)"
          using new_expr_denotes_App[OF a e1(2) denotes_keeps_live[OF k1 d(2)]] .
        moreover have "i \<noteq> expr" using new_expr_fresh_neq[OF a denotes_keeps_live[OF k1 dt]] .
        moreover have "tags s' = c1" "order_seq s' = ord" using new_expr_tags[OF a] e1(4) by simp_all
        ultimately show ?thesis using ev 1 e1 True a ok' spec x t
          by (auto simp: app_def ret_def c_def ord_def)
      next
        case False
        then have el: "e1 = lhs" using e1(3) by simp
        from Suc.IH[OF ok1 denotes_keeps_live[OF k1 d(2)] sz(2)] e1(4) os1 obtain ro2 s2 where
          2: "eval1 n rhs s1 = Inr (ro2, s2)" and ok2: "dead_ok s2" and os2 [simp]: "order_seq s2 = ord" and
          r2: "case eval1_spec ord t2 c1 of None \<Rightarrow> ro2 = None
           | Some (t', changed, c') \<Rightarrow> \<exists>e'. ro2 = Some e' \<and> denotes s2 e' t' \<and>
                 (changed \<longleftrightarrow> e' \<noteq> rhs) \<and> tags s2 = c'"
          by auto
        note k2 = eval1_keeps[OF 2 k1]
        show ?thesis
        proof (cases "eval1_spec ord t2 c1")
          case None
          then show ?thesis using r2 2 ok2 ev 1 e1 el False spec x t by (simp add: c_def ord_def)
        next
          case (Some y)
          then obtain t2' ch2 c2 where y: "eval1_spec ord t2 c1 = Some (t2', ch2, c2)"
            by (cases y) auto
          from r2 y obtain e2 where e2: "ro2 = Some e2" "denotes s2 e2 t2'" "ch2 \<longleftrightarrow> e2 \<noteq> rhs"
            "tags s2 = c2" by auto
          show ?thesis
          proof (cases ch2)
            case True
            from new_expr_total[OF ok2] obtain i s' where
              a: "new_expr (EXPR_APP lhs e2) s2 = Inr (i, s')" and ok': "dead_ok s'" by blast
            have "denotes s' i (App t1 t2')"
              using new_expr_denotes_App[OF a denotes_keeps_live[OF k2 d(1)] e2(2)] .
            moreover have "i \<noteq> expr" using new_expr_fresh_neq[OF a denotes_keeps_live[OF k2 dt]] .
            moreover have "tags s' = c2" "order_seq s' = ord" using new_expr_tags[OF a] e2(4) by simp_all
            ultimately show ?thesis using ev 1 2 e1 el e2 True False a ok' spec x y t
              by (auto simp: app_def ret_def c_def ord_def)
          next
            case ch2f: False
            then have "e2 = rhs" using e2(3) by simp
            then show ?thesis
              using ev 1 2 e1 el e2 ch2f False ok2 spec x y t denotes_keeps_live[OF k2 dt]
              by (auto simp: c_def ord_def)
          qed
        qed
      qed
    qed
  qed
  show ?case
  proof (cases t)
    case (Var v)
    then show ?thesis using Suc.prems by (auto simp: denotes_Var)
  next
    case (Magic m)
    then show ?thesis using Suc.prems by (auto simp: denotes_Magic)
  next
    case (Fun p tb)
    with dt obtain sl b where sl: "expr_slot s expr = Inr sl" "kind sl = EXPR_FUN p b"
      and d: "denotes s b tb" by (auto simp: denotes_Fun)
    have sz: "size tb + 1 < n" using Suc.prems(3) Fun by simp
    from Suc.IH[OF ok d sz] obtain ro1 s1 where
      1: "eval1 n b s = Inr (ro1, s1)" and ok1: "dead_ok s1" and os1 [simp]: "order_seq s1 = ord" and
      r1: "case eval1_spec ord tb c of None \<Rightarrow> ro1 = None
           | Some (t', changed, c') \<Rightarrow> \<exists>e'. ro1 = Some e' \<and> denotes s1 e' t' \<and>
                 (changed \<longleftrightarrow> e' \<noteq> b) \<and> tags s1 = c'"
      unfolding c_def ord_def by blast
    note k1 = eval1_keeps[OF 1 keeps_live_refl]
    show ?thesis
    proof (cases "eval1_spec ord tb c")
      case None
      then show ?thesis using r1 1 ok1 sl Fun by (simp add: c_def ord_def)
    next
      case (Some x)
      then obtain tb' ch1 c1 where x: "eval1_spec ord tb c = Some (tb', ch1, c1)" by (cases x) auto
      from r1 x obtain e1 where e1: "ro1 = Some e1" "denotes s1 e1 tb'" "ch1 \<longleftrightarrow> e1 \<noteq> b"
        "tags s1 = c1" by auto
      show ?thesis
      proof (cases ch1)
        case True
        from new_expr_total[OF ok1] obtain i s' where
          a: "new_expr (EXPR_FUN p e1) s1 = Inr (i, s')" and ok': "dead_ok s'" by blast
        have "denotes s' i (Fun p tb')" using new_expr_denotes_Fun[OF a e1(2)] .
        moreover have "i \<noteq> expr" using new_expr_fresh_neq[OF a denotes_keeps_live[OF k1 dt]] .
        moreover have "tags s' = c1" "order_seq s' = ord" using new_expr_tags[OF a] e1(4) by simp_all
        ultimately show ?thesis using sl 1 e1 True a ok' x Fun
          by (auto simp: fun_expr_def ret_def c_def ord_def)
      next
        case False
        then have "e1 = b" using e1(3) by simp
        then show ?thesis using sl 1 e1 False ok1 x Fun denotes_keeps_live[OF k1 dt]
          by (auto simp: c_def ord_def)
      qed
    qed
  next
    case (App t1 t2)
    with dt obtain sl lhs rhs where sl: "expr_slot s expr = Inr sl" "kind sl = EXPR_APP lhs rhs"
      and d: "denotes s lhs t1" "denotes s rhs t2" by (auto simp: denotes_App)
    from denotes_live[OF d(1)] obtain lsl where lsl: "expr_slot s lhs = Inr lsl"
      by (auto simp: expr_slot_Inr)
    have sz: "size t1 + 1 < n" "size t2 + 1 < n" using Suc.prems(3) App by simp_all
    have ne: "lhs \<noteq> expr" "rhs \<noteq> expr"
      using denotes_child_neq[OF dt d(1)] denotes_child_neq[OF dt d(2)] App by simp_all
    show ?thesis
    proof (cases t1)
      case (Var v)
      then have "kind lsl = EXPR_VAR v" using d(1) lsl by (auto simp: denotes_Var)
      then show ?thesis using default[OF App sl d lsl] Var by blast
    next
      case t1: (App t11 t12)
      then obtain l1 r1 where "kind lsl = EXPR_APP l1 r1" using d(1) lsl
        by (auto simp: denotes_App)
      then show ?thesis using default[OF App sl d lsl] t1 by blast
    next
      case (Fun p tb)
      then obtain b where kl: "kind lsl = EXPR_FUN p b" and db: "denotes s b tb"
        using d(1) lsl by (auto simp: denotes_Fun)
      have "size tb + size t2 < n" using Suc.prems(3) App Fun by simp
      from replace_total[OF ok db d(2) this, of p] obtain r s' where
        r: "replace n p b rhs s = Inr (r, s')" and ok': "dead_ok s'" by blast
      note rd = replace_denotes[OF r db d(2)]
      have "b \<noteq> expr" using denotes_child_neq[OF dt db] App Fun by simp
      moreover have "r = b \<or> r = rhs \<or> \<not> (r < length (slots s) \<and> live (slots s ! r))"
        using replace_result[OF r] .
      ultimately have "r \<noteq> expr" using ne denotes_live[OF dt] by blast
      then show ?thesis using sl lsl kl r ok' rd App Fun
        by (auto simp: ret_def case_prod_beta c_def ord_def)
    next
      case (Magic m)
      then have kl: "kind lsl = EXPR_MAG m" using d(1) lsl by (auto simp: denotes_Magic)
      from Suc.IH[OF ok d(2) sz(2)] obtain ro1 s1 where
        1: "eval1 n rhs s = Inr (ro1, s1)" and ok1: "dead_ok s1" and os1 [simp]: "order_seq s1 = ord" and
        r1: "case eval1_spec ord t2 c of None \<Rightarrow> ro1 = None
           | Some (t', changed, c') \<Rightarrow> \<exists>e'. ro1 = Some e' \<and> denotes s1 e' t' \<and>
                 (changed \<longleftrightarrow> e' \<noteq> rhs) \<and> tags s1 = c'"
        unfolding c_def ord_def by blast
      note k1 = eval1_keeps[OF 1 keeps_live_refl]
      have dm: "denotes s1 lhs (Magic m)" using denotes_keeps_live[OF k1 d(1)] Magic by simp
      consider (other) "m \<noteq> ''trace''" "m \<noteq> ''void''" | (known) "m = ''trace'' \<or> m = ''void''"
        by blast
      then show ?thesis
      proof cases
        case other
        then show ?thesis using sl lsl kl ok App Magic by (auto simp: c_def ord_def)
      next
        case known
        show ?thesis
        proof (cases "eval1_spec ord t2 c")
          case None
          then show ?thesis using r1 1 ok1 sl lsl kl known App Magic by (auto simp: c_def ord_def)
        next
          case (Some x)
          then obtain t2' ch1 c1 where x: "eval1_spec ord t2 c = Some (t2', ch1, c1)"
            by (cases x) auto
          from r1 x obtain e1 where e1: "ro1 = Some e1" "denotes s1 e1 t2'" "ch1 \<longleftrightarrow> e1 \<noteq> rhs"
            "tags s1 = c1" by auto
          show ?thesis
          proof (cases ch1)
            case True
            from new_expr_total[OF ok1] obtain i s' where
              a: "new_expr (EXPR_APP lhs e1) s1 = Inr (i, s')" and ok': "dead_ok s'" by blast
            have "denotes s' i (App (Magic m) t2')" using new_expr_denotes_App[OF a dm e1(2)] .
            moreover have "i \<noteq> expr"
              using new_expr_fresh_neq[OF a denotes_keeps_live[OF k1 dt]] .
            moreover have "tags s' = c1" "order_seq s' = ord" using new_expr_tags[OF a] e1(4) by simp_all
            ultimately show ?thesis using sl lsl kl 1 e1 True a ok' x known App Magic
              by (auto simp: app_def ret_def c_def ord_def)
          next
            case False
            then have er: "e1 = rhs" using e1(3) by simp
            have t2': "t2' = t2"
              using denotes_unique[OF e1(2)[unfolded er] denotes_keeps_live[OF k1 d(2)]] .
            from expr_display_total[OF denotes_keeps_live[OF k1 d(2)] sz(2)] obtain str where
              str: "expr_display n rhs s1 = Inr str" by blast
            have dp: "denotes (print (''TRACE: '' @ str @ [CHR 0x0A]) s1) rhs t2"
              using denotes_keeps_live[OF print_keeps[OF keeps_live_refl] denotes_keeps_live[OF k1 d(2)]] .
            show ?thesis using sl lsl kl 1 e1 er False ok1 x known App Magic str dp dm ne t2'
              by (auto simp: c_def ord_def)
          qed
        qed
      qed
    qed
  qed
qed

text \<open>
  The iteration of the specification's bounded driver: where the driver stands after \<open>k\<close>
  iterations, each of which passed the mass check and ended with a changed expression.
\<close>

fun after_steps :: "nat \<Rightarrow> nat \<Rightarrow> nat \<Rightarrow> nat \<Rightarrow> state \<Rightarrow> (nat \<times> state) option" where
  "after_steps n max_mass 0 cur s = Some (cur, s)"
| "after_steps n max_mass (Suc k) cur s =
     (case over_mass n cur max_mass s of
        Inr False \<Rightarrow>
          (case eval1 n cur s of
             Inr (Some next, s1) \<Rightarrow>
               if next \<noteq> cur then after_steps n max_mass k next s1 else None
           | _ \<Rightarrow> None)
      | _ \<Rightarrow> None)"

definition goes_on :: "nat \<Rightarrow> nat \<Rightarrow> nat \<Rightarrow> state \<Rightarrow> bool" where
  "goes_on n mm cur s \<longleftrightarrow>
     over_mass n cur mm s = Inr False \<and>
     (\<exists>next s1. eval1 n cur s = Inr (Some next, s1) \<and> next \<noteq> cur)"

lemma after_steps_stop: "\<not> goes_on n mm cur s \<Longrightarrow> after_steps n mm (Suc k) cur s = None"
  by (auto simp: goes_on_def split: sum.splits bool.splits option.splits)

lemma after_steps_go:
  "over_mass n cur mm s = Inr False \<Longrightarrow> eval1 n cur s = Inr (Some next, s1) \<Longrightarrow> next \<noteq> cur \<Longrightarrow>
   after_steps n mm (Suc k) cur s = after_steps n mm k next s1"
  by simp

lemma eval_bounded_go:
  "over_mass n cur mm s = Inr False \<Longrightarrow> eval1 n cur s = Inr (Some next, s1) \<Longrightarrow> next \<noteq> cur \<Longrightarrow>
   eval_bounded n cur (Suc limit) mm s = eval_bounded n next limit mm s1"
  by simp

lemma eval_bounded_stop:
  "\<not> goes_on n mm cur s \<Longrightarrow>
   eval_bounded n cur (Suc limit) mm s =
     (case over_mass n cur mm s of
        Inl e \<Rightarrow> Inl e
      | Inr True \<Rightarrow> Inr (EVAL_LIMIT, None, s)
      | Inr False \<Rightarrow>
          (case eval1 n cur s of
             Inl e \<Rightarrow> Inl e
           | Inr (None, s1) \<Rightarrow> Inr (EVAL_ERROR, None, s1)
           | Inr (Some next, s1) \<Rightarrow> Inr (EVAL_DONE, Some cur, s1)))"
  by (auto simp: goes_on_def split: sum.splits bool.splits option.splits)

lemma eval_bounded_limit:
  "eval_bounded n cur limit mm s = Inr (EVAL_LIMIT, out, s') \<longleftrightarrow>
     out = None \<and>
     ((\<exists>k<limit. \<exists>c. after_steps n mm k cur s = Some (c, s') \<and> over_mass n c mm s' = Inr True) \<or>
      (\<exists>c. after_steps n mm limit cur s = Some (c, s')))"
proof (induction limit arbitrary: cur s)
  case 0
  then show ?case by auto
next
  case (Suc limit)
  show ?case
  proof (cases "goes_on n mm cur s")
    case True
    then obtain nxt s1 where g: "over_mass n cur mm s = Inr False"
      "eval1 n cur s = Inr (Some nxt, s1)" "nxt \<noteq> cur" by (auto simp: goes_on_def)
    show ?thesis
      unfolding eval_bounded_go[OF g] Suc.IH Ex_less_Suc2 after_steps_go[OF g]
      using g(1) by auto
  next
    case False
    show ?thesis
      unfolding eval_bounded_stop[OF False] Ex_less_Suc2 after_steps_stop[OF False]
      using False
      by (auto simp: goes_on_def split: sum.splits bool.splits option.splits)
  qed
qed

lemma eval_bounded_error:
  "eval_bounded n cur limit mm s = Inr (EVAL_ERROR, out, s') \<longleftrightarrow>
     out = None \<and>
     (\<exists>k<limit. \<exists>c sk. after_steps n mm k cur s = Some (c, sk) \<and>
        over_mass n c mm sk = Inr False \<and> eval1 n c sk = Inr (None, s'))"
proof (induction limit arbitrary: cur s)
  case 0
  then show ?case by auto
next
  case (Suc limit)
  show ?case
  proof (cases "goes_on n mm cur s")
    case True
    then obtain nxt s1 where g: "over_mass n cur mm s = Inr False"
      "eval1 n cur s = Inr (Some nxt, s1)" "nxt \<noteq> cur" by (auto simp: goes_on_def)
    show ?thesis
      unfolding eval_bounded_go[OF g] Suc.IH Ex_less_Suc2 after_steps_go[OF g]
      using g by auto
  next
    case False
    show ?thesis
      unfolding eval_bounded_stop[OF False] Ex_less_Suc2 after_steps_stop[OF False]
      using False
      by (auto simp: goes_on_def split: sum.splits bool.splits option.splits)
  qed
qed

lemma eval_bounded_done:
  "eval_bounded n cur limit mm s = Inr (EVAL_DONE, out, s') \<longleftrightarrow>
     (\<exists>k<limit. \<exists>c sk. after_steps n mm k cur s = Some (c, sk) \<and>
        over_mass n c mm sk = Inr False \<and> eval1 n c sk = Inr (Some c, s') \<and> out = Some c)"
proof (induction limit arbitrary: cur s)
  case 0
  then show ?case by auto
next
  case (Suc limit)
  show ?case
  proof (cases "goes_on n mm cur s")
    case True
    then obtain nxt s1 where g: "over_mass n cur mm s = Inr False"
      "eval1 n cur s = Inr (Some nxt, s1)" "nxt \<noteq> cur" by (auto simp: goes_on_def)
    show ?thesis
      unfolding eval_bounded_go[OF g] Suc.IH Ex_less_Suc2 after_steps_go[OF g]
      using g by auto
  next
    case False
    show ?thesis
      unfolding eval_bounded_stop[OF False] Ex_less_Suc2 after_steps_stop[OF False]
      using False
      by (auto simp: goes_on_def split: sum.splits bool.splits option.splits)
  qed
qed

lemmas fuel_numeral =
  is_var_free_there.simps(2)[of "pred_numeral k", folded numeral_eq_Suc]
  replace.simps(2)[of "pred_numeral k", folded numeral_eq_Suc]
  display_params.simps(2)[of "pred_numeral k", folded numeral_eq_Suc]
  expr_display.simps(2)[of "pred_numeral k", folded numeral_eq_Suc]
  expr_mass.simps(2)[of "pred_numeral k", folded numeral_eq_Suc]
  eval1.simps(2)[of "pred_numeral k", folded numeral_eq_Suc]
  eval_bounded.simps(2)[of _ _ "pred_numeral k", folded numeral_eq_Suc]
  after_steps.simps(2)[of _ _ "pred_numeral k", folded numeral_eq_Suc]
  for k

lemma list_update_numeral [simp]:
  "(x # xs)[numeral k := y] = x # xs[pred_numeral k := y]"
  by (simp add: numeral_eq_Suc)

lemmas arena_run =
  expr_slot_def new_expr_def alloc_expr_def set_kind_def var_def fun_expr_def
  app_def magic_def symbol_fresh_def gens_cur_update_def symbol_def ret_def print_def
  Let_def zero_expr_def fuel_numeral over_mass_def show_symbol_def paren_def

text \<open>
  An arena with the magic applications \<^verbatim>\<open>#void x\<close> (index 2), \<^verbatim>\<open>#trace x\<close> (4),
  \<^verbatim>\<open>#foo x\<close> (6) and \<^verbatim>\<open>#void ((\x.x) x)\<close> (9).
\<close>

definition magic_arena :: state where
  "magic_arena =
     \<lparr>slots =
        [\<lparr>kind = EXPR_MAG ''void'', visited = False, live = True\<rparr>,
         \<lparr>kind = EXPR_VAR (Symbol ''x'' 0), visited = False, live = True\<rparr>,
         \<lparr>kind = EXPR_APP 0 1, visited = False, live = True\<rparr>,
         \<lparr>kind = EXPR_MAG ''trace'', visited = False, live = True\<rparr>,
         \<lparr>kind = EXPR_APP 3 1, visited = False, live = True\<rparr>,
         \<lparr>kind = EXPR_MAG ''foo'', visited = False, live = True\<rparr>,
         \<lparr>kind = EXPR_APP 5 1, visited = False, live = True\<rparr>,
         \<lparr>kind = EXPR_FUN (Symbol ''x'' 0) 1, visited = False, live = True\<rparr>,
         \<lparr>kind = EXPR_APP 7 1, visited = False, live = True\<rparr>,
         \<lparr>kind = EXPR_APP 0 8, visited = False, live = True\<rparr>],
      dead = [], gens0 = [0, 1, 2, 3, 4, 5, 6, 7, 8, 9], gens1 = [], gen_cur = 0,
      global_counter = 0, stdout = [], rand_seq = (\<lambda>i. 0), rand_pos = 0,
      order_seq = (\<lambda>i. True), order_pos = 0\<rparr>"

text \<open>
  The case analysis of eval1 as claim C4 words it, on trees: no case for an application
  whose head is a magic.
\<close>

fun eval1_claimed :: "(nat \<Rightarrow> bool) \<Rightarrow> tree \<Rightarrow> nat \<times> nat \<Rightarrow> tree \<times> bool \<times> nat \<times> nat" where
  "eval1_claimed ord (Var v) c = (Var v, False, c)"
| "eval1_claimed ord (Magic m) c = (Magic m, False, c)"
| "eval1_claimed ord (Fun p b) c =
     (case eval1_claimed ord b c of
        (b', changed, c') \<Rightarrow> if changed then (Fun p b', True, c') else (Fun p b, False, c'))"
| "eval1_claimed ord (App (Fun p b) r) c = (case subst ord p b r c of (t, c') \<Rightarrow> (t, True, c'))"
| "eval1_claimed ord (App l r) c =
     (case eval1_claimed ord l c of
        (l', changed, c') \<Rightarrow>
          if changed then (App l' r, True, c')
          else
            (case eval1_claimed ord r c' of
               (r', changed', c'') \<Rightarrow>
                 if changed' then (App l r', True, c'') else (App l r, False, c'')))"

text \<open>
  C4, as stated, fails on \<^verbatim>\<open>#void x\<close>: neither child changes under \<open>eval1\<close>, so the case
  analysis of the claim reports the application unchanged, while \<open>eval1\<close> returns the index
  of the \<open>#void\<close> node, which is not the index it was given.
\<close>

theorem eval1_magic_head_counterexample:
  "denotes magic_arena 2 (App (Magic ''void'') (Var (Symbol ''x'' 0))) \<and>
   eval1_claimed (order_seq magic_arena) (App (Magic ''void'') (Var (Symbol ''x'' 0)))
       (tags magic_arena) =
     (App (Magic ''void'') (Var (Symbol ''x'' 0)), False, tags magic_arena) \<and>
   eval1 3 2 magic_arena = Inr (Some 0, magic_arena) \<and>
   denotes magic_arena 0 (Magic ''void'') \<and> (0::nat) \<noteq> 2"
  by (simp add: denotes.simps arena_run magic_arena_def)

text \<open>
  C4, amended. \<open>eval1\<close> is the normal-order step of the specification, with an application
  whose head is a magic dispatched on the label: on an arena with a sound free list, where
  \<open>expr\<close> stands for the tree \<open>t\<close>, it returns (given fuel beyond the size of \<open>t\<close>); it fails
  exactly when \<open>eval1_spec\<close> does; otherwise the index it returns stands for the reduct of
  \<open>eval1_spec\<close>, and that index differs from \<open>expr\<close> exactly when \<open>eval1_spec\<close> reports a
  change. The fresh tags of the reduct are those of \<open>subst\<close>, for every order in which the
  two arguments of \<^verbatim>\<open>app\<close> are evaluated in \<open>replace\<close>.
\<close>

theorem eval1_normal_order:
  assumes "dead_ok s" and "denotes s expr t" and "size t + 1 < n"
  shows "\<exists>ro s'. eval1 n expr s = Inr (ro, s') \<and>
     (case eval1_spec (order_seq s) t (tags s) of
        None \<Rightarrow> ro = None
      | Some (t', changed, c') \<Rightarrow>
          \<exists>e'. ro = Some e' \<and> denotes s' e' t' \<and> (changed \<longleftrightarrow> e' \<noteq> expr) \<and> tags s' = c')"
  using eval1_refines[OF assms] by blast

text \<open>
  One step of \<^verbatim>\<open>(\x.\y.x) y\<close> gives \<^verbatim>\<open>\y:1.y\<close> at a new index. One step of
  \<^verbatim>\<open>(\x.(\y.x) (\y.x)) y\<close> gives \<^verbatim>\<open>(\y:2.y) (\y:1.y)\<close> when arguments are evaluated from
  right to left.
\<close>

theorem eval1_normal_order_witness:
  "dead_ok example_arena \<and>
   denotes example_arena 4
     (App (Fun (Symbol ''x'' 0) (Fun (Symbol ''y'' 0) (Var (Symbol ''x'' 0))))
          (Var (Symbol ''y'' 0))) \<and>
   (\<exists>e' s'. eval1 5 4 example_arena = Inr (Some e', s') \<and>
      denotes s' e' (Fun (Symbol ''y'' 1) (Var (Symbol ''y'' 0))) \<and> e' \<noteq> 4 \<and>
      tags s' = (1, 0)) \<and>
   dead_ok pair_arena \<and>
   denotes pair_arena 5
     (App (Fun (Symbol ''x'' 0)
             (App (Fun (Symbol ''y'' 0) (Var (Symbol ''x'' 0)))
                  (Fun (Symbol ''y'' 0) (Var (Symbol ''x'' 0)))))
          (Var (Symbol ''y'' 0))) \<and>
   (\<exists>e' s'. eval1 7 5 pair_arena = Inr (Some e', s') \<and>
      denotes s' e'
        (App (Fun (Symbol ''y'' 2) (Var (Symbol ''y'' 0)))
             (Fun (Symbol ''y'' 1) (Var (Symbol ''y'' 0)))) \<and>
      e' \<noteq> 5 \<and> tags s' = (2, 1))"
proof -
  have h1: "dead_ok example_arena" by (simp add: dead_ok_def example_arena_def)
  have h2: "denotes example_arena 4
     (App (Fun (Symbol ''x'' 0) (Fun (Symbol ''y'' 0) (Var (Symbol ''x'' 0))))
          (Var (Symbol ''y'' 0)))"
    by (simp add: denotes.simps arena_run example_arena_def)
  have c: "tags example_arena = (0, 0)" by (simp add: example_arena_def tags_def)
  have 1: "\<exists>e' s'. eval1 5 4 example_arena = Inr (Some e', s') \<and>
      denotes s' e' (Fun (Symbol ''y'' 1) (Var (Symbol ''y'' 0))) \<and> e' \<noteq> 4 \<and>
      tags s' = (1, 0)"
    using eval1_normal_order[OF h1 h2, of 5] by (auto simp: c)
  have g1: "dead_ok pair_arena" by (simp add: dead_ok_def pair_arena_def)
  have g2: "denotes pair_arena 5
     (App (Fun (Symbol ''x'' 0)
             (App (Fun (Symbol ''y'' 0) (Var (Symbol ''x'' 0)))
                  (Fun (Symbol ''y'' 0) (Var (Symbol ''x'' 0)))))
          (Var (Symbol ''y'' 0)))"
    by (simp add: denotes.simps expr_slot_def pair_arena_def)
  have d: "tags pair_arena = (0, 0)" "order_seq pair_arena = (\<lambda>i. True)"
    by (simp_all add: pair_arena_def tags_def)
  have 2: "\<exists>e' s'. eval1 7 5 pair_arena = Inr (Some e', s') \<and>
      denotes s' e'
        (App (Fun (Symbol ''y'' 2) (Var (Symbol ''y'' 0)))
             (Fun (Symbol ''y'' 1) (Var (Symbol ''y'' 0)))) \<and>
      e' \<noteq> 5 \<and> tags s' = (2, 1)"
    using eval1_normal_order[OF g1 g2, of 7] by (auto simp: d numeral_2_eq_2)
  show ?thesis using h1 h2 1 g1 g2 2 by blast
qed

lemma eval_bounded_reports_error:
  "eval1 k cur s0 = Inr (None, s1) \<Longrightarrow> over_mass k cur mm s0 = Inr False \<Longrightarrow>
   eval_bounded k cur (Suc limit) mm s0 = Inr (EVAL_ERROR, None, s1)"
  by simp

text \<open>
  C5. An application whose head is a magic node. For \<open>#void\<close> and \<open>#trace\<close>, when the step of
  the argument returns another index \<open>e'\<close> the result is a new node \<open>App(lhs, e')\<close>, and when
  it fails so does the application. When the argument is returned unchanged, \<open>#void\<close> returns
  the index of the magic node itself and \<open>#trace\<close> returns the argument after printing the
  trace line. Any other label makes \<open>eval1\<close> fail, and \<open>eval_bounded\<close> then returns
  \<open>EVAL_ERROR\<close> (unless its mass check stops it first).
\<close>

theorem eval1_magic_dispatch:
  assumes "expr_slot s expr = Inr sl" and "kind sl = EXPR_APP lhs rhs"
    and "expr_slot s lhs = Inr lsl" and "kind lsl = EXPR_MAG m"
  shows
    "(m = ''void'' \<or> m = ''trace'' \<longrightarrow>
        (\<forall>e' s1. eval1 n rhs s = Inr (Some e', s1) \<and> e' \<noteq> rhs \<and> dead_ok s1 \<longrightarrow>
           (\<exists>i s' sl'. eval1 (Suc n) expr s = Inr (Some i, s') \<and>
              expr_slot s' i = Inr sl' \<and> kind sl' = EXPR_APP lhs e' \<and> i \<noteq> expr)) \<and>
        (\<forall>s1. eval1 n rhs s = Inr (None, s1) \<longrightarrow> eval1 (Suc n) expr s = Inr (None, s1))) \<and>
     (m = ''void'' \<longrightarrow>
        (\<forall>s1. eval1 n rhs s = Inr (Some rhs, s1) \<longrightarrow>
           eval1 (Suc n) expr s = Inr (Some lhs, s1))) \<and>
     (m = ''trace'' \<longrightarrow>
        (\<forall>s1 str. eval1 n rhs s = Inr (Some rhs, s1) \<and> expr_display n rhs s1 = Inr str \<longrightarrow>
           eval1 (Suc n) expr s =
             Inr (Some rhs, print (''TRACE: '' @ str @ [CHR 0x0A]) s1))) \<and>
     (m \<noteq> ''void'' \<and> m \<noteq> ''trace'' \<longrightarrow>
        eval1 (Suc n) expr s =
          Inr (None, print (''ERROR: unknown magic #'' @ m @ [CHR 0x0A]) s) \<and>
        (\<forall>limit max_mass. over_mass (Suc n) expr max_mass s = Inr False \<longrightarrow>
           eval_bounded (Suc n) expr (Suc limit) max_mass s =
             Inr (EVAL_ERROR, None, print (''ERROR: unknown magic #'' @ m @ [CHR 0x0A]) s)))"
proof -
  have changed: "\<exists>i s' sl'. eval1 (Suc n) expr s = Inr (Some i, s') \<and>
              expr_slot s' i = Inr sl' \<and> kind sl' = EXPR_APP lhs e' \<and> i \<noteq> expr"
    if m: "m = ''void'' \<or> m = ''trace''" and e: "eval1 n rhs s = Inr (Some e', s1)"
      and ne: "e' \<noteq> rhs" and ok: "dead_ok s1" for e' s1
  proof -
    from new_expr_total[OF ok] obtain i s' where
      a: "new_expr (EXPR_APP lhs e') s1 = Inr (i, s')" by blast
    have ev: "eval1 (Suc n) expr s = Inr (Some i, s')"
      using assms m e ne a by (auto simp: ret_def app_def)
    have "expr_slot s1 expr = Inr sl"
      using keeps_live_slot[OF eval1_keeps[OF e keeps_live_refl] assms(1)] .
    then have "i \<noteq> expr" using new_expr_Inr(5)[OF a] by (auto simp: expr_slot_Inr)
    then show ?thesis using ev new_expr_slot[OF a] by blast
  qed
  have err: "eval1 (Suc n) expr s =
          Inr (None, print (''ERROR: unknown magic #'' @ m @ [CHR 0x0A]) s)"
    if "m \<noteq> ''void'' \<and> m \<noteq> ''trace''"
    using assms that by simp
  show ?thesis
    using changed err eval_bounded_reports_error[OF err] assms by auto
qed

text \<open>
  The four cases on \<open>magic_arena\<close>: \<^verbatim>\<open>#void x\<close>, \<^verbatim>\<open>#trace x\<close>, \<^verbatim>\<open>#foo x\<close> and
  \<^verbatim>\<open>#void ((\x.x) x)\<close>, whose argument steps to \<open>x\<close>.
\<close>

theorem eval1_magic_dispatch_witness:
  "eval1 3 2 magic_arena = Inr (Some 0, magic_arena) \<and>
   eval1 3 4 magic_arena = Inr (Some 1, print (''TRACE: x'' @ [CHR 0x0A]) magic_arena) \<and>
   eval1 3 6 magic_arena =
     Inr (None, print (''ERROR: unknown magic #foo'' @ [CHR 0x0A]) magic_arena) \<and>
   eval_bounded 3 6 10 100 magic_arena =
     Inr (EVAL_ERROR, None, print (''ERROR: unknown magic #foo'' @ [CHR 0x0A]) magic_arena) \<and>
   (\<exists>i s'. eval1 5 9 magic_arena = Inr (Some i, s') \<and> kind (slots s' ! i) = EXPR_APP 0 1)"
proof -
  note ev = denotes.simps arena_run magic_arena_def dead_ok_def
  have x: "eval1 2 1 magic_arena = Inr (Some 1, magic_arena)" by (simp add: ev)
  have xd: "expr_display 2 1 magic_arena = Inr ''x''" by (simp add: ev)
  have v: "eval1 3 2 magic_arena = Inr (Some 0, magic_arena)"
    using eval1_magic_dispatch[where s=magic_arena and expr=2 and lhs=0 and rhs=1
        and m="''void''" and n=2] x
    by (simp add: ev)
  have t: "eval1 3 4 magic_arena = Inr (Some 1, print (''TRACE: x'' @ [CHR 0x0A]) magic_arena)"
    using eval1_magic_dispatch[where s=magic_arena and expr=4 and lhs=3 and rhs=1
        and m="''trace''" and n=2] x xd
    by (simp add: ev)
  have m6: "over_mass 3 6 100 magic_arena = Inr False" by (simp add: ev)
  have f: "eval1 3 6 magic_arena =
     Inr (None, print (''ERROR: unknown magic #foo'' @ [CHR 0x0A]) magic_arena) \<and>
    eval_bounded 3 6 10 100 magic_arena =
     Inr (EVAL_ERROR, None, print (''ERROR: unknown magic #foo'' @ [CHR 0x0A]) magic_arena)"
    using eval1_magic_dispatch[where s=magic_arena and expr=6 and lhs=5 and rhs=1
        and m="''foo''" and n=2] m6
    by (simp add: ev)
  have b: "\<exists>s1. eval1 4 8 magic_arena = Inr (Some 1, s1) \<and> dead_ok s1" by (simp add: ev)
  then obtain s1 where b1: "eval1 4 8 magic_arena = Inr (Some 1, s1)" "dead_ok s1" by blast
  have c: "\<exists>i s'. eval1 5 9 magic_arena = Inr (Some i, s') \<and> kind (slots s' ! i) = EXPR_APP 0 1"
    using eval1_magic_dispatch[where s=magic_arena and expr=9 and lhs=0 and rhs=8
        and m="''void''" and n=4] b1
    by (auto simp: ev expr_slot_Inr)
  show ?thesis using v t f c by blast
qed

text \<open>
  C3, amended. \<open>eval_bounded\<close> returns \<open>EVAL_LIMIT\<close> exactly when, after fewer than
  \<open>step_limit\<close> changing steps, the mass check finds \<open>0 < mass_limit < mass\<close>, or when
  \<open>step_limit\<close> steps all changed the expression; \<open>EVAL_ERROR\<close> exactly when, after fewer than
  \<open>step_limit\<close> changing steps, the next \<open>eval1\<close> fails; \<open>EVAL_DONE\<close> with the current index
  exactly when, after fewer than \<open>step_limit\<close> changing steps, the next \<open>eval1\<close> returns the index
  it was given. The mass check is off when \<open>mass_limit\<close> is \<open>0\<close>.
\<close>

theorem eval_bounded_outcomes:
  "(eval_bounded n start step_limit mass_limit s = Inr (EVAL_LIMIT, out, s') \<longleftrightarrow>
      out = None \<and>
      ((\<exists>k<step_limit. \<exists>c. after_steps n mass_limit k start s = Some (c, s') \<and>
           over_mass n c mass_limit s' = Inr True) \<or>
       (\<exists>c. after_steps n mass_limit step_limit start s = Some (c, s')))) \<and>
   (eval_bounded n start step_limit mass_limit s = Inr (EVAL_ERROR, out, s') \<longleftrightarrow>
      out = None \<and>
      (\<exists>k<step_limit. \<exists>c sk. after_steps n mass_limit k start s = Some (c, sk) \<and>
         over_mass n c mass_limit sk = Inr False \<and> eval1 n c sk = Inr (None, s'))) \<and>
   (eval_bounded n start step_limit mass_limit s = Inr (EVAL_DONE, out, s') \<longleftrightarrow>
      (\<exists>k<step_limit. \<exists>c sk. after_steps n mass_limit k start s = Some (c, sk) \<and>
         over_mass n c mass_limit sk = Inr False \<and> eval1 n c sk = Inr (Some c, s') \<and>
         out = Some c)) \<and>
   (over_mass n cur mass_limit s = Inr True \<longleftrightarrow>
      0 < mass_limit \<and> (\<exists>m. expr_mass n cur s = Inr m \<and> mass_limit < m)) \<and>
   (over_mass n cur mass_limit s = Inr False \<longleftrightarrow>
      mass_limit = 0 \<or> (\<exists>m. expr_mass n cur s = Inr m \<and> m \<le> mass_limit))"
proof -
  have "over_mass n cur mass_limit s = Inr True \<longleftrightarrow>
      0 < mass_limit \<and> (\<exists>m. expr_mass n cur s = Inr m \<and> mass_limit < m)"
    by (auto simp: over_mass_def split: sum.splits)
  moreover have "over_mass n cur mass_limit s = Inr False \<longleftrightarrow>
      mass_limit = 0 \<or> (\<exists>m. expr_mass n cur s = Inr m \<and> m \<le> mass_limit)"
    by (auto simp: over_mass_def split: sum.splits)
  ultimately show ?thesis
    using eval_bounded_limit[of n start step_limit mass_limit s out s']
      eval_bounded_error[of n start step_limit mass_limit s out s']
      eval_bounded_done[of n start step_limit mass_limit s out s']
    by blast
qed

text \<open>\<^verbatim>\<open>(\x.\y.x) y\<close> is done within the limits, at its normal form.\<close>

theorem eval_bounded_outcomes_witness:
  "\<exists>e s'. eval_bounded 5 4 10 100 example_arena = Inr (EVAL_DONE, Some e, s') \<and>
     (\<exists>k<10. \<exists>sk. after_steps 5 100 k 4 example_arena = Some (e, sk) \<and>
        over_mass 5 e 100 sk = Inr False \<and> eval1 5 e sk = Inr (Some e, s'))"
proof -
  have "\<exists>e s'. eval_bounded 5 4 10 100 example_arena = Inr (EVAL_DONE, Some e, s')"
    by (simp add: arena_run example_arena_def)
  then obtain e s' where e: "eval_bounded 5 4 10 100 example_arena = Inr (EVAL_DONE, Some e, s')"
    by blast
  from eval_bounded_outcomes[of 5 4 10 100 example_arena "Some e" s'] e
  show ?thesis by blast
qed

text \<open>
  C3, as stated, fails at \<open>mass_limit = 0\<close>: the mass of \<open>x\<close> is \<open>1 > 0\<close>, and the driver
  returns \<open>EVAL_DONE\<close>, not \<open>EVAL_LIMIT\<close>.
\<close>

theorem eval_bounded_mass_limit_zero_counterexample:
  "expr_mass 3 0 example_arena = Inr 1 \<and> (0::nat) < 1 \<and>
   eval_bounded 3 0 1 0 example_arena = Inr (EVAL_DONE, Some 0, example_arena)"
  by (simp add: arena_run example_arena_def)

section \<open>Combinator generation\<close>

text \<open>
  \<^verbatim>\<open>rand()\<close> returns the next number of the sequence. The depths and \<^verbatim>\<open>env_count\<close> are
  C \<^verbatim>\<open>int\<close>s; \<^verbatim>\<open>/\<close> and \<^verbatim>\<open>%\<close> truncate towards zero (\<open>sdiv\<close>, \<open>smod\<close>).
\<close>

definition rand :: "state \<Rightarrow> nat \<times> state" where
  "rand s = (rand_seq s (rand_pos s), s\<lparr>rand_pos := Suc (rand_pos s)\<rparr>)"

definition show_int :: "int \<Rightarrow> string" where
  "show_int i = (if i < 0 then ''-'' @ show_nat (nat (- i)) else show_nat (nat i))"

text \<open>\<^verbatim>\<open>var(symbol(env[rand() % env_count]))\<close>, with the read of \<open>env\<close> checked.\<close>

definition pick_var :: "string list \<Rightarrow> int \<Rightarrow> state \<Rightarrow> err + (nat \<times> state)" where
  "pick_var env env_count s =
     (let (r, s1) = rand s; i = int r smod env_count
      in if 0 \<le> i \<and> nat i < length env then var (symbol (env ! nat i)) s1
         else Inl OutOfBounds)"

text \<open>\<^verbatim>\<open>fun(symbol("x"), var(symbol("x")))\<close>: the argument is built first.\<close>

definition identity_fun :: "state \<Rightarrow> err + (nat \<times> state)" where
  "identity_fun s =
     (case var (symbol ''x'') s of
        Inl e \<Rightarrow> Inl e
      | Inr (v, s1) \<Rightarrow> fun_expr (symbol ''x'') v s1)"

text \<open>
  The weighted choice that ends in \<^verbatim>\<open>goto do_app\<close>, in falling through to \<^verbatim>\<open>do_abs\<close>, or
  in returning a variable.
\<close>

datatype move = Do_App | Do_Abs | Do_Var

definition choose_move :: "int \<Rightarrow> int \<Rightarrow> int \<Rightarrow> state \<Rightarrow> move \<times> state" where
  "choose_move current_depth max_depth env_count s =
     (let force_growth = current_depth < max_depth sdiv 3 in
      if env_count = 0 then (Do_Abs, s)
      else
        (let (r0, s1) = rand s; r = r0 mod 100 in
         if force_growth then (if r < 60 then (Do_App, s1) else (Do_Abs, s1))
         else if r < 50 then (Do_App, s1)
         else if r < 80 then (Do_Abs, s1)
         else (Do_Var, s1)))"

text \<open>
  In \<^verbatim>\<open>do_app\<close> the two recursive calls are the arguments of \<^verbatim>\<open>app\<close>, and C leaves their
  order open: \<open>first\<close> is what the call evaluated first returns, drawing first from the
  random sequence; it is the right operand when the arguments are evaluated from right
  to left.
\<close>

fun generate_rich_combinator ::
  "nat \<Rightarrow> int \<Rightarrow> int \<Rightarrow> string list \<Rightarrow> int \<Rightarrow> state \<Rightarrow> err + (nat \<times> state)" where
  "generate_rich_combinator 0 current_depth max_depth env env_count s = Inl OutOfFuel"
| "generate_rich_combinator (Suc n) current_depth max_depth env env_count s =
     (if current_depth \<ge> max_depth then
        (if env_count > 0 then pick_var env env_count s else identity_fun s)
      else
        (case choose_move current_depth max_depth env_count s of
           (Do_Var, s1) \<Rightarrow> pick_var env env_count s1
         | (Do_Abs, s1) \<Rightarrow>
             if env_count \<ge> 63 then identity_fun s1
             else if env_count < 0 \<or> length env < nat env_count then Inl OutOfBounds
             else
               (case generate_rich_combinator n (current_depth + 1) max_depth
                       (take (nat env_count) env @ [''v'' @ show_int env_count])
                       (env_count + 1) s1 of
                  Inl e \<Rightarrow> Inl e
                | Inr (body, s2) \<Rightarrow> fun_expr (symbol (''v'' @ show_int env_count)) body s2)
         | (Do_App, s1) \<Rightarrow>
             (let (rtl, s2) = args_right_to_left s1 in
              case generate_rich_combinator n (current_depth + 1) max_depth env env_count s2 of
                Inl e \<Rightarrow> Inl e
              | Inr (first, s3) \<Rightarrow>
                  (case generate_rich_combinator n (current_depth + 1) max_depth env env_count s3 of
                     Inl e \<Rightarrow> Inl e
                   | Inr (second, s4) \<Rightarrow>
                       if rtl then app second first s4 else app first second s4))))"

lemma rand_fields:
  "rand s = (r, s1) \<Longrightarrow> dead_ok s1 = dead_ok s \<and> keeps_live s s1 \<and> slots s1 = slots s"
  by (auto simp: rand_def dead_ok_def keeps_live_def)

lemma choose_move_fields:
  "choose_move d D ec s = (m, s1) \<Longrightarrow> dead_ok s1 = dead_ok s \<and> keeps_live s s1"
  by (auto simp: choose_move_def Let_def rand_def dead_ok_def keeps_live_def split: if_splits)

lemma choose_move_Var: "choose_move d D ec s = (Do_Var, s1) \<Longrightarrow> ec \<noteq> 0"
  by (auto simp: choose_move_def Let_def split: if_splits prod.splits)

lemma identity_fun_closed:
  assumes "dead_ok s"
  shows "\<exists>e s'. identity_fun s = Inr (e, s') \<and> dead_ok s' \<and> keeps_live s s' \<and>
           denotes s' e (Fun (Symbol ''x'' 0) (Var (Symbol ''x'' 0)))"
proof -
  from new_expr_total[OF assms] obtain v s1 where
    1: "new_expr (EXPR_VAR (Symbol ''x'' 0)) s = Inr (v, s1)" and ok1: "dead_ok s1" by blast
  from new_expr_total[OF ok1] obtain e s' where
    2: "new_expr (EXPR_FUN (Symbol ''x'' 0) v) s1 = Inr (e, s')" and ok2: "dead_ok s'" by blast
  have "denotes s' e (Fun (Symbol ''x'' 0) (Var (Symbol ''x'' 0)))"
    using new_expr_denotes_Fun[OF 2 new_expr_denotes_Var[OF 1]] .
  moreover have "keeps_live s s'"
    using new_expr_Inr(1)[OF 1] new_expr_Inr(1)[OF 2] by (rule keeps_live_trans)
  ultimately show ?thesis using 1 2 ok2
    by (simp add: identity_fun_def var_def fun_expr_def symbol_def)
qed

lemma smod_nonneg_less:
  "0 < (b::int) \<Longrightarrow> 0 \<le> a \<Longrightarrow> a smod b = a mod b"
  by (simp add: signed_modulo_int_def sgn_if)

lemma pick_var_drawn:
  assumes "dead_ok s" and "env \<noteq> []"
  shows "\<exists>e s' i. pick_var env (int (length env)) s = Inr (e, s') \<and> dead_ok s' \<and>
           keeps_live s s' \<and> i < length env \<and> i = rand_seq s (rand_pos s) mod length env \<and>
           denotes s' e (Var (Symbol (env ! i) 0))"
proof -
  define r where "r = rand_seq s (rand_pos s)"
  define s1 where "s1 = s\<lparr>rand_pos := Suc (rand_pos s)\<rparr>"
  have rs: "rand s = (r, s1)" by (simp add: rand_def r_def s1_def)
  have i: "int r smod int (length env) = int (r mod length env)"
    using assms(2) by (simp add: smod_nonneg_less zmod_int)
  have lt: "r mod length env < length env" using assms(2) by simp
  have ok1: "dead_ok s1" using rand_fields[OF rs] assms(1) by simp
  from new_expr_total[OF ok1] obtain e s' where
    1: "new_expr (EXPR_VAR (Symbol (env ! (r mod length env)) 0)) s1 = Inr (e, s')"
    and ok': "dead_ok s'" by blast
  have "keeps_live s s'" using rand_fields[OF rs] new_expr_Inr(1)[OF 1]
    by (blast intro: keeps_live_trans)
  then show ?thesis using 1 ok' lt new_expr_denotes_Var[OF 1] rs i
    by (simp add: pick_var_def var_def symbol_def r_def)
qed

lemma generate_closed:
  "dead_ok s \<Longrightarrow> nat (max_depth - current_depth) < n \<Longrightarrow>
   \<exists>e s' t. generate_rich_combinator n current_depth max_depth env (int (length env)) s
               = Inr (e, s') \<and>
      dead_ok s' \<and> keeps_live s s' \<and> denotes s' e t \<and>
      (\<forall>v. free_in v t \<longrightarrow> v \<in> symbol ` set env)"
proof (induction n arbitrary: current_depth env s)
  case 0
  then show ?case by simp
next
  case (Suc n)
  note ok = Suc.prems(1)
  have var_case: ?case
    if pv: "generate_rich_combinator (Suc n) current_depth max_depth env (int (length env)) s
            = pick_var env (int (length env)) s1" and ok1: "dead_ok s1" and k: "keeps_live s s1"
      and ne: "env \<noteq> []" for s1
  proof -
    from pick_var_drawn[OF ok1 ne] obtain e s' i where
      1: "pick_var env (int (length env)) s1 = Inr (e, s')" "dead_ok s'" "keeps_live s1 s'"
         "i < length env" "denotes s' e (Var (Symbol (env ! i) 0))" by blast
    have "\<forall>v. free_in v (Var (Symbol (env ! i) 0)) \<longrightarrow> v \<in> symbol ` set env"
      using 1(4) by (auto simp: symbol_def)
    then show ?thesis using pv 1 keeps_live_trans[OF k 1(3)]
      by (intro exI[of _ e] exI[of _ s'] exI[of _ "Var (Symbol (env ! i) 0)"]) simp
  qed
  have id_case: ?case
    if pv: "generate_rich_combinator (Suc n) current_depth max_depth env (int (length env)) s
            = identity_fun s1" and ok1: "dead_ok s1" and k: "keeps_live s s1" for s1
  proof -
    from identity_fun_closed[OF ok1] obtain e s' where
      1: "identity_fun s1 = Inr (e, s')" "dead_ok s'" "keeps_live s1 s'"
         "denotes s' e (Fun (Symbol ''x'' 0) (Var (Symbol ''x'' 0)))" by blast
    have "\<forall>v. free_in v (Fun (Symbol ''x'' 0) (Var (Symbol ''x'' 0))) \<longrightarrow> v \<in> symbol ` set env"
      by auto
    then show ?thesis using pv 1 keeps_live_trans[OF k 1(3)]
      by (intro exI[of _ e] exI[of _ s'] exI[of _ "Fun (Symbol ''x'' 0) (Var (Symbol ''x'' 0))"])
         simp
  qed
  show ?case
  proof (cases "current_depth \<ge> max_depth")
    case True
    show ?thesis
    proof (cases "env = []")
      case e: True
      show ?thesis by (rule id_case[OF _ ok keeps_live_refl]) (use True e in simp)
    next
      case e: False
      show ?thesis by (rule var_case[OF _ ok keeps_live_refl e]) (use True e in simp)
    qed
  next
    case False
    obtain m s1 where cm: "choose_move current_depth max_depth (int (length env)) s = (m, s1)"
      by (cases "choose_move current_depth max_depth (int (length env)) s")
    note cf = choose_move_fields[OF cm]
    have ok1: "dead_ok s1" and k1: "keeps_live s s1" using cf ok by simp_all
    have fuel: "nat (max_depth - (current_depth + 1)) < n" using Suc.prems(2) False by simp
    show ?thesis
    proof (cases m)
      case Do_Var
      then have "env \<noteq> []" using choose_move_Var cm by fastforce
      show ?thesis by (rule var_case[OF _ ok1 k1 \<open>env \<noteq> []\<close>]) (use False cm Do_Var in simp)
    next
      case Do_App
      obtain rtl s1' where 0: "args_right_to_left s1 = (rtl, s1')"
        by (cases "args_right_to_left s1")
      note F = args_right_to_left_fields[OF 0]
      have ok1': "dead_ok s1'" using F(5) ok1 by simp
      from Suc.IH[OF ok1' fuel, of env] obtain l s2 tl where
        1: "generate_rich_combinator n (current_depth + 1) max_depth env (int (length env)) s1'
            = Inr (l, s2)" "dead_ok s2" "keeps_live s1' s2" "denotes s2 l tl"
           "\<forall>v. free_in v tl \<longrightarrow> v \<in> symbol ` set env" by blast
      from Suc.IH[OF 1(2) fuel, of env] obtain r s3 tr where
        2: "generate_rich_combinator n (current_depth + 1) max_depth env (int (length env)) s2
            = Inr (r, s3)" "dead_ok s3" "keeps_live s2 s3" "denotes s3 r tr"
           "\<forall>v. free_in v tr \<longrightarrow> v \<in> symbol ` set env" by blast
      from new_expr_total[OF 2(2)] obtain e s' where
        3: "new_expr (EXPR_APP (if rtl then r else l) (if rtl then l else r)) s3 = Inr (e, s')"
           "dead_ok s'" by blast
      have dl: "denotes s3 l tl" using denotes_keeps_live[OF 2(3) 1(4)] .
      have d: "denotes s' e (App (if rtl then tr else tl) (if rtl then tl else tr))"
        using new_expr_denotes_App[OF 3(1), of "if rtl then tr else tl" "if rtl then tl else tr"]
          dl 2(4) by simp
      have k: "keeps_live s s'" using k1 F(4) 1(3) 2(3) new_expr_Inr(1)[OF 3(1)]
        by (blast intro: keeps_live_trans)
      have "\<forall>v. free_in v (App (if rtl then tr else tl) (if rtl then tl else tr)) \<longrightarrow>
                v \<in> symbol ` set env" using 1(5) 2(5) by auto
      then show ?thesis using False cm Do_App 0 1(1) 2(1) 3 d k
        by (intro exI[of _ e] exI[of _ s'] exI[of _ "App (if rtl then tr else tl) (if rtl then tl else tr)"])
           (cases rtl; simp add: app_def)
    next
      case Do_Abs
      show ?thesis
      proof (cases "int (length env) \<ge> 63")
        case True
        show ?thesis by (rule id_case[OF _ ok1 k1]) (use False cm Do_Abs True in simp)
      next
        case small: False
        define pn where "pn = ''v'' @ show_int (int (length env))"
        have len: "int (length env) + 1 = int (length (env @ [pn]))" by simp
        from Suc.IH[OF ok1 fuel, of "env @ [pn]"] obtain b s2 tb where
          1: "generate_rich_combinator n (current_depth + 1) max_depth (env @ [pn])
                (int (length env) + 1) s1 = Inr (b, s2)"
             "dead_ok s2" "keeps_live s1 s2" "denotes s2 b tb"
             "\<forall>v. free_in v tb \<longrightarrow> v \<in> symbol ` set (env @ [pn])"
          unfolding len by blast
        from new_expr_total[OF 1(2)] obtain e s' where
          3: "new_expr (EXPR_FUN (symbol pn) b) s2 = Inr (e, s')" "dead_ok s'" by blast
        have d: "denotes s' e (Fun (symbol pn) tb)" using new_expr_denotes_Fun[OF 3(1) 1(4)] .
        have k: "keeps_live s s'" using k1 1(3) new_expr_Inr(1)[OF 3(1)]
          by (blast intro: keeps_live_trans)
        have "\<forall>v. free_in v (Fun (symbol pn) tb) \<longrightarrow> v \<in> symbol ` set env" using 1(5) by auto
        then show ?thesis using False cm Do_Abs small 1(1) 3 d k
          by (intro exI[of _ e] exI[of _ s'] exI[of _ "Fun (symbol pn) tb"])
             (simp add: fun_expr_def pn_def)
      qed
    qed
  qed
qed

text \<open>
  C9. \<open>generate_rich_combinator(0, D, NULL, 0)\<close> returns, on an arena with a sound free list
  and for every random sequence, an index that stands for a closed expression. At the depth
  limit it returns a variable of the environment when the environment is not empty, and the
  identity function \<^verbatim>\<open>\x.x\<close> otherwise; and whatever the depth and the environment, the
  variables free in what it returns are names of the environment.
\<close>

theorem generate_rich_combinator_closed:
  assumes "dead_ok s" and "nat D < n"
  shows "(\<exists>e s' t. generate_rich_combinator n 0 D [] 0 s = Inr (e, s') \<and> denotes s' e t \<and>
            (\<forall>v. \<not> free_in v t)) \<and>
         (\<forall>d env. D \<le> d \<and> env \<noteq> [] \<longrightarrow>
            (\<exists>e s' i. generate_rich_combinator n d D env (int (length env)) s = Inr (e, s') \<and>
               i = rand_seq s (rand_pos s) mod length env \<and>
               denotes s' e (Var (Symbol (env ! i) 0)))) \<and>
         (\<forall>d. D \<le> d \<longrightarrow>
            (\<exists>e s'. generate_rich_combinator n d D [] 0 s = Inr (e, s') \<and>
               denotes s' e (Fun (Symbol ''x'' 0) (Var (Symbol ''x'' 0))))) \<and>
         (\<forall>d env. 0 \<le> d \<longrightarrow>
            (\<exists>e s' t. generate_rich_combinator n d D env (int (length env)) s = Inr (e, s') \<and>
               denotes s' e t \<and> (\<forall>v. free_in v t \<longrightarrow> v \<in> symbol ` set env)))"
proof (intro conjI allI impI)
  from generate_closed[OF assms(1), of D 0 n "[]"] assms(2)
  show "\<exists>e s' t. generate_rich_combinator n 0 D [] 0 s = Inr (e, s') \<and> denotes s' e t \<and>
            (\<forall>v. \<not> free_in v t)" by auto
next
  fix d and env :: "string list" assume a: "D \<le> d \<and> env \<noteq> []"
  obtain k where n: "n = Suc k" using assms(2) by (cases n) auto
  from pick_var_drawn[OF assms(1), of env] a
  show "\<exists>e s' i. generate_rich_combinator n d D env (int (length env)) s = Inr (e, s') \<and>
               i = rand_seq s (rand_pos s) mod length env \<and>
               denotes s' e (Var (Symbol (env ! i) 0))"
    unfolding n by auto
next
  fix d assume a: "D \<le> d"
  obtain k where n: "n = Suc k" using assms(2) by (cases n) auto
  from identity_fun_closed[OF assms(1)] a
  show "\<exists>e s'. generate_rich_combinator n d D [] 0 s = Inr (e, s') \<and>
               denotes s' e (Fun (Symbol ''x'' 0) (Var (Symbol ''x'' 0)))"
    unfolding n by auto
next
  fix d and env :: "string list" assume "0 \<le> (d::int)"
  then have "nat (D - d) < n" using assms(2) by simp
  from generate_closed[OF assms(1) this, of env]
  show "\<exists>e s' t. generate_rich_combinator n d D env (int (length env)) s = Inr (e, s') \<and>
               denotes s' e t \<and> (\<forall>v. free_in v t \<longrightarrow> v \<in> symbol ` set env)" by blast
qed

text \<open>The arena before anything is allocated, with a constant random sequence.\<close>

definition empty_arena :: state where
  "empty_arena =
     \<lparr>slots = [], dead = [], gens0 = [], gens1 = [], gen_cur = 0, global_counter = 0,
      stdout = [], rand_seq = (\<lambda>i. 10), rand_pos = 0,
      order_seq = (\<lambda>i. True), order_pos = 0\<rparr>"

lemmas generate_numeral =
  generate_rich_combinator.simps(2)[of "pred_numeral k", folded numeral_eq_Suc] for k

text \<open>
  With every random number \<open>10\<close> and depth \<open>2\<close> the generator builds \<^verbatim>\<open>\v0.v0 v0\<close>: an
  abstraction (the environment is empty), an application (\<open>10 < 50\<close>), and at the depth
  limit the variable \<open>env[10 % 1]\<close> twice.
\<close>

theorem generate_rich_combinator_closed_witness:
  "dead_ok empty_arena \<and> nat 2 < (5::nat) \<and>
   (\<exists>e s' t. generate_rich_combinator 5 0 2 [] 0 empty_arena = Inr (e, s') \<and>
      denotes s' e t \<and> (\<forall>v. \<not> free_in v t) \<and>
      denotes s' e (Fun (Symbol ''v0'' 0) (App (Var (Symbol ''v0'' 0)) (Var (Symbol ''v0'' 0)))))"
proof -
  have h1: "dead_ok empty_arena" by (simp add: dead_ok_def empty_arena_def)
  have h2: "nat 2 < (5::nat)" by simp
  have ev: "\<exists>e s'. generate_rich_combinator 5 0 2 [] 0 empty_arena = Inr (e, s') \<and>
      denotes s' e (Fun (Symbol ''v0'' 0) (App (Var (Symbol ''v0'' 0)) (Var (Symbol ''v0'' 0))))"
    by (simp add: generate_numeral empty_arena_def choose_move_def pick_var_def rand_def
          args_right_to_left_def identity_fun_def show_int_def show_nat.simps signed_divide_int_def
          signed_modulo_int_def arena_run denotes.simps)
  from generate_rich_combinator_closed[OF h1 h2] ev h1 h2 show ?thesis by fastforce
qed

section \<open>The grid and the collector\<close>

record cell =
  atom :: nat
  occupied :: bool
  age :: int
  generation :: int
  cached_hash :: nat
  cached_mass :: nat
  cache_valid :: bool

text \<open>
  The counters are C \<^verbatim>\<open>long\<close> and \<^verbatim>\<open>int\<close>; they are integers here (no run is long enough
  to overflow them). \<open>cells\<close> is the array that \<^verbatim>\<open>grid_init\<close> allocates.
\<close>

record grid =
  width :: int
  height :: int
  cells :: "cell list"
  steps :: int
  population :: int
  reactions_success :: int
  reactions_diverged :: int
  movements :: int
  deaths_age :: int
  cosmic_spawns :: int
  attacks :: int
  evasions :: int

type_synonym bindings = "(symbol \<times> nat) list"

definition gens_next_update :: "(nat list \<Rightarrow> nat list) \<Rightarrow> state \<Rightarrow> state" where
  "gens_next_update f s =
     (if gen_cur s = 0 then s\<lparr>gens1 := f (gens1 s)\<rparr> else s\<lparr>gens0 := f (gens0 s)\<rparr>)"

text \<open>The first loop of \<open>gc\<close>: clear \<open>visited\<close> on the current generation.\<close>

fun unmark_gen :: "nat list \<Rightarrow> state \<Rightarrow> err + state" where
  "unmark_gen [] s = Inr s"
| "unmark_gen (e # es) s =
     (case expr_slot s e of
        Inl x \<Rightarrow> Inl x
      | Inr sl \<Rightarrow> unmark_gen es (s\<lparr>slots := (slots s)[e := sl\<lparr>visited := False\<rparr>]\<rparr>))"

fun gc_mark :: "nat \<Rightarrow> nat \<Rightarrow> state \<Rightarrow> err + state" where
  "gc_mark 0 root s = Inl OutOfFuel"
| "gc_mark (Suc n) root s =
     (case expr_slot s root of
        Inl x \<Rightarrow> Inl x
      | Inr sl \<Rightarrow>
          if visited sl then Inr s
          else
            (let s1 = s\<lparr>slots := (slots s)[root := sl\<lparr>visited := True\<rparr>]\<rparr> in
             case kind sl of
               EXPR_MAG m \<Rightarrow> Inr s1
             | EXPR_VAR v \<Rightarrow> Inr s1
             | EXPR_FUN p b \<Rightarrow> gc_mark n b s1
             | EXPR_APP l r \<Rightarrow>
                 (case gc_mark n l s1 of Inl x \<Rightarrow> Inl x | Inr s2 \<Rightarrow> gc_mark n r s2)))"

fun gc_mark_all :: "nat \<Rightarrow> nat list \<Rightarrow> state \<Rightarrow> err + state" where
  "gc_mark_all n [] s = Inr s"
| "gc_mark_all n (r # rs) s =
     (case gc_mark n r s of Inl x \<Rightarrow> Inl x | Inr s1 \<Rightarrow> gc_mark_all n rs s1)"

text \<open>
  The atoms that the loop over \<^verbatim>\<open>active_grid.cells\<close> marks: those of the occupied cells
  among the first \<open>width * height\<close>. \<open>None\<close> is the grid whose \<open>cells\<close> pointer is null.
\<close>

definition grid_roots :: "grid option \<Rightarrow> err + nat list" where
  "grid_roots go =
     (case go of
        None \<Rightarrow> Inr []
      | Some g \<Rightarrow>
          let total = width g * height g in
          if int (length (cells g)) < total then Inl OutOfBounds
          else Inr (map atom (filter occupied (take (nat total) (cells g)))))"

text \<open>The second loop of \<open>gc\<close>: keep the visited slots, free the others.\<close>

fun sweep :: "nat list \<Rightarrow> state \<Rightarrow> err + state" where
  "sweep [] s = Inr s"
| "sweep (e # es) s =
     (case expr_slot s e of
        Inl x \<Rightarrow> Inl x
      | Inr sl \<Rightarrow>
          if visited sl then sweep es (gens_next_update (\<lambda>g. g @ [e]) s)
          else (case free_expr e s of Inl x \<Rightarrow> Inl x | Inr s1 \<Rightarrow> sweep es s1))"

definition gc :: "nat \<Rightarrow> nat \<Rightarrow> bindings \<Rightarrow> grid option \<Rightarrow> state \<Rightarrow> err + state" where
  "gc n root bs active_grid s =
     (case unmark_gen (gens_cur s) s of
        Inl x \<Rightarrow> Inl x
      | Inr s1 \<Rightarrow>
          (case gc_mark n root s1 of
             Inl x \<Rightarrow> Inl x
           | Inr s2 \<Rightarrow>
               (case gc_mark_all n (map snd bs) s2 of
                  Inl x \<Rightarrow> Inl x
                | Inr s3 \<Rightarrow>
                    (case grid_roots active_grid of
                       Inl x \<Rightarrow> Inl x
                     | Inr rs \<Rightarrow>
                         (case gc_mark_all n rs s3 of
                            Inl x \<Rightarrow> Inl x
                          | Inr s4 \<Rightarrow>
                              (let s5 = gens_next_update (\<lambda>g. []) s4 in
                               case sweep (gens_cur s5) s5 of
                                 Inl x \<Rightarrow> Inl x
                               | Inr s6 \<Rightarrow> Inr (s6\<lparr>gen_cur := 1 - gen_cur s6\<rparr>)))))))"

text \<open>The children of a slot, and the slots a traversal from a root comes to.\<close>

definition children :: "state \<Rightarrow> nat \<Rightarrow> nat list" where
  "children s i =
     (case kind (slots s ! i) of EXPR_FUN p b \<Rightarrow> [b] | EXPR_APP l r \<Rightarrow> [l, r] | _ \<Rightarrow> [])"

inductive reaches :: "state \<Rightarrow> nat \<Rightarrow> nat \<Rightarrow> bool" for s :: state and r :: nat where
  reaches_root: "reaches s r r"
| reaches_child:
    "reaches s r i \<Longrightarrow> i < length (slots s) \<Longrightarrow> j \<in> set (children s i) \<Longrightarrow> reaches s r j"

text \<open>
  The invariant of the arena between collections: the free list is sound, and every live
  slot is on the current generation list (where \<open>alloc_expr\<close> and the sweep put it).
\<close>

definition arena_inv :: "state \<Rightarrow> bool" where
  "arena_inv s \<longleftrightarrow>
     dead_ok s \<and> (\<forall>i < length (slots s). live (slots s ! i) \<longrightarrow> i \<in> set (gens_cur s))"

definition same_shape :: "state \<Rightarrow> state \<Rightarrow> bool" where
  "same_shape s s' \<longleftrightarrow>
     length (slots s') = length (slots s) \<and>
     (\<forall>i < length (slots s).
        kind (slots s' ! i) = kind (slots s ! i) \<and> live (slots s' ! i) = live (slots s ! i)) \<and>
     dead s' = dead s \<and> gens0 s' = gens0 s \<and> gens1 s' = gens1 s \<and> gen_cur s' = gen_cur s"

definition mark_rel :: "state \<Rightarrow> state \<Rightarrow> bool" where
  "mark_rel s s' \<longleftrightarrow>
     same_shape s s' \<and>
     (\<forall>i < length (slots s). visited (slots s ! i) \<longrightarrow> visited (slots s' ! i)) \<and>
     (\<forall>i < length (slots s).
        live (slots s ! i) \<and> visited (slots s' ! i) \<and> \<not> visited (slots s ! i) \<longrightarrow>
        (\<forall>j \<in> set (children s i).
           j < length (slots s) \<and> live (slots s ! j) \<and> visited (slots s' ! j)))"

lemma same_shape_refl: "same_shape s s"
  by (simp add: same_shape_def)

lemma same_shape_trans: "same_shape s s1 \<Longrightarrow> same_shape s1 s2 \<Longrightarrow> same_shape s s2"
  by (simp add: same_shape_def)

lemma same_shape_children: "same_shape s s' \<Longrightarrow> i < length (slots s) \<Longrightarrow> children s' i = children s i"
  by (simp add: same_shape_def children_def)

lemma mark_rel_refl: "mark_rel s s"
  by (simp add: mark_rel_def same_shape_refl)

lemma mark_rel_new:
  assumes "mark_rel s s'" and "i < length (slots s)" and "live (slots s ! i)"
    and "visited (slots s' ! i)" and "\<not> visited (slots s ! i)" and "j \<in> set (children s i)"
  shows "j < length (slots s) \<and> live (slots s ! j) \<and> visited (slots s' ! j)"
  using assms unfolding mark_rel_def by blast

lemma mark_rel_mono:
  "mark_rel s s' \<Longrightarrow> i < length (slots s) \<Longrightarrow> visited (slots s ! i) \<Longrightarrow> visited (slots s' ! i)"
  unfolding mark_rel_def by blast

lemma mark_rel_shape: "mark_rel s s' \<Longrightarrow> same_shape s s'"
  unfolding mark_rel_def by blast

lemma same_shape_live:
  "same_shape s s' \<Longrightarrow> i < length (slots s) \<Longrightarrow> live (slots s' ! i) = live (slots s ! i)"
  unfolding same_shape_def by blast

lemma same_shape_length: "same_shape s s' \<Longrightarrow> length (slots s') = length (slots s)"
  unfolding same_shape_def by blast

lemma mark_rel_trans:
  assumes "mark_rel s s1" and "mark_rel s1 s2"
  shows "mark_rel s s2"
proof -
  note sh = mark_rel_shape[OF assms(1)] mark_rel_shape[OF assms(2)]
  note len = same_shape_length[OF sh(1)]
  have new: "j < length (slots s) \<and> live (slots s ! j) \<and> visited (slots s2 ! j)"
    if i: "i < length (slots s)" and l: "live (slots s ! i)" and v2: "visited (slots s2 ! i)"
      and nv: "\<not> visited (slots s ! i)" and j: "j \<in> set (children s i)" for i j
  proof (cases "visited (slots s1 ! i)")
    case True
    from mark_rel_new[OF assms(1) i l True nv j]
    have 1: "j < length (slots s)" "live (slots s ! j)" "visited (slots s1 ! j)" by simp_all
    from mark_rel_mono[OF assms(2) _ 1(3)] 1(1) len have "visited (slots s2 ! j)" by simp
    then show ?thesis using 1 by simp
  next
    case False
    have i1: "i < length (slots s1)" using i len by simp
    have l1: "live (slots s1 ! i)" using same_shape_live[OF sh(1) i] l by simp
    have j1: "j \<in> set (children s1 i)" using same_shape_children[OF sh(1) i] j by simp
    from mark_rel_new[OF assms(2) i1 l1 v2 False j1]
    have 1: "j < length (slots s1)" "live (slots s1 ! j)" "visited (slots s2 ! j)" by simp_all
    have "live (slots s ! j)" using same_shape_live[OF sh(1), of j] 1(1,2) len by simp
    then show ?thesis using 1 len by simp
  qed
  have mono: "visited (slots s2 ! i)" if "i < length (slots s)" "visited (slots s ! i)" for i
    using mark_rel_mono[OF assms(2), of i] mark_rel_mono[OF assms(1), of i] that len by simp
  show ?thesis
    unfolding mark_rel_def
    using same_shape_trans[OF sh] new mono by blast
qed

lemma mark_first:
  assumes r: "root < length (slots s)" and l: "live (slots s ! root)"
    and s1: "s1 = s\<lparr>slots := (slots s)[root := (slots s ! root)\<lparr>visited := True\<rparr>]\<rparr>"
    and m: "mark_rel s1 s'"
    and c: "\<forall>j \<in> set (children s root).
              j < length (slots s) \<and> live (slots s ! j) \<and> visited (slots s' ! j)"
  shows "mark_rel s s' \<and> visited (slots s' ! root)"
proof -
  have sh1: "same_shape s s1" using r by (auto simp: s1 same_shape_def nth_list_update)
  have len: "length (slots s1) = length (slots s)" by (simp add: s1)
  have v1: "visited (slots s1 ! i) \<longleftrightarrow> visited (slots s ! i) \<or> i = root"
    if "i < length (slots s)" for i using that by (cases "i = root") (auto simp: s1)
  have vr: "visited (slots s' ! root)" using mark_rel_mono[OF m, of root] v1[OF r] r len by simp
  have mono: "visited (slots s' ! i)" if "i < length (slots s)" "visited (slots s ! i)" for i
    using mark_rel_mono[OF m, of i] v1[of i] that len by simp
  have new: "j < length (slots s) \<and> live (slots s ! j) \<and> visited (slots s' ! j)"
    if i: "i < length (slots s)" and li: "live (slots s ! i)" and v2: "visited (slots s' ! i)"
      and nv: "\<not> visited (slots s ! i)" and j: "j \<in> set (children s i)" for i j
  proof (cases "i = root")
    case True
    then show ?thesis using c j by blast
  next
    case False
    have i1: "i < length (slots s1)" using i len by simp
    have l1: "live (slots s1 ! i)" using same_shape_live[OF sh1 i] li by simp
    have nv1: "\<not> visited (slots s1 ! i)" using v1[OF i] nv False by simp
    have j1: "j \<in> set (children s1 i)" using same_shape_children[OF sh1 i] j by simp
    from mark_rel_new[OF m i1 l1 v2 nv1 j1]
    have 1: "j < length (slots s1)" "live (slots s1 ! j)" "visited (slots s' ! j)" by simp_all
    have "live (slots s ! j)" using same_shape_live[OF sh1, of j] 1(1,2) len by simp
    then show ?thesis using 1 len by simp
  qed
  have "mark_rel s s'"
    unfolding mark_rel_def
    using same_shape_trans[OF sh1 mark_rel_shape[OF m]] new mono by blast
  then show ?thesis using vr by simp
qed

lemma gc_mark_rel:
  "gc_mark n root s = Inr s' \<Longrightarrow>
   mark_rel s s' \<and> root < length (slots s) \<and> live (slots s ! root) \<and> visited (slots s' ! root)"
proof (induction n arbitrary: root s s')
  case 0
  then show ?case by simp
next
  case (Suc n)
  from Suc.prems obtain sl where sl: "expr_slot s root = Inr sl" by (auto split: sum.splits)
  then have r: "root < length (slots s)" and l: "live (slots s ! root)"
    and sle: "sl = slots s ! root" by (simp_all add: expr_slot_Inr)
  show ?case
  proof (cases "visited sl")
    case True
    then show ?thesis using Suc.prems sl r l sle by (simp add: mark_rel_refl)
  next
    case False
    define s1 where "s1 = s\<lparr>slots := (slots s)[root := (slots s ! root)\<lparr>visited := True\<rparr>]\<rparr>"
    have len: "length (slots s1) = length (slots s)" by (simp add: s1_def)
    have sh1: "same_shape s s1" using r by (auto simp: s1_def same_shape_def nth_list_update)
    show ?thesis
    proof (cases "kind sl")
      case (EXPR_VAR v)
      then have "s' = s1" using Suc.prems sl False sle by (simp add: s1_def)
      moreover have "children s root = []" using EXPR_VAR sle by (simp add: children_def)
      ultimately show ?thesis using mark_first[OF r l s1_def mark_rel_refl] r l by simp
    next
      case (EXPR_MAG m)
      then have "s' = s1" using Suc.prems sl False sle by (simp add: s1_def)
      moreover have "children s root = []" using EXPR_MAG sle by (simp add: children_def)
      ultimately show ?thesis using mark_first[OF r l s1_def mark_rel_refl] r l by simp
    next
      case (EXPR_FUN p b)
      then have 1: "gc_mark n b s1 = Inr s'" using Suc.prems sl False sle by (simp add: s1_def)
      from Suc.IH[OF 1] have m: "mark_rel s1 s'" and b: "b < length (slots s1)"
        "live (slots s1 ! b)" "visited (slots s' ! b)" by simp_all
      have "children s root = [b]" using EXPR_FUN sle by (simp add: children_def)
      moreover have "live (slots s ! b)" using same_shape_live[OF sh1, of b] b len by simp
      ultimately show ?thesis using mark_first[OF r l s1_def m] r l b len by simp
    next
      case (EXPR_APP lh rh)
      then obtain s2 where 1: "gc_mark n lh s1 = Inr s2" and 2: "gc_mark n rh s2 = Inr s'"
        using Suc.prems sl False sle by (auto simp: s1_def split: sum.splits)
      from Suc.IH[OF 1] have m1: "mark_rel s1 s2" and lh: "lh < length (slots s1)"
        "live (slots s1 ! lh)" "visited (slots s2 ! lh)" by simp_all
      from Suc.IH[OF 2] have m2: "mark_rel s2 s'" and rh: "rh < length (slots s2)"
        "live (slots s2 ! rh)" "visited (slots s' ! rh)" by simp_all
      note m = mark_rel_trans[OF m1 m2]
      have len2: "length (slots s2) = length (slots s1)"
        using same_shape_length[OF mark_rel_shape[OF m1]] .
      have "children s root = [lh, rh]" using EXPR_APP sle by (simp add: children_def)
      moreover have "live (slots s ! lh)" using same_shape_live[OF sh1, of lh] lh len by simp
      moreover have "live (slots s ! rh)"
        using same_shape_live[OF sh1, of rh] same_shape_live[OF mark_rel_shape[OF m1], of rh]
          rh len len2 by simp
      moreover have "visited (slots s' ! lh)" using mark_rel_mono[OF m2, of lh] lh len2 by simp
      ultimately show ?thesis using mark_first[OF r l s1_def m] r l lh rh len len2 by simp
    qed
  qed
qed

lemma gc_mark_all_rel:
  "gc_mark_all n rs s = Inr s' \<Longrightarrow>
   mark_rel s s' \<and> (\<forall>r \<in> set rs. r < length (slots s) \<and> live (slots s ! r) \<and> visited (slots s' ! r))"
proof (induction rs arbitrary: s)
  case Nil
  then show ?case by (simp add: mark_rel_refl)
next
  case (Cons r rs)
  then obtain s1 where 1: "gc_mark n r s = Inr s1" and 2: "gc_mark_all n rs s1 = Inr s'"
    by (auto split: sum.splits)
  note g = gc_mark_rel[OF 1]
  note a = Cons.IH[OF 2]
  have sh: "same_shape s s1" using g mark_rel_shape by blast
  have len: "length (slots s1) = length (slots s)" using same_shape_length[OF sh] .
  have "visited (slots s' ! r)" using mark_rel_mono[of s1 s' r] a g len by simp
  moreover have "\<forall>x \<in> set rs. x < length (slots s) \<and> live (slots s ! x) \<and> visited (slots s' ! x)"
    using a same_shape_live[OF sh] len by auto
  ultimately show ?case using mark_rel_trans[of s s1 s'] g a by simp
qed

definition gens_next :: "state \<Rightarrow> nat list" where
  "gens_next s = (if gen_cur s = 0 then gens1 s else gens0 s)"

lemma unmark_gen_result:
  "unmark_gen es s = Inr s' \<Longrightarrow>
   same_shape s s' \<and>
   (\<forall>i < length (slots s). visited (slots s' ! i) \<longleftrightarrow> visited (slots s ! i) \<and> i \<notin> set es) \<and>
   (\<forall>e \<in> set es. e < length (slots s) \<and> live (slots s ! e))"
proof (induction es arbitrary: s)
  case Nil
  then show ?case by (simp add: same_shape_refl)
next
  case (Cons e es)
  from Cons.prems obtain sl where sl: "expr_slot s e = Inr sl" by (auto split: sum.splits)
  then have r: "e < length (slots s)" and l: "live (slots s ! e)"
    and sle: "sl = slots s ! e" by (simp_all add: expr_slot_Inr)
  define s1 where "s1 = s\<lparr>slots := (slots s)[e := (slots s ! e)\<lparr>visited := False\<rparr>]\<rparr>"
  have 1: "unmark_gen es s1 = Inr s'" using Cons.prems sl sle by (simp add: s1_def)
  have sh1: "same_shape s s1" using r by (auto simp: s1_def same_shape_def nth_list_update)
  have len: "length (slots s1) = length (slots s)" by (simp add: s1_def)
  have v1: "visited (slots s1 ! i) \<longleftrightarrow> visited (slots s ! i) \<and> i \<noteq> e"
    if "i < length (slots s)" for i using that by (cases "i = e") (auto simp: s1_def)
  note IH = Cons.IH[OF 1]
  have "same_shape s s'" using sh1 IH by (blast intro: same_shape_trans)
  moreover have "\<forall>i < length (slots s).
      visited (slots s' ! i) \<longleftrightarrow> visited (slots s ! i) \<and> i \<notin> set (e # es)"
    using IH v1 len by auto
  moreover have "\<forall>x \<in> set (e # es). x < length (slots s) \<and> live (slots s ! x)"
    using IH r l len same_shape_live[OF sh1] by auto
  ultimately show ?case by blast
qed

lemma gens_next_update_fields [simp]:
  "slots (gens_next_update f s) = slots s"
  "dead (gens_next_update f s) = dead s"
  "gen_cur (gens_next_update f s) = gen_cur s"
  "gens_cur (gens_next_update f s) = gens_cur s"
  "gens_next (gens_next_update f s) = f (gens_next s)"
  by (simp_all add: gens_next_update_def gens_cur_def gens_next_def)

lemma dead_ok_gens_next_update [simp]: "dead_ok (gens_next_update f s) = dead_ok s"
  by (simp add: dead_ok_def)

lemma free_expr_fields:
  assumes "free_expr e s = Inr s1"
  shows "e < length (slots s)" and "live (slots s ! e)"
    and "slots s1 = (slots s)[e := (slots s ! e)\<lparr>live := False\<rparr>]"
    and "dead s1 = dead s @ [e]" and "gen_cur s1 = gen_cur s" and "gens_cur s1 = gens_cur s"
    and "gens_next s1 = gens_next s"
  using assms by (auto simp: free_expr_def gens_cur_def gens_next_def split: if_splits)

lemma sweep_result:
  "sweep es s = Inr s' \<Longrightarrow>
   length (slots s') = length (slots s) \<and>
   (\<forall>i < length (slots s).
      kind (slots s' ! i) = kind (slots s ! i) \<and>
      visited (slots s' ! i) = visited (slots s ! i) \<and>
      (live (slots s' ! i) \<longleftrightarrow> live (slots s ! i) \<and> (i \<in> set es \<longrightarrow> visited (slots s ! i)))) \<and>
   gen_cur s' = gen_cur s \<and> gens_cur s' = gens_cur s \<and>
   gens_next s' = gens_next s @ filter (\<lambda>e. visited (slots s ! e)) es \<and>
   (dead_ok s \<longrightarrow> dead_ok s')"
proof (induction es arbitrary: s)
  case Nil
  then show ?case by simp
next
  case (Cons e es)
  from Cons.prems obtain sl where sl: "expr_slot s e = Inr sl" by (auto split: sum.splits)
  then have r: "e < length (slots s)" and l: "live (slots s ! e)"
    and sle: "sl = slots s ! e" by (simp_all add: expr_slot_Inr)
  show ?case
  proof (cases "visited (slots s ! e)")
    case True
    then have 1: "sweep es (gens_next_update (\<lambda>g. g @ [e]) s) = Inr s'"
      using Cons.prems sl sle by simp
    from Cons.IH[OF 1] True l show ?thesis by auto
  next
    case False
    then obtain s1 where f: "free_expr e s = Inr s1" and 1: "sweep es s1 = Inr s'"
      using Cons.prems sl sle by (auto split: sum.splits)
    note F = free_expr_fields[OF f]
    have len: "length (slots s1) = length (slots s)" by (simp add: F(3))
    have k1: "kind (slots s1 ! i) = kind (slots s ! i)"
      and v1: "visited (slots s1 ! i) = visited (slots s ! i)"
      and l1: "live (slots s1 ! i) \<longleftrightarrow> live (slots s ! i) \<and> i \<noteq> e"
      if "i < length (slots s)" for i
      using that by (cases "i = e"; simp add: F(3))+
    have ok: "dead_ok s \<longrightarrow> dead_ok s1"
      using r l by (auto simp: dead_ok_def F(3,4) nth_list_update)
    note IH = Cons.IH[OF 1]
    have A: "length (slots s') = length (slots s)" using IH len by simp
    have B: "\<forall>i < length (slots s).
      kind (slots s' ! i) = kind (slots s ! i) \<and>
      visited (slots s' ! i) = visited (slots s ! i) \<and>
      (live (slots s' ! i) \<longleftrightarrow>
         live (slots s ! i) \<and> (i \<in> set (e # es) \<longrightarrow> visited (slots s ! i)))"
    proof (intro allI impI)
      fix i assume i: "i < length (slots s)"
      then have i1: "i < length (slots s1)" using len by simp
      from IH i1 have
        "kind (slots s' ! i) = kind (slots s1 ! i)"
        "visited (slots s' ! i) = visited (slots s1 ! i)"
        "live (slots s' ! i) \<longleftrightarrow> live (slots s1 ! i) \<and> (i \<in> set es \<longrightarrow> visited (slots s1 ! i))"
        by blast+
      then show "kind (slots s' ! i) = kind (slots s ! i) \<and>
        visited (slots s' ! i) = visited (slots s ! i) \<and>
        (live (slots s' ! i) \<longleftrightarrow>
           live (slots s ! i) \<and> (i \<in> set (e # es) \<longrightarrow> visited (slots s ! i)))"
        using k1[OF i] v1[OF i] l1[OF i] False by auto
    qed
    have C: "gen_cur s' = gen_cur s" "gens_cur s' = gens_cur s" using IH F(5,6) by simp_all
    have E: "gens_next s' = gens_next s @ filter (\<lambda>e. visited (slots s ! e)) (e # es)"
    proof -
      have "filter (\<lambda>x. visited (slots s1 ! x)) es = filter (\<lambda>x. visited (slots s ! x)) es"
      proof (rule filter_cong[OF refl])
        fix x assume "x \<in> set es"
        show "visited (slots s1 ! x) = visited (slots s ! x)"
          using r by (cases "x = e"; simp add: F(3))
      qed
      then show ?thesis using IH F(7) False by simp
    qed
    have D: "dead_ok s \<longrightarrow> dead_ok s'" using IH ok by blast
    show ?thesis using A B C D E by blast
  qed
qed

text \<open>The roots that \<open>gc\<close> marks: its argument, the bodies of the bindings, the grid's atoms.\<close>

definition gc_roots :: "nat \<Rightarrow> bindings \<Rightarrow> grid option \<Rightarrow> nat list" where
  "gc_roots root bs active_grid =
     root # map snd bs @ (case grid_roots active_grid of Inl e \<Rightarrow> [] | Inr rs \<Rightarrow> rs)"

lemma dead_ok_same_shape: "same_shape s s' \<Longrightarrow> dead_ok s \<Longrightarrow> dead_ok s'"
  by (auto simp: same_shape_def dead_ok_def)

lemma same_shape_gens_cur: "same_shape s s' \<Longrightarrow> gens_cur s' = gens_cur s"
  by (simp add: same_shape_def gens_cur_def)

lemma gens_cur_flip: "gens_cur (s\<lparr>gen_cur := 1 - gen_cur s\<rparr>) = gens_next s"
  by (auto simp: gens_cur_def gens_next_def)

lemma gc_result_aux:
  assumes inv: "arena_inv s" and gc: "gc n root bs active_grid s = Inr s'"
  shows "(\<forall>r \<in> set (gc_roots root bs active_grid). r < length (slots s') \<and> live (slots s' ! r)) \<and>
         (\<forall>i \<in> set (dead s'). i < length (slots s') \<and> \<not> live (slots s' ! i)) \<and>
         (\<forall>r \<in> set (gc_roots root bs active_grid).
            \<forall>i. reaches s' r i \<longrightarrow> i < length (slots s') \<and> live (slots s' ! i)) \<and>
         arena_inv s'"
proof -
  from gc obtain s1 s2 s3 rs s4 s6 where
    u: "unmark_gen (gens_cur s) s = Inr s1" and m2: "gc_mark n root s1 = Inr s2"
    and m3: "gc_mark_all n (map snd bs) s2 = Inr s3" and gr: "grid_roots active_grid = Inr rs"
    and m4: "gc_mark_all n rs s3 = Inr s4"
    and sw: "sweep (gens_cur (gens_next_update (\<lambda>g. []) s4)) (gens_next_update (\<lambda>g. []) s4) = Inr s6"
    and s': "s' = s6\<lparr>gen_cur := 1 - gen_cur s6\<rparr>"
    unfolding gc_def Let_def by (auto split: sum.splits)
  define s5 where "s5 = gens_next_update (\<lambda>g. []) s4"
  note U = unmark_gen_result[OF u]
  note M2 = gc_mark_rel[OF m2] and M3 = gc_mark_all_rel[OF m3] and M4 = gc_mark_all_rel[OF m4]
  have r12: "mark_rel s1 s2" and r23: "mark_rel s2 s3" and r34: "mark_rel s3 s4"
    using M2 M3 M4 by simp_all
  have r14: "mark_rel s1 s4" and r24: "mark_rel s2 s4" and r13: "mark_rel s1 s3"
    using r12 r23 r34 by (blast intro: mark_rel_trans)+
  have sh01: "same_shape s s1" using U by simp
  have sh14: "same_shape s1 s4" using r14 by (rule mark_rel_shape)
  have sh04: "same_shape s s4" using sh01 sh14 by (rule same_shape_trans)
  have len1: "length (slots s1) = length (slots s)" using same_shape_length[OF sh01] .
  have len2: "length (slots s2) = length (slots s)"
    using same_shape_length[OF mark_rel_shape[OF r12]] len1 by simp
  have len3: "length (slots s3) = length (slots s)"
    using same_shape_length[OF mark_rel_shape[OF r13]] len1 by simp
  have len4: "length (slots s4) = length (slots s)" using same_shape_length[OF sh04] .
  have gens: "gens_cur s5 = gens_cur s" using same_shape_gens_cur[OF sh04] by (simp add: s5_def)
  have slots5: "slots s5 = slots s4" by (simp add: s5_def)
  note W = sweep_result[OF sw[folded s5_def]]
  have len': "length (slots s') = length (slots s)" using W slots5 len4 by (simp add: s')
  \<comment> \<open>after the first loop no live slot is visited\<close>
  have unv: "\<not> visited (slots s1 ! i)" if "i < length (slots s)" "live (slots s1 ! i)" for i
  proof -
    have "live (slots s ! i)" using same_shape_live[OF sh01 that(1)] that(2) by simp
    then have "i \<in> set (gens_cur s)" using inv that(1) by (simp add: arena_inv_def)
    then show ?thesis using U that(1) by simp
  qed
  \<comment> \<open>what is live after the sweep: the slots live and visited after the marking\<close>
  have live': "live (slots s' ! i) \<longleftrightarrow> live (slots s4 ! i) \<and> visited (slots s4 ! i)"
    if i: "i < length (slots s)" for i
  proof -
    have "live (slots s4 ! i) \<Longrightarrow> i \<in> set (gens_cur s)"
      using same_shape_live[OF sh04 i] inv i by (simp add: arena_inv_def)
    then show ?thesis using W i gens slots5 len4 by (auto simp: s')
  qed
  have kind': "kind (slots s' ! i) = kind (slots s1 ! i)" if i: "i < length (slots s)" for i
    using W i slots5 len4 len1 sh14 by (simp add: s' same_shape_def)
  have ch': "children s' i = children s1 i" if i: "i < length (slots s)" for i
    using kind'[OF i] by (simp add: children_def)
  \<comment> \<open>the roots are live and visited after the marking\<close>
  have root4: "r < length (slots s) \<and> live (slots s4 ! r) \<and> visited (slots s4 ! r)"
    if "r \<in> set (gc_roots root bs active_grid)" for r
  proof -
    from that gr consider "r = root" | "r \<in> set (map snd bs)" | "r \<in> set rs"
      by (auto simp: gc_roots_def)
    then show ?thesis
    proof cases
      case 1
      then have "r < length (slots s1)" "live (slots s1 ! r)" "visited (slots s2 ! r)"
        using M2 by simp_all
      then show ?thesis
        using mark_rel_mono[OF r24, of r] same_shape_live[OF sh14, of r] len1 len2 by simp
    next
      case 2
      then have "r < length (slots s2)" "live (slots s2 ! r)" "visited (slots s3 ! r)"
        using M3 by blast+
      then show ?thesis
        using mark_rel_mono[OF r34, of r] same_shape_live[OF mark_rel_shape[OF r24], of r]
          len2 len3 by simp
    next
      case 3
      then have "r < length (slots s3)" "live (slots s3 ! r)" "visited (slots s4 ! r)"
        using M4 by blast+
      then show ?thesis
        using same_shape_live[OF mark_rel_shape[OF r34], of r] len3 by simp
    qed
  qed
  have reach4: "i < length (slots s) \<and> live (slots s4 ! i) \<and> visited (slots s4 ! i)"
    if r: "r \<in> set (gc_roots root bs active_grid)" and re: "reaches s' r i" for r i
    using re
  proof (induction rule: reaches.induct)
    case reaches_root
    then show ?case using root4[OF r] .
  next
    case (reaches_child i j)
    then have i: "i < length (slots s)" and l4: "live (slots s4 ! i)"
      and v4: "visited (slots s4 ! i)" by simp_all
    have i1: "i < length (slots s1)" using i len1 by simp
    have l1: "live (slots s1 ! i)" using same_shape_live[OF sh14 i1] l4 by simp
    have j1: "j \<in> set (children s1 i)" using reaches_child(3) ch'[OF i] by simp
    from mark_rel_new[OF r14 i1 l1 v4 unv[OF i l1] j1]
    have "j < length (slots s1)" "live (slots s1 ! j)" "visited (slots s4 ! j)" by simp_all
    then show ?case using same_shape_live[OF sh14, of j] len1 by simp
  qed
  have ok': "dead_ok s'"
  proof -
    have "dead_ok s4" using inv dead_ok_same_shape[OF sh04] by (simp add: arena_inv_def)
    then have "dead_ok s6" using W by (simp add: s5_def)
    then show ?thesis by (simp add: s' dead_ok_def)
  qed
  have "gens_cur s' = gens_next s6" unfolding s' by (rule gens_cur_flip)
  then have gens': "gens_cur s' = filter (\<lambda>e. visited (slots s4 ! e)) (gens_cur s)"
    using W gens slots5 by (simp add: s5_def)
  have inv': "arena_inv s'"
    unfolding arena_inv_def
  proof (intro conjI allI impI)
    show "dead_ok s'" by (rule ok')
  next
    fix i assume i: "i < length (slots s')" and l: "live (slots s' ! i)"
    then have i0: "i < length (slots s)" using len' by simp
    from live'[OF i0] l have l4: "live (slots s4 ! i)" "visited (slots s4 ! i)" by simp_all
    have "i \<in> set (gens_cur s)"
      using same_shape_live[OF sh04 i0] l4(1) inv i0 by (simp add: arena_inv_def)
    then show "i \<in> set (gens_cur s')" using l4(2) by (simp add: gens')
  qed
  show ?thesis
  proof (intro conjI ballI allI impI)
    fix r assume r: "r \<in> set (gc_roots root bs active_grid)"
    show "r < length (slots s')" "live (slots s' ! r)"
      using root4[OF r] live' len' by simp_all
  next
    fix i assume "i \<in> set (dead s')"
    then show "i < length (slots s')" "\<not> live (slots s' ! i)"
      using ok' by (auto simp: dead_ok_def)
  next
    fix r i assume r: "r \<in> set (gc_roots root bs active_grid)" and re: "reaches s' r i"
    show "i < length (slots s')" "live (slots s' ! i)"
      using reach4[OF r re] live' len' by simp_all
  next
    show "arena_inv s'" by (rule inv')
  qed
qed

lemma arena_inv_new_expr:
  assumes "arena_inv s" and "new_expr k s = Inr (i, s')"
  shows "arena_inv s'"
proof -
  from assms(2) obtain s1 where a: "alloc_expr s = Inr (i, s1)" and k: "set_kind i k s1 = Inr s'"
    by (auto simp: new_expr_def split: sum.splits)
  note A = alloc_expr_Inr[OF a]
  from k have s': "s' = s1\<lparr>slots := (slots s1)[i := (slots s1 ! i)\<lparr>kind := k\<rparr>]\<rparr>"
    by (auto simp: set_kind_def split: if_splits)
  have ok: "dead_ok s'"
    using new_expr_total[of s k] assms by (auto simp: arena_inv_def)
  have g: "gens_cur s' = gens_cur s @ [i]" using A(10) by (simp add: s')
  have "j \<in> set (gens_cur s')" if j: "j < length (slots s')" and l: "live (slots s' ! j)" for j
  proof (cases "j = i")
    case True
    then show ?thesis by (simp add: g)
  next
    case False
    have j1: "j < length (slots s1)" using j by (simp add: s')
    have l1: "live (slots s1 ! j)" using l False j1 by (simp add: s')
    have j0: "j < length (slots s)" using j1 A(11) A(15) False by (auto split: if_splits)
    then have "live (slots s ! j)" using A(12) False l1 by simp
    then show ?thesis using assms(1) j0 by (simp add: arena_inv_def g)
  qed
  then show ?thesis using ok by (simp add: arena_inv_def)
qed

text \<open>
  What the loop over the grid marks is the atom of every occupied cell among the first
  \<open>width * height\<close>.
\<close>

lemma grid_roots_cells:
  assumes "grid_roots (Some g) = Inr rs"
  shows "r \<in> set rs \<longleftrightarrow>
         (\<exists>i < nat (width g * height g). occupied (cells g ! i) \<and> r = atom (cells g ! i))"
proof -
  define k where "k = nat (width g * height g)"
  from assms have len: "k \<le> length (cells g)"
    and rs: "rs = map atom (filter occupied (take k (cells g)))"
    by (auto simp: grid_roots_def Let_def k_def split: if_splits)
  have "set (take k (cells g)) = (!) (cells g) ` {0..<k}"
    using nth_image[OF len] by simp
  then show ?thesis unfolding rs k_def[symmetric] by auto
qed

lemma gc_grid_roots:
  assumes "gc n root bs active_grid s = Inr s'"
  shows "\<exists>rs. grid_roots active_grid = Inr rs"
  using assms unfolding gc_def by (auto split: sum.splits)

text \<open>
  C7. After a collection that completes on an arena satisfying the invariant (which holds
  on the empty arena and which every allocation and every collection keeps), every root
  (the root expression, the body of every binding, and the atom of every occupied cell
  among the first \<open>width * height\<close> of the active grid) is in range and live, and every slot
  that a traversal from it comes to is in range and live; every index on the free list is
  in range and not live.
\<close>

theorem gc_result:
  assumes "arena_inv s" and "gc n root bs active_grid s = Inr s'"
  shows "(\<forall>r. r = root \<or> (\<exists>b \<in> set bs. r = snd b) \<or>
              (\<exists>g. active_grid = Some g \<and>
                 (\<exists>i < nat (width g * height g).
                    occupied (cells g ! i) \<and> r = atom (cells g ! i))) \<longrightarrow>
              r < length (slots s') \<and> live (slots s' ! r) \<and>
              (\<forall>i. reaches s' r i \<longrightarrow> i < length (slots s') \<and> live (slots s' ! i))) \<and>
         (\<forall>i \<in> set (dead s'). i < length (slots s') \<and> \<not> live (slots s' ! i)) \<and>
         arena_inv s'"
proof -
  note A = gc_result_aux[OF assms]
  from gc_grid_roots[OF assms(2)] obtain rs where rs: "grid_roots active_grid = Inr rs" by blast
  have "r \<in> set (gc_roots root bs active_grid)"
    if H: "r = root \<or> (\<exists>b \<in> set bs. r = snd b) \<or>
        (\<exists>g. active_grid = Some g \<and>
           (\<exists>i < nat (width g * height g). occupied (cells g ! i) \<and> r = atom (cells g ! i)))"
    for r
  proof -
    consider "r = root" | "\<exists>b \<in> set bs. r = snd b"
      | g i where "active_grid = Some g" "i < nat (width g * height g)"
          "occupied (cells g ! i)" "r = atom (cells g ! i)"
      using H by blast
    then show ?thesis
    proof cases
      case 1
      then show ?thesis by (simp add: gc_roots_def)
    next
      case 2
      then show ?thesis by (auto simp: gc_roots_def)
    next
      case (3 g i)
      then have "r \<in> set rs" using grid_roots_cells[OF rs[unfolded 3(1)], of r] by blast
      then show ?thesis using rs by (simp add: gc_roots_def)
    qed
  qed
  then show ?thesis using A by blast
qed

lemmas gc_mark_numeral = gc_mark.simps(2)[of "pred_numeral k", folded numeral_eq_Suc] for k

text \<open>
  Collecting \<open>example_arena\<close> with the root \<open>y\<close> (index 1), a binding of \<open>x\<close> (index 0) and a
  grid of two cells: the first is occupied by \<^verbatim>\<open>\y.x\<close> (index 2), the second is empty and
  its atom field still holds the index 4. The slots 3 and 4 are freed, in the order of the
  generation list, and what the occupied cell holds stays live.
\<close>

definition marked_grid :: grid where
  "marked_grid =
     \<lparr>width = 2, height = 1,
      cells =
        [\<lparr>atom = 2, occupied = True, age = 0, generation = 0, cached_hash = 0,
          cached_mass = 0, cache_valid = False\<rparr>,
         \<lparr>atom = 4, occupied = False, age = 0, generation = 0, cached_hash = 0,
          cached_mass = 0, cache_valid = False\<rparr>],
      steps = 0, population = 0, reactions_success = 0, reactions_diverged = 0, movements = 0,
      deaths_age = 0, cosmic_spawns = 0, attacks = 0, evasions = 0\<rparr>"

theorem gc_result_witness:
  "arena_inv example_arena \<and>
   (\<exists>s'. gc 5 1 [(Symbol ''a'' 0, 0)] (Some marked_grid) example_arena = Inr s' \<and>
      dead s' = [5, 3, 4] \<and> gens_cur s' = [0, 1, 2] \<and>
      (\<forall>r \<in> {1, 0, 2}. r < length (slots s') \<and> live (slots s' ! r) \<and>
         (\<forall>i. reaches s' r i \<longrightarrow> i < length (slots s') \<and> live (slots s' ! i))) \<and>
      (\<forall>i \<in> set (dead s'). i < length (slots s') \<and> \<not> live (slots s' ! i)))"
proof -
  have h1: "arena_inv example_arena"
    by (auto simp: arena_inv_def dead_ok_def example_arena_def gens_cur_def less_Suc_eq
          numeral_eq_Suc)
  have ev: "\<exists>s'. gc 5 1 [(Symbol ''a'' 0, 0)] (Some marked_grid) example_arena = Inr s' \<and>
      dead s' = [5, 3, 4] \<and> gens_cur s' = [0, 1, 2]"
    by (simp add: gc_def gc_mark_numeral grid_roots_def marked_grid_def example_arena_def
          gens_cur_def gens_next_update_def expr_slot_def free_expr_def Let_def)
  then obtain s' where
    g: "gc 5 1 [(Symbol ''a'' 0, 0)] (Some marked_grid) example_arena = Inr s'"
    and d: "dead s' = [5, 3, 4]" "gens_cur s' = [0, 1, 2]" by blast
  note T = gc_result[OF h1 g]
  have c: "occupied (cells marked_grid ! 0)" "atom (cells marked_grid ! 0) = 2"
    "(0::nat) < nat (width marked_grid * height marked_grid)"
    by (simp_all add: marked_grid_def)
  have r1: "1 < length (slots s') \<and> live (slots s' ! 1) \<and>
            (\<forall>i. reaches s' 1 i \<longrightarrow> i < length (slots s') \<and> live (slots s' ! i))"
    using T by blast
  have r0: "0 < length (slots s') \<and> live (slots s' ! 0) \<and>
            (\<forall>i. reaches s' 0 i \<longrightarrow> i < length (slots s') \<and> live (slots s' ! i))"
    using T[THEN conjunct1, rule_format, of 0] by simp
  have "\<exists>g. Some marked_grid = Some g \<and>
          (\<exists>i < nat (width g * height g). occupied (cells g ! i) \<and> 2 = atom (cells g ! i))"
    using c by (intro exI[of _ marked_grid] conjI exI[of _ 0]) simp_all
  then have r2: "2 < length (slots s') \<and> live (slots s' ! 2) \<and>
            (\<forall>i. reaches s' 2 i \<longrightarrow> i < length (slots s') \<and> live (slots s' ! i))"
    using T[THEN conjunct1, rule_format, of 2] by blast
  have dd: "\<forall>i \<in> set (dead s'). i < length (slots s') \<and> \<not> live (slots s' ! i)"
    using T by blast
  show ?thesis using h1 g d r1 r0 r2 dd by blast
qed

section \<open>Compaction\<close>

text \<open>
  \<^verbatim>\<open>remap[i]\<close> after the copying loop of \<open>gc_compact\<close>: the number of live slots before
  \<open>i\<close> when slot \<open>i\<close> is live, \<^verbatim>\<open>(size_t)-1\<close> (here \<open>None\<close>) when it is not. Reading it
  past the end of the table is undefined in C.
\<close>

definition remap :: "expr list \<Rightarrow> nat \<Rightarrow> err + nat option" where
  "remap sl i =
     (if i < length sl
      then Inr (if live (sl ! i) then Some (length (filter live (take i sl))) else None)
      else Inl OutOfBounds)"

definition remap_index :: "expr list \<Rightarrow> nat \<Rightarrow> err + nat" where
  "remap_index sl i =
     (case remap sl i of Inl x \<Rightarrow> Inl x | Inr None \<Rightarrow> Inr i | Inr (Some j) \<Rightarrow> Inr j)"

definition remap_expr :: "expr list \<Rightarrow> expr \<Rightarrow> err + expr" where
  "remap_expr sl e =
     (case kind e of
        EXPR_FUN p b \<Rightarrow>
          (case remap_index sl b of Inl x \<Rightarrow> Inl x | Inr b' \<Rightarrow> Inr (e\<lparr>kind := EXPR_FUN p b'\<rparr>))
      | EXPR_APP l r \<Rightarrow>
          (case remap_index sl l of
             Inl x \<Rightarrow> Inl x
           | Inr l' \<Rightarrow>
               (case remap_index sl r of
                  Inl x \<Rightarrow> Inl x
                | Inr r' \<Rightarrow> Inr (e\<lparr>kind := EXPR_APP l' r'\<rparr>)))
      | _ \<Rightarrow> Inr e)"

fun map_err :: "('a \<Rightarrow> err + 'b) \<Rightarrow> 'a list \<Rightarrow> err + 'b list" where
  "map_err f [] = Inr []"
| "map_err f (x # xs) =
     (case f x of
        Inl e \<Rightarrow> Inl e
      | Inr y \<Rightarrow> (case map_err f xs of Inl e \<Rightarrow> Inl e | Inr ys \<Rightarrow> Inr (y # ys)))"

definition remap_cell :: "expr list \<Rightarrow> cell \<Rightarrow> err + cell" where
  "remap_cell sl c =
     (if occupied c
      then (case remap_index sl (atom c) of Inl x \<Rightarrow> Inl x | Inr a \<Rightarrow> Inr (c\<lparr>atom := a\<rparr>))
      else Inr c)"

definition remap_grid :: "expr list \<Rightarrow> grid \<Rightarrow> err + grid" where
  "remap_grid sl g =
     (let total = width g * height g in
      if int (length (cells g)) < total then Inl OutOfBounds
      else
        (case map_err (remap_cell sl) (take (nat total) (cells g)) of
           Inl x \<Rightarrow> Inl x
         | Inr cs \<Rightarrow> Inr (g\<lparr>cells := cs @ drop (nat total) (cells g)\<rparr>)))"

definition remap_binding :: "expr list \<Rightarrow> symbol \<times> nat \<Rightarrow> err + (symbol \<times> nat)" where
  "remap_binding sl b =
     (case remap_index sl (snd b) of Inl x \<Rightarrow> Inl x | Inr i \<Rightarrow> Inr (fst b, i))"

text \<open>A generation list keeps, remapped, the indices whose slots were copied.\<close>

fun remap_gen :: "expr list \<Rightarrow> nat list \<Rightarrow> err + nat list" where
  "remap_gen sl [] = Inr []"
| "remap_gen sl (i # is) =
     (case remap sl i of
        Inl x \<Rightarrow> Inl x
      | Inr r \<Rightarrow>
          (case remap_gen sl is of
             Inl x \<Rightarrow> Inl x
           | Inr js \<Rightarrow> Inr (case r of None \<Rightarrow> js | Some j \<Rightarrow> j # js)))"

text \<open>
  \<open>gc_compact\<close>. The new slot array has room for \<open>slots.count - dead.count\<close> slots
  (computed in \<^verbatim>\<open>size_t\<close>); copying more live slots than that writes past its end.
  The grid is the global \<^verbatim>\<open>active_grid\<close>, \<open>None\<close> when its \<open>cells\<close> pointer is null; the
  bindings pointer may be null as well.
\<close>

definition gc_compact ::
  "bindings option \<Rightarrow> grid option \<Rightarrow> state \<Rightarrow> err + (bindings option \<times> grid option \<times> state)" where
  "gc_compact bs active_grid s =
     (let sl = slots s in
      if length sl = 0 then Inr (bs, active_grid, s)
      else if length (dead s) < length sl div 2 then Inr (bs, active_grid, s)
      else if (length sl + 2 ^ 64 - length (dead s)) mod 2 ^ 64 < length (filter live sl)
      then Inl OutOfBounds
      else
        (case map_err (remap_expr sl) (filter live sl) of
           Inl x \<Rightarrow> Inl x
         | Inr new_slots \<Rightarrow>
             (case (case active_grid of
                      None \<Rightarrow> Inr None
                    | Some g \<Rightarrow> (case remap_grid sl g of Inl x \<Rightarrow> Inl x | Inr g' \<Rightarrow> Inr (Some g'))) of
                Inl x \<Rightarrow> Inl x
              | Inr grid' \<Rightarrow>
                  (case (case bs of
                           None \<Rightarrow> Inr None
                         | Some b \<Rightarrow>
                             (case map_err (remap_binding sl) b of
                                Inl x \<Rightarrow> Inl x
                              | Inr b' \<Rightarrow> Inr (Some b'))) of
                     Inl x \<Rightarrow> Inl x
                   | Inr bs' \<Rightarrow>
                       (case remap_gen sl (gens0 s) of
                          Inl x \<Rightarrow> Inl x
                        | Inr g0 \<Rightarrow>
                            (case remap_gen sl (gens1 s) of
                               Inl x \<Rightarrow> Inl x
                             | Inr g1 \<Rightarrow>
                                 Inr (bs', grid',
                                      s\<lparr>slots := new_slots, dead := [],
                                        gens0 := g0, gens1 := g1\<rparr>)))))))"

section \<open>The grid step\<close>

definition MAX_AGE :: int where "MAX_AGE = 50"

definition COSMIC_RAY_RATE :: nat where "COSMIC_RAY_RATE = 1"

text \<open>Toroidal coordinates; \<^verbatim>\<open>%\<close> is the remainder of C, which has the sign of \<open>x\<close>.\<close>

definition grid_idx :: "grid \<Rightarrow> int \<Rightarrow> int \<Rightarrow> int" where
  "grid_idx g x y =
     (let wx = x smod width g;
          wx = (if wx < 0 then wx + width g else wx);
          wy = y smod height g;
          wy = (if wy < 0 then wy + height g else wy)
      in wy * width g + wx)"

definition grid_population :: "grid \<Rightarrow> int" where
  "grid_population g = int (length (filter occupied (take (nat (width g * height g)) (cells g))))"

text \<open>
  The Fisher-Yates loop, for \<open>i\<close> from \<open>total - 1\<close> down to \<open>1\<close>.
\<close>

fun shuffle :: "nat \<Rightarrow> int list \<Rightarrow> state \<Rightarrow> int list \<times> state" where
  "shuffle 0 indices s = (indices, s)"
| "shuffle (Suc i) indices s =
     (let (r, s1) = rand s;
          j = r mod (Suc i + 1);
          temp = indices ! Suc i
      in shuffle i (indices[Suc i := indices ! j, j := temp]) s1)"

definition cell_update :: "int \<Rightarrow> (cell \<Rightarrow> cell) \<Rightarrow> grid \<Rightarrow> grid" where
  "cell_update i f g = g\<lparr>cells := (cells g)[nat i := f (cells g ! nat i)]\<rparr>"

text \<open>
  The body of the loop over the shuffled indices, in the three parts the source marks:
  aging, cosmic rays, and movement or interaction. Each \<^verbatim>\<open>continue\<close> is a return, and the
  two cell indices are checked against the array.
\<close>

text \<open>The target of the cell \<open>curr_idx\<close> in direction \<open>dir\<close>: 0 north, 1 east, 2 south, 3 west.\<close>

definition target_cell :: "grid \<Rightarrow> int \<Rightarrow> nat \<Rightarrow> int" where
  "target_cell g curr_idx dir =
     (let cx = curr_idx smod width g;
          cy = curr_idx sdiv width g;
          tx = (if dir = 1 then cx + 1 else if dir = 3 then cx - 1 else cx);
          ty = (if dir = 0 then cy - 1 else if dir = 2 then cy + 1 else cy)
      in grid_idx g tx ty)"

text \<open>Rule 1: the occupant walks into the empty target.\<close>

definition move :: "int \<Rightarrow> int \<Rightarrow> grid \<Rightarrow> grid" where
  "move curr_idx target_idx g =
     cell_update curr_idx (\<lambda>c. c\<lparr>occupied := False, cache_valid := False\<rparr>)
       (cell_update target_idx (\<lambda>c. cells g ! nat curr_idx) g)
       \<lparr>movements := movements g + 1\<rparr>"

text \<open>
  Rule 2: the occupant is applied to the occupant of the target. \<open>eval_bounded\<close> writes
  \<^verbatim>\<open>result\<close> whenever it returns \<open>EVAL_DONE\<close>; reading it unwritten is the error branch.
\<close>

definition react ::
  "nat \<Rightarrow> nat \<Rightarrow> nat \<Rightarrow> int \<Rightarrow> int \<Rightarrow> grid \<Rightarrow> state \<Rightarrow> err + (grid \<times> state)" where
  "react n eval_steps max_mass curr_idx target_idx g s =
     (case app (atom (cells g ! nat curr_idx)) (atom (cells g ! nat target_idx)) s of
        Inl x \<Rightarrow> Inl x
      | Inr (ab, s1) \<Rightarrow>
          (case eval_bounded n ab eval_steps max_mass s1 of
             Inl x \<Rightarrow> Inl x
           | Inr (res, out, s2) \<Rightarrow>
               if res = EVAL_DONE then
                 (case out of
                    None \<Rightarrow> Inl OutOfBounds
                  | Some result \<Rightarrow>
                      Inr (cell_update target_idx
                             (\<lambda>c. c\<lparr>atom := result, age := 0, generation := generation c + 1,
                                    cache_valid := False\<rparr>)
                             (cell_update curr_idx (\<lambda>c. c\<lparr>age := 0, cache_valid := False\<rparr>) g)
                             \<lparr>reactions_success := reactions_success g + 1\<rparr>, s2))
               else
                 Inr (cell_update target_idx (\<lambda>c. c\<lparr>occupied := False, cache_valid := False\<rparr>) g
                        \<lparr>reactions_diverged := reactions_diverged g + 1\<rparr>, s2)))"

definition cosmic_ray :: "nat \<Rightarrow> int \<Rightarrow> grid \<Rightarrow> state \<Rightarrow> err + (grid \<times> state)" where
  "cosmic_ray n curr_idx g s =
     (let (r, s1) = rand s in
      if r mod 100000 < COSMIC_RAY_RATE then
        (case generate_rich_combinator n 0 3 [] 0 s1 of
           Inl x \<Rightarrow> Inl x
         | Inr (e, s2) \<Rightarrow>
             Inr (cell_update curr_idx
                    (\<lambda>c. c\<lparr>atom := e, occupied := True, age := 0, generation := 0,
                           cache_valid := False\<rparr>) g
                    \<lparr>cosmic_spawns := cosmic_spawns g + 1\<rparr>, s2))
      else Inr (g, s1))"

definition physics ::
  "nat \<Rightarrow> nat \<Rightarrow> nat \<Rightarrow> int \<Rightarrow> grid \<Rightarrow> state \<Rightarrow> err + (grid \<times> state)" where
  "physics n eval_steps max_mass curr_idx g s =
     (let (r, s1) = rand s;
          target_idx = target_cell g curr_idx (r mod 4)
      in
      if target_idx < 0 \<or> int (length (cells g)) \<le> target_idx then Inl OutOfBounds
      else if \<not> occupied (cells g ! nat target_idx) then Inr (move curr_idx target_idx g, s1)
      else react n eval_steps max_mass curr_idx target_idx g s1)"

definition process_cell ::
  "nat \<Rightarrow> nat \<Rightarrow> nat \<Rightarrow> int \<Rightarrow> grid \<Rightarrow> state \<Rightarrow> err + (grid \<times> state)" where
  "process_cell n eval_steps max_mass curr_idx g s =
     (if curr_idx < 0 \<or> int (length (cells g)) \<le> curr_idx then Inl OutOfBounds
      else if occupied (cells g ! nat curr_idx) then
        (let g1 = cell_update curr_idx (\<lambda>c. c\<lparr>age := age c + 1\<rparr>) g in
         if age (cells g1 ! nat curr_idx) > MAX_AGE then
           Inr (cell_update curr_idx (\<lambda>c. c\<lparr>occupied := False, cache_valid := False\<rparr>) g1
                  \<lparr>deaths_age := deaths_age g1 + 1\<rparr>, s)
         else physics n eval_steps max_mass curr_idx g1 s)
      else cosmic_ray n curr_idx g s)"

fun process_cells ::
  "nat \<Rightarrow> nat \<Rightarrow> nat \<Rightarrow> int list \<Rightarrow> grid \<Rightarrow> state \<Rightarrow> err + (grid \<times> state)" where
  "process_cells n eval_steps max_mass [] g s = Inr (g, s)"
| "process_cells n eval_steps max_mass (i # is) g s =
     (case process_cell n eval_steps max_mass i g s of
        Inl x \<Rightarrow> Inl x
      | Inr (g1, s1) \<Rightarrow> process_cells n eval_steps max_mass is g1 s1)"

text \<open>
  \<open>grid_step\<close> on the active grid; \<open>step_order\<close> is its shuffled list of indices, with
  the state of the random generator after the shuffle. The periodic collection marks the grid itself; the
  compaction is called with a null bindings pointer.
\<close>

definition step_order :: "grid \<Rightarrow> state \<Rightarrow> int list \<times> state" where
  "step_order g s =
     (let total = width g * height g
      in shuffle (nat total - 1) (map int [0..<nat total]) s)"

definition grid_step ::
  "nat \<Rightarrow> grid \<Rightarrow> bindings \<Rightarrow> nat \<Rightarrow> nat \<Rightarrow> state \<Rightarrow> err + (grid \<times> state)" where
  "grid_step n g bs eval_steps max_mass s =
     (let (indices, s1) = step_order g s
      in
      case process_cells n eval_steps max_mass indices g s1 of
        Inl x \<Rightarrow> Inl x
      | Inr (g1, s2) \<Rightarrow>
          (let g2 = g1\<lparr>steps := steps g1 + 1\<rparr> in
           if steps g2 smod 10 = 0 then
             (case var (symbol ''_dummy'') s2 of
                Inl x \<Rightarrow> Inl x
              | Inr (dummy, s3) \<Rightarrow>
                  (case gc n dummy bs (Some g2) s3 of
                     Inl x \<Rightarrow> Inl x
                   | Inr s4 \<Rightarrow>
                       if steps g2 smod 100 = 0 \<and> length (slots s4) > 10000 then
                         (case gc_compact None (Some g2) s4 of
                            Inl x \<Rightarrow> Inl x
                          | Inr (bs', Some g3, s5) \<Rightarrow> Inr (g3, s5)
                          | Inr (bs', None, s5) \<Rightarrow> Inr (g2, s5))
                       else Inr (g2, s4)))
           else Inr (g2, s2)))"


section \<open>What a grid step counts\<close>

text \<open>The cell array has the \<open>width * height\<close> cells that \<open>grid_init\<close> allocates.\<close>

definition grid_ok :: "grid \<Rightarrow> bool" where
  "grid_ok g \<longleftrightarrow> length (cells g) = nat (width g * height g)"

text \<open>The four cells a cell can pick as its target: north, east, south, west.\<close>

definition neighbours :: "grid \<Rightarrow> int \<Rightarrow> int list" where
  "neighbours g c =
     (let cx = c smod width g; cy = c sdiv width g
      in [grid_idx g cx (cy - 1), grid_idx g (cx + 1) cy,
          grid_idx g cx (cy + 1), grid_idx g (cx - 1) cy])"

text \<open>
  The iterations of the loop of \<open>grid_step\<close> that returned: the cell processed, the grid
  before and the grid after.
\<close>

fun grid_trace ::
  "nat \<Rightarrow> nat \<Rightarrow> nat \<Rightarrow> int list \<Rightarrow> grid \<Rightarrow> state \<Rightarrow> (int \<times> grid \<times> grid) list" where
  "grid_trace n eval_steps max_mass [] g s = []"
| "grid_trace n eval_steps max_mass (i # is) g s =
     (case process_cell n eval_steps max_mass i g s of
        Inl x \<Rightarrow> []
      | Inr (g1, s1) \<Rightarrow> (i, g, g1) # grid_trace n eval_steps max_mass is g1 s1)"

text \<open>The cells occupied before and after an iteration whose generation went up by one.\<close>

definition generation_increments :: "int \<times> grid \<times> grid \<Rightarrow> nat" where
  "generation_increments it =
     (case it of (i, g, g1) \<Rightarrow>
        length (filter (\<lambda>t. occupied (cells g ! t) \<and> occupied (cells g1 ! t) \<and>
                            generation (cells g1 ! t) = generation (cells g ! t) + 1)
                  [0..<length (cells g)]))"

text \<open>
  The processed cell went from occupied to empty in an iteration that counted neither
  a death of old age nor a diverged reaction.
\<close>

definition moved_out :: "int \<times> grid \<times> grid \<Rightarrow> bool" where
  "moved_out it =
     (case it of (i, g, g1) \<Rightarrow>
        occupied (cells g ! nat i) \<and> \<not> occupied (cells g1 ! nat i) \<and>
        deaths_age g1 = deaths_age g \<and> reactions_diverged g1 = reactions_diverged g)"

text \<open>The occupant of the processed cell, one tick older, sits in a neighbour that was empty.\<close>

definition moved_in :: "int \<times> grid \<times> grid \<Rightarrow> bool" where
  "moved_in it =
     (case it of (i, g, g1) \<Rightarrow>
        list_ex (\<lambda>t. \<not> occupied (cells g ! nat t) \<and>
                      cells g1 ! nat t = (cells g ! nat i)\<lparr>age := age (cells g ! nat i) + 1\<rparr>)
          (neighbours g i))"

definition pop :: "cell list \<Rightarrow> int" where
  "pop cs = int (length (filter occupied cs))"

lemma pop_update:
  "i < length cs \<Longrightarrow>
   pop (cs[i := c]) = pop cs - of_bool (occupied (cs ! i)) + of_bool (occupied c)"
  unfolding pop_def
proof (induction cs arbitrary: i)
  case Nil
  then show ?case by simp
next
  case (Cons a cs)
  then show ?case by (cases i) auto
qed

lemma grid_population_pop: "grid_ok g \<Longrightarrow> grid_population g = pop (cells g)"
  by (simp add: grid_ok_def grid_population_def pop_def)


lemma target_cell_neighbour: "d < 4 \<Longrightarrow> list_ex (\<lambda>t. t = target_cell g i d) (neighbours g i)"
proof -
  assume "d < 4"
  then have "d = 0 \<or> d = 1 \<or> d = 2 \<or> d = 3" by arith
  then show ?thesis by (auto simp: target_cell_def neighbours_def Let_def)
qed

definition aged :: "int \<Rightarrow> grid \<Rightarrow> grid" where
  "aged i g = cell_update i (\<lambda>c. c\<lparr>age := age c + 1\<rparr>) g"

definition killed :: "cell \<Rightarrow> cell" where
  "killed c = c\<lparr>occupied := False, cache_valid := False\<rparr>"

definition mutated :: "nat \<Rightarrow> cell \<Rightarrow> cell" where
  "mutated e c = c\<lparr>atom := e, age := 0, generation := generation c + 1, cache_valid := False\<rparr>"

definition spawned :: "nat \<Rightarrow> cell \<Rightarrow> cell" where
  "spawned e c = c\<lparr>atom := e, occupied := True, age := 0, generation := 0, cache_valid := False\<rparr>"

definition rested :: "cell \<Rightarrow> cell" where
  "rested c = c\<lparr>age := 0, cache_valid := False\<rparr>"

lemma react_result:
  assumes "react n es mm i t g s = Inr (g', s')"
  shows "(\<exists>e. g' = cell_update t (mutated e) (cell_update i rested g)
                  \<lparr>reactions_success := reactions_success g + 1\<rparr>) \<or>
         g' = cell_update t killed g\<lparr>reactions_diverged := reactions_diverged g + 1\<rparr>"
  using assms unfolding react_def mutated_def[abs_def] rested_def[abs_def] killed_def[abs_def]
  by (auto split: sum.splits prod.splits option.splits if_splits)

lemma cosmic_ray_result:
  assumes "cosmic_ray n i g s = Inr (g', s')"
  shows "g' = g \<or>
         (\<exists>e. g' = cell_update i (spawned e) g\<lparr>cosmic_spawns := cosmic_spawns g + 1\<rparr>)"
  using assms unfolding cosmic_ray_def spawned_def[abs_def]
  by (auto split: sum.splits prod.splits if_splits)

lemma physics_result:
  assumes "physics n es mm i g s = Inr (g', s')"
  shows "\<exists>t. list_ex (\<lambda>x. x = t) (neighbours g i) \<and> 0 \<le> t \<and> nat t < length (cells g) \<and>
           (if occupied (cells g ! nat t)
            then (\<exists>e. g' = cell_update t (mutated e) (cell_update i rested g)
                           \<lparr>reactions_success := reactions_success g + 1\<rparr>) \<or>
                 g' = cell_update t killed g\<lparr>reactions_diverged := reactions_diverged g + 1\<rparr>
            else g' = move i t g)"
proof -
  obtain r s1 where r: "rand s = (r, s1)" by (cases "rand s")
  define t where "t = target_cell g i (r mod 4)"
  have nb: "list_ex (\<lambda>x. x = t) (neighbours g i)"
    unfolding t_def by (rule target_cell_neighbour) simp
  have inr: "0 \<le> t \<and> nat t < length (cells g)"
    using assms by (auto simp: physics_def r Let_def t_def[symmetric] split: if_splits)
  show ?thesis
  proof (cases "occupied (cells g ! nat t)")
    case True
    then have "react n es mm i t g s1 = Inr (g', s')"
      using assms inr by (auto simp: physics_def r Let_def t_def[symmetric] split: if_splits)
    from react_result[OF this] show ?thesis using nb inr True by auto
  next
    case False
    then have "g' = move i t g"
      using assms inr by (auto simp: physics_def r Let_def t_def[symmetric] split: if_splits)
    then show ?thesis using nb inr False by auto
  qed
qed

lemma length_aged [simp]: "length (cells (aged i g)) = length (cells g)"
  by (simp add: aged_def cell_update_def)

lemma aged_counters [simp]:
  "reactions_success (aged i g) = reactions_success g"
  "reactions_diverged (aged i g) = reactions_diverged g"
  "movements (aged i g) = movements g"
  "deaths_age (aged i g) = deaths_age g"
  "cosmic_spawns (aged i g) = cosmic_spawns g"
  "width (aged i g) = width g"
  "height (aged i g) = height g"
  "steps (aged i g) = steps g"
  by (simp_all add: aged_def cell_update_def)

lemma neighbours_aged [simp]: "neighbours (aged i g) c = neighbours g c"
  by (simp add: neighbours_def grid_idx_def Let_def)

lemma process_cell_result:
  assumes "process_cell n es mm i g s = Inr (g', s')"
  shows "0 \<le> i \<and> nat i < length (cells g) \<and>
         (if occupied (cells g ! nat i)
          then g' = cell_update i killed (aged i g)\<lparr>deaths_age := deaths_age g + 1\<rparr> \<or>
               (\<exists>t. list_ex (\<lambda>x. x = t) (neighbours g i) \<and> 0 \<le> t \<and> nat t < length (cells g) \<and>
                  (if occupied (cells (aged i g) ! nat t)
                   then (\<exists>e. g' = cell_update t (mutated e) (cell_update i rested (aged i g))
                                  \<lparr>reactions_success := reactions_success g + 1\<rparr>) \<or>
                        g' = cell_update t killed (aged i g)
                               \<lparr>reactions_diverged := reactions_diverged g + 1\<rparr>
                   else g' = move i t (aged i g)))
          else g' = g \<or>
               (\<exists>e. g' = cell_update i (spawned e) g\<lparr>cosmic_spawns := cosmic_spawns g + 1\<rparr>))"
proof -
  have inr: "0 \<le> i \<and> nat i < length (cells g)"
    using assms unfolding process_cell_def by (auto split: if_splits)
  show ?thesis
  proof (cases "occupied (cells g ! nat i)")
    case False
    then have "cosmic_ray n i g s = Inr (g', s')"
      using assms inr unfolding process_cell_def by (auto split: if_splits)
    from cosmic_ray_result[OF this] show ?thesis using inr False by simp
  next
    case True
    show ?thesis
    proof (cases "age (cells (aged i g) ! nat i) > MAX_AGE")
      case old: True
      have "g' = cell_update i killed (aged i g)\<lparr>deaths_age := deaths_age g + 1\<rparr>"
        using assms inr True old
        unfolding process_cell_def Let_def aged_def[symmetric] killed_def[abs_def]
        by (auto simp: aged_def cell_update_def split: if_splits)
      then show ?thesis using inr True by simp
    next
      case young: False
      have "physics n es mm i (aged i g) s = Inr (g', s')"
        using assms inr True young
        unfolding process_cell_def Let_def aged_def[symmetric]
        by (auto split: if_splits)
      from physics_result[OF this]
      have "\<exists>t. list_ex (\<lambda>x. x = t) (neighbours g i) \<and> 0 \<le> t \<and> nat t < length (cells g) \<and>
                 (if occupied (cells (aged i g) ! nat t)
                  then (\<exists>e. g' = cell_update t (mutated e) (cell_update i rested (aged i g))
                                 \<lparr>reactions_success := reactions_success g + 1\<rparr>) \<or>
                       g' = cell_update t killed (aged i g)
                              \<lparr>reactions_diverged := reactions_diverged g + 1\<rparr>
                  else g' = move i t (aged i g))"
        unfolding length_aged aged_counters neighbours_aged .
      then show ?thesis
        using inr True by (simp split del: if_split)
    qed
  qed
qed


lemma filter_count_zero: "(\<And>t. t < n \<Longrightarrow> \<not> P t) \<Longrightarrow> length (filter P [0..<n]) = 0"
  by simp

lemma filter_count_one:
  assumes "t0 < n" and "\<And>t. t < n \<Longrightarrow> P t \<longleftrightarrow> t = t0"
  shows "length (filter P [0..<n]) = 1"
proof -
  have "{i. i < length [0..<n] \<and> P ([0..<n] ! i)} = {t0}" using assms by auto
  then show ?thesis unfolding length_filter_conv_card by simp
qed

lemmas grid_simps =
  cell_update_def aged_def killed_def mutated_def spawned_def rested_def move_def

lemma process_cell_outcomes:
  assumes "process_cell n es mm i g s = Inr (g', s')"
  obtains
    (death) "0 \<le> i" "nat i < length (cells g)" "occupied (cells g ! nat i)"
      "g' = cell_update i killed (aged i g)\<lparr>deaths_age := deaths_age g + 1\<rparr>"
  | (idle) "0 \<le> i" "nat i < length (cells g)" "\<not> occupied (cells g ! nat i)" "g' = g"
  | (spawn) e where "0 \<le> i" "nat i < length (cells g)" "\<not> occupied (cells g ! nat i)"
      "g' = cell_update i (spawned e) g\<lparr>cosmic_spawns := cosmic_spawns g + 1\<rparr>"
  | (move) t where "0 \<le> i" "nat i < length (cells g)" "occupied (cells g ! nat i)"
      "list_ex (\<lambda>x. x = t) (neighbours g i)" "0 \<le> t" "nat t < length (cells g)"
      "nat t \<noteq> nat i" "\<not> occupied (cells g ! nat t)" "g' = move i t (aged i g)"
  | (success) t e where "0 \<le> i" "nat i < length (cells g)" "occupied (cells g ! nat i)"
      "0 \<le> t" "nat t < length (cells g)" "occupied (cells g ! nat t)"
      "g' = cell_update t (mutated e) (cell_update i rested (aged i g))
              \<lparr>reactions_success := reactions_success g + 1\<rparr>"
  | (diverge) t where "0 \<le> i" "nat i < length (cells g)" "occupied (cells g ! nat i)"
      "0 \<le> t" "nat t < length (cells g)" "occupied (cells g ! nat t)"
      "g' = cell_update t killed (aged i g)\<lparr>reactions_diverged := reactions_diverged g + 1\<rparr>"
proof -
  note R = process_cell_result[OF assms]
  have occ: "nat t < length (cells g) \<Longrightarrow>
               occupied (cells (aged i g) ! nat t) = occupied (cells g ! nat t)" for t
    by (cases "nat t = nat i") (simp_all add: aged_def cell_update_def)
  have inr: "0 \<le> i" "nat i < length (cells g)" using R by simp_all
  show thesis
  proof (cases "occupied (cells g ! nat i)")
    case False
    with R have "g' = g \<or>
        (\<exists>e. g' = cell_update i (spawned e) g\<lparr>cosmic_spawns := cosmic_spawns g + 1\<rparr>)"
      by simp
    then show thesis using idle[OF inr False] spawn[OF inr False] by blast
  next
    case True
    with R have
      "g' = cell_update i killed (aged i g)\<lparr>deaths_age := deaths_age g + 1\<rparr> \<or>
       (\<exists>t. list_ex (\<lambda>x. x = t) (neighbours g i) \<and> 0 \<le> t \<and> nat t < length (cells g) \<and>
          (if occupied (cells (aged i g) ! nat t)
           then (\<exists>e. g' = cell_update t (mutated e) (cell_update i rested (aged i g))
                          \<lparr>reactions_success := reactions_success g + 1\<rparr>) \<or>
                g' = cell_update t killed (aged i g)
                       \<lparr>reactions_diverged := reactions_diverged g + 1\<rparr>
           else g' = move i t (aged i g)))"
      by (simp split del: if_split)
    then show thesis
    proof (elim disjE exE conjE)
      assume "g' = cell_update i killed (aged i g)\<lparr>deaths_age := deaths_age g + 1\<rparr>"
      then show thesis by (rule death[OF inr True])
    next
      fix t
      assume nb: "list_ex (\<lambda>x. x = t) (neighbours g i)" and t0: "0 \<le> t"
        and tl: "nat t < length (cells g)"
        and X: "if occupied (cells (aged i g) ! nat t)
           then (\<exists>e. g' = cell_update t (mutated e) (cell_update i rested (aged i g))
                          \<lparr>reactions_success := reactions_success g + 1\<rparr>) \<or>
                g' = cell_update t killed (aged i g)
                       \<lparr>reactions_diverged := reactions_diverged g + 1\<rparr>
           else g' = move i t (aged i g)"
      show thesis
      proof (cases "occupied (cells g ! nat t)")
        case occ_t: True
        with X occ[OF tl]
        have "(\<exists>e. g' = cell_update t (mutated e) (cell_update i rested (aged i g))
                          \<lparr>reactions_success := reactions_success g + 1\<rparr>) \<or>
                g' = cell_update t killed (aged i g)
                       \<lparr>reactions_diverged := reactions_diverged g + 1\<rparr>"
          by simp
        then show thesis
          using success[OF inr True t0 tl occ_t] diverge[OF inr True t0 tl occ_t] by blast
      next
        case emp_t: False
        then have ne: "nat t \<noteq> nat i" using True by auto
        from X occ[OF tl] emp_t have "g' = move i t (aged i g)" by simp
        then show thesis by (rule move[OF inr True nb t0 tl ne emp_t])
      qed
    qed
  qed
qed


lemma process_cell_shape:
  assumes "process_cell n es mm i g s = Inr (g', s')"
  shows "width g' = width g \<and> height g' = height g \<and> steps g' = steps g \<and>
         length (cells g') = length (cells g)"
  using assms by (cases rule: process_cell_outcomes) (simp_all add: grid_simps)

lemma process_cell_pop:
  assumes "process_cell n es mm i g s = Inr (g', s')"
  shows "pop (cells g') =
         pop (cells g) + (cosmic_spawns g' - cosmic_spawns g)
           - (deaths_age g' - deaths_age g) - (reactions_diverged g' - reactions_diverged g)"
  using assms
proof (cases rule: process_cell_outcomes)
  case death
  then show ?thesis by (simp add: grid_simps pop_update)
next
  case idle
  then show ?thesis by simp
next
  case (spawn e)
  then show ?thesis by (simp add: grid_simps pop_update)
next
  case (move t)
  then show ?thesis by (simp add: grid_simps pop_update)
next
  case (success t e)
  then show ?thesis by (cases "nat t = nat i") (simp_all add: grid_simps pop_update)
next
  case (diverge t)
  then show ?thesis by (cases "nat t = nat i") (simp_all add: grid_simps pop_update)
qed

lemma process_cell_success:
  assumes "process_cell n es mm i g s = Inr (g', s')"
  shows "reactions_success g' - reactions_success g = int (generation_increments (i, g, g'))"
  using assms
proof (cases rule: process_cell_outcomes)
  case death
  then show ?thesis
    unfolding generation_increments_def prod.case
    by (subst filter_count_zero) (auto simp: grid_simps nth_list_update)
next
  case idle
  then show ?thesis
    unfolding generation_increments_def prod.case
    by (subst filter_count_zero) auto
next
  case (spawn e)
  then show ?thesis
    unfolding generation_increments_def prod.case
    by (subst filter_count_zero) (auto simp: grid_simps nth_list_update)
next
  case (move t)
  then show ?thesis
    unfolding generation_increments_def prod.case
    by (subst filter_count_zero) (auto simp: grid_simps nth_list_update)
next
  case (success t e)
  then show ?thesis
    unfolding generation_increments_def prod.case
    by (subst filter_count_one[where ?t0.0 = "nat t"]) (auto simp: grid_simps nth_list_update)
next
  case (diverge t)
  then show ?thesis
    unfolding generation_increments_def prod.case
    by (subst filter_count_zero) (auto simp: grid_simps nth_list_update)
qed

lemma process_cell_moved_out:
  assumes "process_cell n es mm i g s = Inr (g', s')"
  shows "movements g' - movements g = of_bool (moved_out (i, g, g'))"
  using assms
proof (cases rule: process_cell_outcomes)
  case (success t e)
  then show ?thesis by (cases "nat t = nat i") (simp_all add: moved_out_def grid_simps)
qed (simp_all add: moved_out_def grid_simps)

lemma process_cell_moved_in:
  assumes "process_cell n es mm i g s = Inr (g', s')" and "moved_out (i, g, g')"
  shows "moved_in (i, g, g')"
  using assms(1)
proof (cases rule: process_cell_outcomes)
  case (move t)
  then show ?thesis by (auto simp: moved_in_def list_ex_iff grid_simps)
next
  case (success t e)
  then show ?thesis
    using assms(2) by (cases "nat t = nat i") (simp_all add: moved_out_def grid_simps)
qed (use assms(2) in \<open>simp_all add: moved_out_def grid_simps\<close>)


lemma process_cells_step:
  assumes "process_cells n es mm is g s = Inr (g', s')"
  shows "width g' = width g \<and> height g' = height g \<and> steps g' = steps g \<and>
         length (cells g') = length (cells g) \<and>
         pop (cells g') =
           pop (cells g) + (cosmic_spawns g' - cosmic_spawns g)
             - (deaths_age g' - deaths_age g) - (reactions_diverged g' - reactions_diverged g) \<and>
         map fst (grid_trace n es mm is g s) = is \<and>
         reactions_success g' - reactions_success g =
           int (sum_list (map generation_increments (grid_trace n es mm is g s))) \<and>
         movements g' - movements g = int (length (filter moved_out (grid_trace n es mm is g s))) \<and>
         list_all (\<lambda>it. moved_out it \<longrightarrow> moved_in it) (grid_trace n es mm is g s)"
  using assms
proof (induction "is" arbitrary: g s)
  case Nil
  then show ?case by simp
next
  case (Cons i "is")
  from Cons.prems obtain g1 s1 where
    one: "process_cell n es mm i g s = Inr (g1, s1)" and
    rest: "process_cells n es mm is g1 s1 = Inr (g', s')"
    by (auto split: sum.splits prod.splits)
  note IH = Cons.IH[OF rest]
  note sh = process_cell_shape[OF one]
  note po = process_cell_pop[OF one]
  note su = process_cell_success[OF one]
  note mo = process_cell_moved_out[OF one]
  have mi: "moved_out (i, g, g1) \<longrightarrow> moved_in (i, g, g1)"
    using process_cell_moved_in[OF one] by blast
  have tr: "grid_trace n es mm (i # is) g s = (i, g, g1) # grid_trace n es mm is g1 s1"
    by (simp add: one)
  show ?case unfolding tr
  proof (intro conjI)
    show "pop (cells g') =
           pop (cells g) + (cosmic_spawns g' - cosmic_spawns g)
             - (deaths_age g' - deaths_age g) - (reactions_diverged g' - reactions_diverged g)"
      using IH po by linarith
    show "reactions_success g' - reactions_success g =
           int (sum_list (map generation_increments ((i, g, g1) # grid_trace n es mm is g1 s1)))"
      using IH su by simp
    show "movements g' - movements g =
            int (length (filter moved_out ((i, g, g1) # grid_trace n es mm is g1 s1)))"
      using IH mo by (cases "moved_out (i, g, g1)") simp_all
    show "list_all (\<lambda>it. moved_out it \<longrightarrow> moved_in it)
            ((i, g, g1) # grid_trace n es mm is g1 s1)"
      using IH mi by simp
  qed (use IH sh in simp_all)
qed

text \<open>Compaction renumbers the atoms and leaves the rest of the grid as it is.\<close>

definition same_counts :: "grid \<Rightarrow> grid \<Rightarrow> bool" where
  "same_counts g g' \<longleftrightarrow>
     width g' = width g \<and> height g' = height g \<and> steps g' = steps g \<and>
     reactions_success g' = reactions_success g \<and>
     reactions_diverged g' = reactions_diverged g \<and>
     movements g' = movements g \<and> deaths_age g' = deaths_age g \<and>
     cosmic_spawns g' = cosmic_spawns g \<and>
     map occupied (cells g') = map occupied (cells g)"

lemma same_counts_refl [simp]: "same_counts g g"
  by (simp add: same_counts_def)

lemma pop_map: "pop cs = int (length (filter id (map occupied cs)))"
  by (simp add: pop_def filter_map comp_def)

lemma same_counts_pop: "same_counts g g' \<Longrightarrow> pop (cells g') = pop (cells g)"
  by (simp add: pop_map same_counts_def)

lemma same_counts_ok: "same_counts g g' \<Longrightarrow> grid_ok g \<Longrightarrow> grid_ok g'"
  unfolding same_counts_def grid_ok_def by (metis length_map)

lemma map_err_remap_cell:
  "map_err (remap_cell sl) cs = Inr cs' \<Longrightarrow> map occupied cs' = map occupied cs"
proof (induction cs arbitrary: cs')
  case Nil
  then show ?case by simp
next
  case (Cons c cs)
  then show ?case
    by (auto simp: remap_cell_def split: sum.splits if_splits)
qed

lemma remap_grid_same:
  assumes "remap_grid sl g = Inr g'"
  shows "same_counts g g'"
proof -
  from assms obtain cs where
    cs: "map_err (remap_cell sl) (take (nat (width g * height g)) (cells g)) = Inr cs" and
    g': "g' = g\<lparr>cells := cs @ drop (nat (width g * height g)) (cells g)\<rparr>"
    unfolding remap_grid_def Let_def by (auto split: sum.splits if_splits)
  have "map occupied (cs @ drop (nat (width g * height g)) (cells g)) =
        map occupied (take (nat (width g * height g)) (cells g)) @
        map occupied (drop (nat (width g * height g)) (cells g))"
    using map_err_remap_cell[OF cs] by simp
  also have "\<dots> = map occupied (take (nat (width g * height g)) (cells g) @
                             drop (nat (width g * height g)) (cells g))"
    by (simp only: map_append)
  also have "\<dots> = map occupied (cells g)"
    by (simp only: append_take_drop_id)
  finally have "map occupied (cs @ drop (nat (width g * height g)) (cells g)) =
                map occupied (cells g)" .
  then show ?thesis unfolding g' same_counts_def by simp
qed

lemma gc_compact_same:
  assumes "gc_compact bs (Some g) s = Inr (bs', gr, s')"
  shows "\<exists>g'. gr = Some g' \<and> same_counts g g'"
  using assms remap_grid_same unfolding gc_compact_def Let_def
  by (auto split: sum.splits if_splits option.splits)


lemma process_cell_once:
  assumes "process_cell n es mm i g s = Inr (g', s')"
  shows "generation_increments (i, g, g') \<le> 1"
proof -
  have "int (generation_increments (i, g, g')) \<le> 1"
    unfolding process_cell_success[OF assms, symmetric]
    using assms by (cases rule: process_cell_outcomes) (simp_all add: grid_simps)
  then show ?thesis by simp
qed

lemma process_cells_once:
  assumes "process_cells n es mm is g s = Inr (g', s')"
  shows "list_all (\<lambda>it. generation_increments it \<le> 1) (grid_trace n es mm is g s)"
  using assms
proof (induction "is" arbitrary: g s)
  case Nil
  then show ?case by simp
next
  case (Cons i "is")
  from Cons.prems obtain g1 s1 where
    one: "process_cell n es mm i g s = Inr (g1, s1)" and
    rest: "process_cells n es mm is g1 s1 = Inr (g', s')"
    by (auto split: sum.splits prod.splits)
  show ?case using Cons.IH[OF rest] process_cell_once[OF one] by (simp add: one)
qed

lemma grid_step_parts:
  assumes "grid_step n g bs es mm s = Inr (g', s')"
  obtains indices s1 g1 s2 where
    "step_order g s = (indices, s1)"
    "process_cells n es mm indices g s1 = Inr (g1, s2)"
    "same_counts (g1\<lparr>steps := steps g1 + 1\<rparr>) g'"
proof -
  obtain indices s1 where so: "step_order g s = (indices, s1)" by (cases "step_order g s")
  from assms obtain g1 s2 where
    pc: "process_cells n es mm indices g s1 = Inr (g1, s2)"
    unfolding grid_step_def so by (auto split: sum.splits)
  have "same_counts (g1\<lparr>steps := steps g1 + 1\<rparr>) g'"
    using assms gc_compact_same[of None "g1\<lparr>steps := steps g1 + 1\<rparr>"]
    unfolding grid_step_def so prod.case pc sum.case Let_def
    by (fastforce split: sum.splits if_splits option.splits prod.splits)
  with so pc show thesis by (rule that)
qed

text \<open>
  C8. When the cell array has \<open>width * height\<close> cells and \<open>grid_step\<close> returns, the number
  of occupied cells has changed by the spawns minus the deaths of old age minus the
  diverged reactions counted in the step. Every iteration of its loop returned, in the
  shuffled order; \<open>reactions_success\<close> has grown by the number of times an iteration
  raised by one the generation of a cell that stayed occupied (at most once per
  iteration, the target); \<open>movements\<close> has grown by the number of iterations in which
  the processed cell went from occupied to empty with neither \<open>deaths_age\<close> nor
  \<open>reactions_diverged\<close> counted, and in each of them its occupant, one tick older,
  sits in a neighbour that was empty.
\<close>

theorem grid_step_counts:
  assumes "grid_ok g" and "grid_step n g bs eval_steps max_mass s = Inr (g', s')"
  shows "grid_population g' =
           grid_population g + (cosmic_spawns g' - cosmic_spawns g)
             - (deaths_age g' - deaths_age g) - (reactions_diverged g' - reactions_diverged g) \<and>
         (case step_order g s of (indices, s1) \<Rightarrow>
            let tr = grid_trace n eval_steps max_mass indices g s1 in
            map fst tr = indices \<and>
            reactions_success g' - reactions_success g =
              int (sum_list (map generation_increments tr)) \<and>
            list_all (\<lambda>it. generation_increments it \<le> 1) tr \<and>
            movements g' - movements g = int (length (filter moved_out tr)) \<and>
            list_all (\<lambda>it. moved_out it \<longrightarrow> moved_in it) tr)"
proof -
  from assms(2) obtain indices s1 g1 s2 where
    so: "step_order g s = (indices, s1)" and
    pc: "process_cells n eval_steps max_mass indices g s1 = Inr (g1, s2)" and
    sc: "same_counts (g1\<lparr>steps := steps g1 + 1\<rparr>) g'"
    by (rule grid_step_parts)
  note st = process_cells_step[OF pc]
  have ok1: "grid_ok (g1\<lparr>steps := steps g1 + 1\<rparr>)"
    using assms(1) st by (simp add: grid_ok_def)
  have ok': "grid_ok g'" using same_counts_ok[OF sc ok1] .
  have p: "pop (cells g') = pop (cells g1)" using same_counts_pop[OF sc] by simp
  have c: "cosmic_spawns g' = cosmic_spawns g1" "deaths_age g' = deaths_age g1"
    "reactions_diverged g' = reactions_diverged g1" "reactions_success g' = reactions_success g1"
    "movements g' = movements g1"
    using sc by (simp_all add: same_counts_def)
  have "grid_population g' =
           grid_population g + (cosmic_spawns g' - cosmic_spawns g)
             - (deaths_age g' - deaths_age g) - (reactions_diverged g' - reactions_diverged g)"
    unfolding grid_population_pop[OF ok'] grid_population_pop[OF assms(1)] p c
    using st by simp
  moreover have "list_all (\<lambda>it. generation_increments it \<le> 1)
                   (grid_trace n eval_steps max_mass indices g s1)"
    using pc by (rule process_cells_once)
  ultimately show ?thesis
    unfolding so prod.case Let_def c using st by simp
qed


text \<open>
  A row of four cells on \<open>example_arena\<close>: \<^verbatim>\<open>\x.\y.x\<close>, \<open>y\<close>, an empty cell, and an \<open>x\<close> of
  age 50. The random numbers leave the order \<open>0, 1, 2, 3\<close> and send cells 0 and 1 east
  and cell 2 west: cell 0 turns the \<open>y\<close> of cell 1 into \<^verbatim>\<open>\y:1.y\<close>, which then walks to cell 2
  and back, and the \<open>x\<close> of cell 3 dies of old age.
\<close>

definition soup_arena :: state where
  "soup_arena =
     example_arena\<lparr>rand_seq :=
       (\<lambda>i. if i = 0 then 3 else if i = 1 then 2 else if i = 5 then 3 else 1)\<rparr>"

definition soup_cell :: "nat \<Rightarrow> bool \<Rightarrow> int \<Rightarrow> cell" where
  "soup_cell a occ ag =
     \<lparr>atom = a, occupied = occ, age = ag, generation = 0, cached_hash = 0, cached_mass = 0,
      cache_valid = False\<rparr>"

definition soup_grid :: grid where
  "soup_grid =
     \<lparr>width = 4, height = 1,
      cells = [soup_cell 3 True 0, soup_cell 1 True 0, soup_cell 0 False 0, soup_cell 0 True 50],
      steps = 0, population = 0, reactions_success = 0, reactions_diverged = 0, movements = 0,
      deaths_age = 0, cosmic_spawns = 0, attacks = 0, evasions = 0\<rparr>"

lemmas shuffle_numeral = shuffle.simps(2)[of "pred_numeral k", folded numeral_eq_Suc] for k

lemmas grid_run =
  grid_step_def step_order_def shuffle_numeral process_cell_def physics_def cosmic_ray_def
  react_def move_def target_cell_def grid_idx_def cell_update_def MAX_AGE_def
  COSMIC_RAY_RATE_def rand_def signed_modulo_int_def signed_divide_int_def upt_conv_Cons

theorem grid_step_counts_witness:
  "grid_ok soup_grid \<and> grid_population soup_grid = 3 \<and>
   (\<exists>g' s'. grid_step 5 soup_grid [] 10 100 soup_arena = Inr (g', s') \<and>
      cosmic_spawns g' = 0 \<and> deaths_age g' = 1 \<and> reactions_diverged g' = 0 \<and>
      reactions_success g' = 1 \<and> movements g' = 2 \<and> grid_population g' = 2 \<and>
      (case step_order soup_grid soup_arena of (indices, s1) \<Rightarrow>
         let tr = grid_trace 5 10 100 indices soup_grid s1 in
         map fst tr = indices \<and>
         reactions_success g' - reactions_success soup_grid =
           int (sum_list (map generation_increments tr)) \<and>
         list_all (\<lambda>it. generation_increments it \<le> 1) tr \<and>
         movements g' - movements soup_grid = int (length (filter moved_out tr)) \<and>
         list_all (\<lambda>it. moved_out it \<longrightarrow> moved_in it) tr))"
proof -
  have ok: "grid_ok soup_grid"
    by (simp add: grid_ok_def soup_grid_def)
  have p0: "grid_population soup_grid = 3"
    by (simp add: grid_population_def soup_grid_def soup_cell_def)
  have "\<exists>g' s'. grid_step 5 soup_grid [] 10 100 soup_arena = Inr (g', s') \<and>
       cosmic_spawns g' = 0 \<and> deaths_age g' = 1 \<and> reactions_diverged g' = 0 \<and>
       reactions_success g' = 1 \<and> movements g' = 2"
    by (simp add: grid_run arena_run soup_grid_def soup_cell_def soup_arena_def
          example_arena_def)
  then obtain g' s' where
    run: "grid_step 5 soup_grid [] 10 100 soup_arena = Inr (g', s')" and
    c: "cosmic_spawns g' = 0" "deaths_age g' = 1" "reactions_diverged g' = 0"
       "reactions_success g' = 1" "movements g' = 2"
    by blast
  note T = grid_step_counts[OF ok run]
  have p': "grid_population g' = 2"
    using T p0 c by (simp add: soup_grid_def)
  note T2 = T[THEN conjunct2]
  show ?thesis
    by (intro conjI exI[of _ g'] exI[of _ s']) (rule ok p0 run c p' T2)+
qed

section \<open>The lexer\<close>

datatype Token_Kind =
  TOKEN_INVALID | TOKEN_END | TOKEN_OPAREN | TOKEN_CPAREN | TOKEN_LAMBDA | TOKEN_DOT
| TOKEN_COLON | TOKEN_SEMICOLON | TOKEN_EQUALS | TOKEN_NAME | TOKEN_MAGIC

text \<open>
  \<open>input\<close> is the content from \<^verbatim>\<open>cur.pos\<close> to its end, so that advancing the position is
  taking the tail and restoring \<^verbatim>\<open>cur\<close> is restoring \<open>input\<close>. The file path and the line
  and column counters only feed the error messages, which go to \<^verbatim>\<open>stderr\<close>; they are
  left out. \<open>token_string\<close> is \<^verbatim>\<open>l->string\<close>.
\<close>

record lexer =
  input :: string
  token :: Token_Kind
  token_string :: string

definition lexer_init :: "string \<Rightarrow> lexer" where
  "lexer_init content = \<lparr>input = content, token = TOKEN_INVALID, token_string = []\<rparr>"

text \<open>The character classes of the C locale.\<close>

definition isspace :: "char \<Rightarrow> bool" where
  "isspace c \<longleftrightarrow> c = CHR '' '' \<or> (9 \<le> (of_char c :: nat) \<and> (of_char c :: nat) \<le> 13)"

definition isalnum :: "char \<Rightarrow> bool" where
  "isalnum c \<longleftrightarrow>
     (let n = (of_char c :: nat)
      in (48 \<le> n \<and> n \<le> 57) \<or> (65 \<le> n \<and> n \<le> 90) \<or> (97 \<le> n \<and> n \<le> 122))"

definition issymbol :: "char \<Rightarrow> bool" where
  "issymbol x \<longleftrightarrow> isalnum x \<or> x = CHR ''_''"

text \<open>Both return the character 0 at the end of the content.\<close>

definition lexer_curr_char :: "string \<Rightarrow> char" where
  "lexer_curr_char inp = (case inp of [] \<Rightarrow> CHR 0x00 | c # cs \<Rightarrow> c)"

definition lexer_next_char :: "string \<Rightarrow> char \<times> string" where
  "lexer_next_char inp = (case inp of [] \<Rightarrow> (CHR 0x00, []) | c # cs \<Rightarrow> (c, cs))"

fun lexer_trim_left :: "string \<Rightarrow> string" where
  "lexer_trim_left [] = []"
| "lexer_trim_left (c # cs) = (if isspace c then lexer_trim_left cs else c # cs)"

fun lexer_starts_with :: "string \<Rightarrow> string \<Rightarrow> bool" where
  "lexer_starts_with inp [] = True"
| "lexer_starts_with [] (p # ps) = False"
| "lexer_starts_with (c # cs) (p # ps) = (p = c \<and> lexer_starts_with cs ps)"

fun lexer_drop_line :: "string \<Rightarrow> string" where
  "lexer_drop_line [] = []"
| "lexer_drop_line (c # cs) = (if c = CHR 0x0A then cs else lexer_drop_line cs)"

lemma lexer_trim_left_length: "length (lexer_trim_left inp) \<le> length inp"
  by (induction inp) auto

lemma lexer_drop_line_le: "length (lexer_drop_line inp) \<le> length inp"
  by (induction inp) auto

lemma lexer_drop_line_length: "inp \<noteq> [] \<Longrightarrow> length (lexer_drop_line inp) < length inp"
  using lexer_drop_line_le by (cases inp) (auto simp: less_Suc_eq_le)

text \<open>The first loop of \<open>lexer_next\<close>: white space and \<^verbatim>\<open>//\<close> comments are skipped.\<close>

function lexer_skip :: "string \<Rightarrow> string" where
  "lexer_skip inp =
     (let inp1 = lexer_trim_left inp
      in if lexer_starts_with inp1 ''//'' then lexer_skip (lexer_drop_line inp1) else inp1)"
  by pat_completeness auto
termination
proof (relation "measure length")
  show "wf (measure length)" by simp
next
  fix inp inp1 :: string
  assume a: "inp1 = lexer_trim_left inp" and b: "lexer_starts_with inp1 ''//''"
  from b have "inp1 \<noteq> []" by (cases inp1) auto
  from lexer_drop_line_length[OF this] lexer_trim_left_length[of inp] a
  show "(lexer_drop_line inp1, inp) \<in> measure length" by simp
qed

declare lexer_skip.simps [simp del]

text \<open>
  The loop \<^verbatim>\<open>while (issymbol(lexer_curr_char(l)))\<close> that collects a name: the characters
  appended to \<^verbatim>\<open>l->string\<close> and the input left.
\<close>

fun lexer_symbols :: "string \<Rightarrow> string \<times> string" where
  "lexer_symbols [] = ([], [])"
| "lexer_symbols (c # cs) =
     (if issymbol c then (let (str, inp) = lexer_symbols cs in (c # str, inp))
      else ([], c # cs))"

definition lexer_next :: "lexer \<Rightarrow> bool \<times> lexer" where
  "lexer_next l =
     (let (x, inp) = lexer_next_char (lexer_skip (input l));
          l1 = l\<lparr>input := inp\<rparr>
      in
      if x = CHR 0x00 then (True, l1\<lparr>token := TOKEN_END\<rparr>)
      else if x = CHR ''('' then (True, l1\<lparr>token := TOKEN_OPAREN\<rparr>)
      else if x = CHR '')'' then (True, l1\<lparr>token := TOKEN_CPAREN\<rparr>)
      else if x = CHR 0x5C then (True, l1\<lparr>token := TOKEN_LAMBDA\<rparr>)
      else if x = CHR ''.'' then (True, l1\<lparr>token := TOKEN_DOT\<rparr>)
      else if x = CHR '':'' then (True, l1\<lparr>token := TOKEN_COLON\<rparr>)
      else if x = CHR '';'' then (True, l1\<lparr>token := TOKEN_SEMICOLON\<rparr>)
      else if x = CHR ''='' then (True, l1\<lparr>token := TOKEN_EQUALS\<rparr>)
      else if x = CHR ''#'' then
        (let (str, inp2) = lexer_symbols inp
         in (True, l1\<lparr>input := inp2, token := TOKEN_MAGIC, token_string := str\<rparr>))
      else if issymbol x then
        (let (str, inp2) = lexer_symbols inp
         in (True, l1\<lparr>input := inp2, token := TOKEN_NAME, token_string := x # str\<rparr>))
      else (False, l1\<lparr>token := TOKEN_INVALID\<rparr>))"

definition lexer_peek :: "lexer \<Rightarrow> bool \<times> lexer" where
  "lexer_peek l = (let (result, l1) = lexer_next l in (result, l1\<lparr>input := input l\<rparr>))"

definition lexer_expect :: "lexer \<Rightarrow> Token_Kind \<Rightarrow> bool \<times> lexer" where
  "lexer_expect l expected =
     (let (ok, l1) = lexer_next l
      in if \<not> ok then (False, l1) else if token l1 \<noteq> expected then (False, l1) else (True, l1))"

section \<open>The parser\<close>

text \<open>
  The three parsers return \<open>None\<close> for \<^verbatim>\<open>false\<close> and the index written to \<^verbatim>\<open>*expr\<close> for
  \<^verbatim>\<open>true\<close>. \<open>parse_loop\<close> is the loop of \<open>parse_expr\<close> with the \<open>lexer_peek\<close> that comes
  before each test of its condition; \<open>expr\<close> is the index in \<^verbatim>\<open>*expr\<close>. They recurse on
  the input; the fuel bounds the depth of the calls.
\<close>

fun parse_fun :: "nat \<Rightarrow> lexer \<Rightarrow> state \<Rightarrow> err + (nat option \<times> lexer \<times> state)"
  and parse_primary :: "nat \<Rightarrow> lexer \<Rightarrow> state \<Rightarrow> err + (nat option \<times> lexer \<times> state)"
  and parse_expr :: "nat \<Rightarrow> lexer \<Rightarrow> state \<Rightarrow> err + (nat option \<times> lexer \<times> state)"
  and parse_loop :: "nat \<Rightarrow> nat \<Rightarrow> lexer \<Rightarrow> state \<Rightarrow> err + (nat option \<times> lexer \<times> state)"
where
  "parse_fun 0 l s = Inl OutOfFuel"
| "parse_fun (Suc n) l s =
     (let (ok, l1) = lexer_expect l TOKEN_NAME in
      if \<not> ok then Inr (None, l1, s)
      else
        (let arg = symbol (token_string l1);
             (ok, l2) = lexer_expect l1 TOKEN_DOT
         in
         if \<not> ok then Inr (None, l2, s)
         else
           (let (ok, la) = lexer_next l2 in
            if \<not> ok then Inr (None, la, s)
            else
              (let a = token la;
                   (ok, lb) = lexer_next la
               in
               if \<not> ok then Inr (None, lb, s)
               else
                 (let b = token lb;
                      l3 = lb\<lparr>input := input l2\<rparr>
                  in
                  case (if a = TOKEN_NAME \<and> b = TOKEN_DOT then parse_fun n l3 s
                        else parse_expr n l3 s) of
                    Inl e \<Rightarrow> Inl e
                  | Inr (None, l4, s1) \<Rightarrow> Inr (None, l4, s1)
                  | Inr (Some body, l4, s1) \<Rightarrow>
                      (case fun_expr arg body s1 of
                         Inl e \<Rightarrow> Inl e
                       | Inr (expr, s2) \<Rightarrow> Inr (Some expr, l4, s2)))))))"
| "parse_primary 0 l s = Inl OutOfFuel"
| "parse_primary (Suc n) l s =
     (let (ok, l1) = lexer_next l in
      if \<not> ok then Inr (None, l1, s)
      else
        (case token l1 of
           TOKEN_OPAREN \<Rightarrow>
             (case parse_expr n l1 s of
                Inl e \<Rightarrow> Inl e
              | Inr (None, l2, s1) \<Rightarrow> Inr (None, l2, s1)
              | Inr (Some expr, l2, s1) \<Rightarrow>
                  (let (ok, l3) = lexer_expect l2 TOKEN_CPAREN
                   in if \<not> ok then Inr (None, l3, s1) else Inr (Some expr, l3, s1)))
         | TOKEN_LAMBDA \<Rightarrow> parse_fun n l1 s
         | TOKEN_MAGIC \<Rightarrow>
             (case magic (token_string l1) s of
                Inl e \<Rightarrow> Inl e
              | Inr (expr, s1) \<Rightarrow> Inr (Some expr, l1, s1))
         | TOKEN_NAME \<Rightarrow>
             (case var (symbol (token_string l1)) s of
                Inl e \<Rightarrow> Inl e
              | Inr (expr, s1) \<Rightarrow> Inr (Some expr, l1, s1))
         | _ \<Rightarrow> Inr (None, l1, s)))"
| "parse_expr 0 l s = Inl OutOfFuel"
| "parse_expr (Suc n) l s =
     (case parse_primary n l s of
        Inl e \<Rightarrow> Inl e
      | Inr (None, l1, s1) \<Rightarrow> Inr (None, l1, s1)
      | Inr (Some expr, l1, s1) \<Rightarrow> parse_loop n expr l1 s1)"
| "parse_loop 0 expr l s = Inl OutOfFuel"
| "parse_loop (Suc n) expr l s =
     (let (ok, l1) = lexer_peek l in
      if \<not> ok then Inr (None, l1, s)
      else if token l1 \<noteq> TOKEN_CPAREN \<and> token l1 \<noteq> TOKEN_END \<and> token l1 \<noteq> TOKEN_SEMICOLON then
        (case parse_primary n l1 s of
           Inl e \<Rightarrow> Inl e
         | Inr (None, l2, s1) \<Rightarrow> Inr (None, l2, s1)
         | Inr (Some rhs, l2, s1) \<Rightarrow>
             (case app expr rhs s1 of
                Inl e \<Rightarrow> Inl e
              | Inr (expr1, s2) \<Rightarrow> parse_loop n expr1 l2 s2))
      else Inr (Some expr, l1, s))"


section \<open>What the lexer does on the printed form\<close>

lemma issymbol_not_special:
  assumes "issymbol c"
  shows "\<not> isspace c" "c \<noteq> CHR 0x00" "c \<noteq> CHR ''(''" "c \<noteq> CHR '')''" "c \<noteq> CHR 0x5C"
    "c \<noteq> CHR ''.''" "c \<noteq> CHR '':''" "c \<noteq> CHR '';''" "c \<noteq> CHR ''=''" "c \<noteq> CHR ''#''"
    "c \<noteq> CHR ''/''" "c \<noteq> CHR '' ''"
  using assms by (auto simp: issymbol_def isalnum_def isspace_def Let_def)

lemma special_not_symbol [simp]:
  "\<not> issymbol (CHR '' '')" "\<not> issymbol (CHR '')'')" "\<not> issymbol (CHR ''('')"
  "\<not> issymbol (CHR ''.'')" "\<not> issymbol (CHR ''#'')" "\<not> issymbol (CHR 0x5C)"
  "\<not> issymbol (CHR '':'')"
  by (simp_all add: issymbol_def isalnum_def)

lemma special_not_space [simp]:
  "isspace (CHR '' '')" "\<not> isspace (CHR '')'')" "\<not> isspace (CHR ''('')"
  "\<not> isspace (CHR ''.'')" "\<not> isspace (CHR ''#'')" "\<not> isspace (CHR 0x5C)"
  "\<not> isspace (CHR '':'')"
  by (simp_all add: isspace_def)

lemma lexer_skip_Nil [simp]: "lexer_skip [] = []"
  by (simp add: lexer_skip.simps)

lemma lexer_skip_stay:
  "\<not> isspace c \<Longrightarrow> c \<noteq> CHR ''/'' \<Longrightarrow> lexer_skip (c # cs) = c # cs"
  by (simp add: lexer_skip.simps)

lemma lexer_skip_space [simp]: "lexer_skip (CHR '' '' # cs) = lexer_skip cs"
  by (simp add: lexer_skip.simps[of "CHR '' '' # cs"] lexer_skip.simps[of cs])

lemma lexer_symbols_run:
  "list_all issymbol str \<Longrightarrow> r = [] \<or> \<not> issymbol (hd r) \<Longrightarrow>
   lexer_symbols (str @ r) = (str, r)"
proof (induction str)
  case Nil
  then show ?case by (cases r) auto
next
  case (Cons c str)
  then show ?case by simp
qed

text \<open>What may follow a printed expression: nothing, a closing parenthesis, or a space.\<close>

definition closed :: "string \<Rightarrow> bool" where
  "closed r \<longleftrightarrow> r = [] \<or> hd r = CHR '')''"

definition delim :: "string \<Rightarrow> bool" where
  "delim r \<longleftrightarrow> r = [] \<or> hd r = CHR '')'' \<or> hd r = CHR '' ''"

lemma closed_delim: "closed r \<Longrightarrow> delim r"
  by (auto simp: closed_def delim_def)

text \<open>A name ends where the input does or at a character that is not of a name.\<close>

definition stops :: "string \<Rightarrow> bool" where
  "stops r \<longleftrightarrow> r = [] \<or> \<not> issymbol (hd r)"

lemma delim_stops: "delim r \<Longrightarrow> stops r"
  by (auto simp: delim_def stops_def)

lemma stops_Cons [simp]: "stops (c # cs) \<longleftrightarrow> \<not> issymbol c"
  by (simp add: stops_def)

definition ident :: "string \<Rightarrow> bool" where
  "ident str \<longleftrightarrow> str \<noteq> [] \<and> list_all issymbol str"

lemma lexer_next_name:
  assumes "ident name" and "stops r" and "input l = name @ r"
  shows "lexer_next l = (True, l\<lparr>input := r, token := TOKEN_NAME, token_string := name\<rparr>)"
proof -
  from assms(1) obtain c cs where n: "name = c # cs" and c: "issymbol c" and cs: "list_all issymbol cs"
    by (cases name) (auto simp: ident_def)
  note sp = issymbol_not_special[OF c]
  have sk: "lexer_skip (input l) = c # cs @ r"
    using assms(3) n sp by (simp add: lexer_skip_stay)
  have run: "lexer_symbols (cs @ r) = (cs, r)"
    using lexer_symbols_run[OF cs assms(2)[unfolded stops_def]] .
  show ?thesis
    unfolding lexer_next_def sk lexer_next_char_def using sp c run n by simp
qed

lemma lexer_next_magic:
  assumes "list_all issymbol m" and "stops r" and "input l = CHR ''#'' # m @ r"
  shows "lexer_next l = (True, l\<lparr>input := r, token := TOKEN_MAGIC, token_string := m\<rparr>)"
proof -
  have sk: "lexer_skip (input l) = CHR ''#'' # m @ r"
    using assms(3) by (simp add: lexer_skip_stay)
  have run: "lexer_symbols (m @ r) = (m, r)"
    using lexer_symbols_run[OF assms(1) assms(2)[unfolded stops_def]] .
  show ?thesis
    unfolding lexer_next_def sk lexer_next_char_def using run by simp
qed

lemma lexer_next_oparen:
  "input l = CHR ''('' # r \<Longrightarrow> lexer_next l = (True, l\<lparr>input := r, token := TOKEN_OPAREN\<rparr>)"
  by (simp add: lexer_next_def lexer_skip_stay lexer_next_char_def)

lemma lexer_next_cparen:
  "input l = CHR '')'' # r \<Longrightarrow> lexer_next l = (True, l\<lparr>input := r, token := TOKEN_CPAREN\<rparr>)"
  by (simp add: lexer_next_def lexer_skip_stay lexer_next_char_def)

lemma lexer_next_lambda:
  "input l = CHR 0x5C # r \<Longrightarrow> lexer_next l = (True, l\<lparr>input := r, token := TOKEN_LAMBDA\<rparr>)"
  by (simp add: lexer_next_def lexer_skip_stay lexer_next_char_def)

lemma lexer_next_dot:
  "input l = CHR ''.'' # r \<Longrightarrow> lexer_next l = (True, l\<lparr>input := r, token := TOKEN_DOT\<rparr>)"
  by (simp add: lexer_next_def lexer_skip_stay lexer_next_char_def)

lemma lexer_next_end:
  "input l = [] \<Longrightarrow> lexer_next l = (True, l\<lparr>input := [], token := TOKEN_END\<rparr>)"
  by (simp add: lexer_next_def lexer_next_char_def)

lemma lexer_next_space:
  "input l = CHR '' '' # r \<Longrightarrow> lexer_next l = lexer_next (l\<lparr>input := r\<rparr>)"
  by (simp add: lexer_next_def)

lemma lexer_next_symbol_kind:
  assumes "issymbol c" and "input l = c # cs"
  shows "\<exists>l'. lexer_next l = (True, l') \<and> token l' = TOKEN_NAME"
proof -
  note sp = issymbol_not_special[OF assms(1)]
  have sk: "lexer_skip (input l) = c # cs"
    using assms(2) sp by (simp add: lexer_skip_stay)
  show ?thesis
    unfolding lexer_next_def sk lexer_next_char_def using sp assms(1)
    by (simp add: case_prod_beta)
qed

lemma lexer_next_closed:
  assumes "closed r" and "input l = r"
  shows "\<exists>l'. lexer_next l = (True, l') \<and> input l' = tl r \<and>
              (token l' = TOKEN_END \<or> token l' = TOKEN_CPAREN)"
proof (cases r)
  case Nil
  then show ?thesis using lexer_next_end[of l] assms(2) by simp
next
  case (Cons c cs)
  then have "c = CHR '')''" using assms(1) by (simp add: closed_def)
  then show ?thesis using lexer_next_cparen[of l cs] assms(2) Cons by simp
qed


section \<open>The printed form of a tree\<close>

fun is_fun :: "tree \<Rightarrow> bool" where
  "is_fun (Fun p b) = True"
| "is_fun (Var v) = False"
| "is_fun (Magic m) = False"
| "is_fun (App l r) = False"

fun is_atom :: "tree \<Rightarrow> bool" where
  "is_atom (Var v) = True"
| "is_atom (Magic m) = True"
| "is_atom (Fun p b) = False"
| "is_atom (App l r) = False"

text \<open>
  What \<open>expr_display\<close> appends for the expression a tree stands for; \<open>show_body\<close> is the
  text after the backslash of a function, with the parameters of a chain of functions
  one after the other.
\<close>

fun show_tree :: "tree \<Rightarrow> string" and show_body :: "tree \<Rightarrow> string" where
  "show_tree (Var v) = show_symbol v"
| "show_tree (Magic m) = CHR ''#'' # m"
| "show_tree (Fun p b) = CHR 0x5C # show_symbol p @ ''.'' @ show_body b"
| "show_tree (App l r) =
     paren (is_fun l) (show_tree l) @ '' '' @ paren (\<not> is_atom r) (show_tree r)"
| "show_body (Fun p b) = show_symbol p @ ''.'' @ show_body b"
| "show_body (Var v) = show_symbol v"
| "show_body (Magic m) = CHR ''#'' # m"
| "show_body (App l r) =
     paren (is_fun l) (show_tree l) @ '' '' @ paren (\<not> is_atom r) (show_tree r)"

fun params_of :: "tree \<Rightarrow> string" where
  "params_of (Fun p b) = show_symbol p @ ''.'' @ params_of b"
| "params_of (Var v) = []"
| "params_of (Magic m) = []"
| "params_of (App l r) = []"

fun strip_fun :: "tree \<Rightarrow> tree" where
  "strip_fun (Fun p b) = strip_fun b"
| "strip_fun (Var v) = Var v"
| "strip_fun (Magic m) = Magic m"
| "strip_fun (App l r) = App l r"

lemma show_body_plain: "\<not> is_fun t \<Longrightarrow> show_body t = show_tree t"
  by (cases t) simp_all

lemma show_body_params: "show_body t = params_of t @ show_tree (strip_fun t)"
  by (induction t) simp_all

lemma strip_fun_size: "size (strip_fun t) \<le> size t"
  by (induction t) simp_all

lemma denotes_kind:
  assumes "denotes s i t"
  shows "\<exists>sl. expr_slot s i = Inr sl \<and>
           ((case kind sl of EXPR_FUN p b \<Rightarrow> True | _ \<Rightarrow> False) = is_fun t) \<and>
           ((case kind sl of EXPR_VAR v \<Rightarrow> False | EXPR_MAG m \<Rightarrow> False | _ \<Rightarrow> True) =
              (\<not> is_atom t))"
  using assms by (cases t) (auto simp: denotes_Var denotes_Magic denotes_Fun denotes_App)

lemma display_params_denotes:
  "denotes s e t \<Longrightarrow> size t < n \<Longrightarrow>
   \<exists>e'. display_params n e s = Inr (params_of t, e') \<and> denotes s e' (strip_fun t)"
proof (induction n arbitrary: e t)
  case 0
  then show ?case by simp
next
  case (Suc n)
  show ?case
  proof (cases t)
    case (Fun p tb)
    with Suc.prems obtain sl b where sl: "expr_slot s e = Inr sl" "kind sl = EXPR_FUN p b"
      and d: "denotes s b tb" by (auto simp: denotes_Fun)
    from Suc.IH[OF d] Suc.prems(2) Fun obtain e' where
      "display_params n b s = Inr (params_of tb, e')" "denotes s e' (strip_fun tb)" by auto
    then show ?thesis using sl Fun by auto
  next
    case (Var v)
    then have "display_params (Suc n) e s = Inr ([], e)"
      using Suc.prems by (auto simp: denotes_Var)
    then show ?thesis using Suc.prems(1) Var by simp
  next
    case (Magic m)
    then have "display_params (Suc n) e s = Inr ([], e)"
      using Suc.prems by (auto simp: denotes_Magic)
    then show ?thesis using Suc.prems(1) Magic by simp
  next
    case (App t1 t2)
    then have "display_params (Suc n) e s = Inr ([], e)"
      using Suc.prems by (auto simp: denotes_App)
    then show ?thesis using Suc.prems(1) App by simp
  qed
qed

lemma expr_display_denotes:
  "denotes s e t \<Longrightarrow> size t + 1 < n \<Longrightarrow> expr_display n e s = Inr (show_tree t)"
proof (induction n arbitrary: e t)
  case 0
  then show ?case by simp
next
  case (Suc n)
  show ?case
  proof (cases t)
    case (Fun p tb)
    with Suc.prems obtain sl b where sl: "expr_slot s e = Inr sl" "kind sl = EXPR_FUN p b"
      by (auto simp: denotes_Fun)
    from display_params_denotes[OF Suc.prems(1), of n] Suc.prems(2) obtain e' where
      1: "display_params n e s = Inr (params_of t, e')" "denotes s e' (strip_fun t)" by auto
    have "size (strip_fun t) < size t" using Fun strip_fun_size[of tb] by simp
    with Suc.IH[OF 1(2)] Suc.prems(2) have "expr_display n e' s = Inr (show_tree (strip_fun t))"
      by simp
    then show ?thesis using sl 1 Fun show_body_params[of tb] by simp
  next
    case (App t1 t2)
    with Suc.prems obtain sl l r where sl: "expr_slot s e = Inr sl" "kind sl = EXPR_APP l r"
      and d: "denotes s l t1" "denotes s r t2" by (auto simp: denotes_App)
    from denotes_kind[OF d(1)] denotes_kind[OF d(2)]
    obtain lsl rsl where ls: "expr_slot s l = Inr lsl" "expr_slot s r = Inr rsl"
      "(case kind lsl of EXPR_FUN p b \<Rightarrow> True | _ \<Rightarrow> False) = is_fun t1"
      "(case kind rsl of EXPR_VAR v \<Rightarrow> False | EXPR_MAG m \<Rightarrow> False | _ \<Rightarrow> True) = (\<not> is_atom t2)"
      by blast
    from Suc.IH[OF d(1)] Suc.IH[OF d(2)] Suc.prems(2) App have
      "expr_display n l s = Inr (show_tree t1)" "expr_display n r s = Inr (show_tree t2)" by auto
    then show ?thesis using sl ls App by simp
  qed (use Suc.prems in \<open>auto simp: denotes_Var denotes_Magic\<close>)
qed


section \<open>Parsing the printed form\<close>

text \<open>
  The trees that the parser can build: every symbol has the tag 0 and a name of the
  lexer, and every magic label is made of the characters of a name.
\<close>

fun plain :: "tree \<Rightarrow> bool" where
  "plain (Var v) \<longleftrightarrow> tag v = 0 \<and> ident (label v)"
| "plain (Magic m) \<longleftrightarrow> list_all issymbol m"
| "plain (Fun p b) \<longleftrightarrow> tag p = 0 \<and> ident (label p) \<and> plain b"
| "plain (App l r) \<longleftrightarrow> plain l \<and> plain r"

definition show_prim :: "tree \<Rightarrow> string" where
  "show_prim t = paren (\<not> is_atom t) (show_tree t)"

text \<open>The number of arguments that the loop of \<open>parse_expr\<close> collects for a tree.\<close>

fun spine :: "tree \<Rightarrow> nat" where
  "spine (App l r) = Suc (spine l)"
| "spine (Var v) = 0"
| "spine (Magic m) = 0"
| "spine (Fun p b) = 0"

lemma spine_size: "spine t \<le> size t"
  by (induction t) simp_all

definition good :: "state \<Rightarrow> tree \<Rightarrow> string \<Rightarrow> nat \<Rightarrow> lexer \<Rightarrow> state \<Rightarrow> bool" where
  "good s t rest j l' s' \<longleftrightarrow>
     denotes s' j t \<and> input l' = rest \<and> keeps_live s s' \<and> dead_ok s'"

lemma new_node:
  assumes "dead_ok s"
  obtains i s' where "new_expr k s = Inr (i, s')" "dead_ok s'" "keeps_live s s'"
  using new_expr_total[OF assms, of k] new_expr_Inr(1) by blast

lemma symbol_label: "tag v = 0 \<Longrightarrow> symbol (label v) = v"
  by (cases v) (simp add: symbol_def)

lemma show_symbol_plain: "tag v = 0 \<Longrightarrow> show_symbol v = label v"
  by (simp add: show_symbol_def)

lemma parse_primary_Var:
  assumes "dead_ok s" and "plain (Var v)" and "stops rest" and "input l = show_tree (Var v) @ rest"
  shows "\<exists>j l' s'. parse_primary (Suc n) l s = Inr (Some j, l', s') \<and> good s (Var v) rest j l' s'"
proof -
  from assms(2) have v: "tag v = 0" "ident (label v)" by simp_all
  have inp: "input l = label v @ rest" using assms(4) v by (simp add: show_symbol_plain)
  note nx = lexer_next_name[OF v(2) assms(3) inp]
  obtain i s' where n: "new_expr (EXPR_VAR v) s = Inr (i, s')" "dead_ok s'" "keeps_live s s'"
    using assms(1) by (rule new_node)
  have "parse_primary (Suc n) l s =
        Inr (Some i, l\<lparr>input := rest, token := TOKEN_NAME, token_string := label v\<rparr>, s')"
    using nx n(1) by (simp add: var_def symbol_label[OF v(1)])
  then show ?thesis using n new_expr_denotes_Var[OF n(1)] by (auto simp: good_def)
qed

lemma parse_primary_Magic:
  assumes "dead_ok s" and "plain (Magic m)" and "stops rest"
    and "input l = show_tree (Magic m) @ rest"
  shows "\<exists>j l' s'. parse_primary (Suc n) l s = Inr (Some j, l', s') \<and> good s (Magic m) rest j l' s'"
proof -
  from assms(2) have m: "list_all issymbol m" by simp
  have inp: "input l = CHR ''#'' # m @ rest" using assms(4) by simp
  note nx = lexer_next_magic[OF m assms(3) inp]
  obtain i s' where n: "new_expr (EXPR_MAG m) s = Inr (i, s')" "dead_ok s'" "keeps_live s s'"
    using assms(1) by (rule new_node)
  have "parse_primary (Suc n) l s =
        Inr (Some i, l\<lparr>input := rest, token := TOKEN_MAGIC, token_string := m\<rparr>, s')"
    using nx n(1) by (simp add: magic_def)
  then show ?thesis using n new_expr_denotes_Magic[OF n(1)] by (auto simp: good_def)
qed


lemma lexer_next_magic_kind:
  assumes "input l = CHR ''#'' # cs"
  shows "\<exists>l'. lexer_next l = (True, l') \<and> token l' = TOKEN_MAGIC"
proof -
  have sk: "lexer_skip (input l) = CHR ''#'' # cs"
    using assms by (simp add: lexer_skip_stay)
  show ?thesis
    unfolding lexer_next_def sk lexer_next_char_def by (simp add: case_prod_beta)
qed

lemma ident_Cons: "ident str \<Longrightarrow> \<exists>c cs. str = c # cs \<and> issymbol c"
  by (cases str) (auto simp: ident_def)

text \<open>The first token of a printed argument opens a parenthesis or is a name or a magic.\<close>

lemma first_token:
  assumes "plain r" and "input l = show_prim r @ rest"
  shows "\<exists>l'. lexer_next l = (True, l') \<and>
           (token l' = TOKEN_OPAREN \<or> token l' = TOKEN_NAME \<or> token l' = TOKEN_MAGIC)"
proof (cases r)
  case (Var v)
  with assms obtain c cs where "input l = c # cs" "issymbol c"
    using ident_Cons[of "label v"] by (auto simp: show_prim_def paren_def show_symbol_plain)
  from lexer_next_symbol_kind[OF this(2,1)] show ?thesis by blast
next
  case (Magic m)
  with assms have "input l = CHR ''#'' # m @ rest" by (simp add: show_prim_def paren_def)
  from lexer_next_magic_kind[OF this] show ?thesis by blast
next
  case (Fun p b)
  with assms have "\<exists>cs. input l = CHR ''('' # cs" by (simp add: show_prim_def paren_def)
  then show ?thesis using lexer_next_oparen by auto
next
  case (App a b)
  with assms have "\<exists>cs. input l = CHR ''('' # cs" by (simp add: show_prim_def paren_def)
  then show ?thesis using lexer_next_oparen by auto
qed

lemma parse_primary_space:
  "input l = CHR '' '' # r \<Longrightarrow> parse_primary n l s = parse_primary n (l\<lparr>input := r\<rparr>) s"
  by (cases n) (simp_all add: lexer_next_space)

text \<open>The loop stops where the printed expression is closed.\<close>

lemma parse_loop_exit:
  assumes "closed rest" and "input l = rest"
  shows "\<exists>l'. parse_loop (Suc m) j l s = Inr (Some j, l', s) \<and> input l' = rest"
proof -
  from lexer_next_closed[OF assms] obtain l1 where
    "lexer_next l = (True, l1)" "token l1 = TOKEN_END \<or> token l1 = TOKEN_CPAREN" by blast
  then show ?thesis using assms(2) by (auto simp: lexer_peek_def)
qed

definition primary_ok :: "tree \<Rightarrow> bool" where
  "primary_ok t \<longleftrightarrow>
     (\<forall>n l s rest. dead_ok s \<longrightarrow> delim rest \<longrightarrow> input l = show_prim t @ rest \<longrightarrow>
        4 * size t + 3 \<le> n \<longrightarrow>
        (\<exists>j l' s'. parse_primary n l s = Inr (Some j, l', s') \<and> good s t rest j l' s'))"

definition expr_ok :: "tree \<Rightarrow> bool" where
  "expr_ok t \<longleftrightarrow>
     (\<forall>n l s rest. dead_ok s \<longrightarrow> delim rest \<longrightarrow> (is_fun t \<longrightarrow> closed rest) \<longrightarrow>
        input l = show_tree t @ rest \<longrightarrow> 4 * size t + 2 \<le> n \<longrightarrow>
        (\<exists>j l' s'. parse_expr n l s = parse_loop (n - 1 - spine t) j l' s' \<and>
                   good s t rest j l' s'))"

definition fun_ok :: "tree \<Rightarrow> bool" where
  "fun_ok t \<longleftrightarrow>
     (\<forall>n l s rest. dead_ok s \<longrightarrow> closed rest \<longrightarrow> input l = show_body t @ rest \<longrightarrow>
        4 * size t \<le> n + 1 \<longrightarrow>
        (\<exists>j l' s'. parse_fun n l s = Inr (Some j, l', s') \<and> good s t rest j l' s'))"

text \<open>One turn of the loop: a space and a printed argument.\<close>

lemma parse_loop_step:
  assumes r: "primary_ok r" "plain r" and s: "dead_ok s" and j: "denotes s j t"
    and rest: "delim rest" and inp: "input l = CHR '' '' # show_prim r @ rest"
    and m: "4 * size r + 3 \<le> m"
  shows "\<exists>j' l' s'. parse_loop (Suc m) j l s = parse_loop m j' l' s' \<and>
           good s (App t r) rest j' l' s'"
proof -
  have "lexer_next l = lexer_next (l\<lparr>input := show_prim r @ rest\<rparr>)"
    using inp by (rule lexer_next_space)
  with first_token[OF r(2), of "l\<lparr>input := show_prim r @ rest\<rparr>" rest] obtain l1 where
    l1: "lexer_next l = (True, l1)"
      "token l1 = TOKEN_OPAREN \<or> token l1 = TOKEN_NAME \<or> token l1 = TOKEN_MAGIC"
    by auto
  define l2 where "l2 = l1\<lparr>input := input l\<rparr>"
  have pk: "lexer_peek l = (True, l2)" by (simp add: lexer_peek_def l1 l2_def)
  have tk: "token l2 \<noteq> TOKEN_CPAREN \<and> token l2 \<noteq> TOKEN_END \<and> token l2 \<noteq> TOKEN_SEMICOLON"
    using l1(2) by (auto simp: l2_def)
  have "input l2 = CHR '' '' # show_prim r @ rest" by (simp add: l2_def inp)
  then have sp: "parse_primary m l2 s = parse_primary m (l2\<lparr>input := show_prim r @ rest\<rparr>) s"
    by (rule parse_primary_space)
  from r(1)[unfolded primary_ok_def, rule_format, OF s rest _ m,
      of "l2\<lparr>input := show_prim r @ rest\<rparr>"]
  obtain jr l3 s1 where
    p: "parse_primary m l2 s = Inr (Some jr, l3, s1)" and g: "good s r rest jr l3 s1"
    unfolding sp by auto
  from g have g1: "denotes s1 jr r" "input l3 = rest" "keeps_live s s1" "dead_ok s1"
    by (simp_all add: good_def)
  obtain i s2 where n: "new_expr (EXPR_APP j jr) s1 = Inr (i, s2)" "dead_ok s2" "keeps_live s1 s2"
    using g1(4) by (rule new_node)
  have d: "denotes s2 i (App t r)"
    using new_expr_denotes_App[OF n(1) denotes_keeps_live[OF g1(3) j] g1(1)] .
  have "parse_loop (Suc m) j l s = parse_loop m i l3 s2"
    using pk tk p n(1) by (simp add: app_def)
  then show ?thesis
    using d g1(2) n(2) keeps_live_trans[OF g1(3) n(3)] by (auto simp: good_def)
qed


lemma primary_ok_Var: "plain (Var v) \<Longrightarrow> primary_ok (Var v)"
  unfolding primary_ok_def
proof (intro allI impI)
  fix n :: nat and l :: lexer and s :: state and rest :: string
  assume a: "plain (Var v)" "dead_ok s" "delim rest" "input l = show_prim (Var v) @ rest"
    "4 * size (Var v) + 3 \<le> n"
  then obtain n' where n: "n = Suc n'" by (cases n) auto
  have "input l = show_tree (Var v) @ rest" using a(4) by (simp add: show_prim_def paren_def)
  from parse_primary_Var[OF a(2) a(1) delim_stops[OF a(3)] this, of n']
  show "\<exists>j l' s'. parse_primary n l s = Inr (Some j, l', s') \<and> good s (Var v) rest j l' s'"
    unfolding n .
qed

lemma primary_ok_Magic: "plain (Magic m) \<Longrightarrow> primary_ok (Magic m)"
  unfolding primary_ok_def
proof (intro allI impI)
  fix n :: nat and l :: lexer and s :: state and rest :: string
  assume a: "plain (Magic m)" "dead_ok s" "delim rest" "input l = show_prim (Magic m) @ rest"
    "4 * size (Magic m) + 3 \<le> n"
  then obtain n' where n: "n = Suc n'" by (cases n) auto
  have "input l = show_tree (Magic m) @ rest" using a(4) by (simp add: show_prim_def paren_def)
  from parse_primary_Magic[OF a(2) a(1) delim_stops[OF a(3)] this, of n']
  show "\<exists>j l' s'. parse_primary n l s = Inr (Some j, l', s') \<and> good s (Magic m) rest j l' s'"
    unfolding n .
qed

lemma expr_ok_Var: "plain (Var v) \<Longrightarrow> expr_ok (Var v)"
  unfolding expr_ok_def
proof (intro allI impI)
  fix n :: nat and l :: lexer and s :: state and rest :: string
  assume a: "plain (Var v)" "dead_ok s" "delim rest" "input l = show_tree (Var v) @ rest"
    "4 * size (Var v) + 2 \<le> n"
  then obtain n' where n: "n = Suc (Suc n')" by (cases n; cases "n - 1") auto
  from parse_primary_Var[OF a(2) a(1) delim_stops[OF a(3)] a(4), of n']
  obtain j l' s' where
    pp: "parse_primary (Suc n') l s = Inr (Some j, l', s')" and g: "good s (Var v) rest j l' s'"
    by blast
  have "parse_expr n l s = parse_loop (n - 1 - spine (Var v)) j l' s'"
    unfolding n using pp by (simp del: parse_loop.simps parse_primary.simps)
  with g show "\<exists>j l' s'. parse_expr n l s = parse_loop (n - 1 - spine (Var v)) j l' s' \<and>
          good s (Var v) rest j l' s'"
    by blast
qed

lemma expr_ok_Magic: "plain (Magic m) \<Longrightarrow> expr_ok (Magic m)"
  unfolding expr_ok_def
proof (intro allI impI)
  fix n :: nat and l :: lexer and s :: state and rest :: string
  assume a: "plain (Magic m)" "dead_ok s" "delim rest" "input l = show_tree (Magic m) @ rest"
    "4 * size (Magic m) + 2 \<le> n"
  then obtain n' where n: "n = Suc (Suc n')" by (cases n; cases "n - 1") auto
  from parse_primary_Magic[OF a(2) a(1) delim_stops[OF a(3)] a(4), of n']
  obtain j l' s' where
    pp: "parse_primary (Suc n') l s = Inr (Some j, l', s')" and g: "good s (Magic m) rest j l' s'"
    by blast
  have "parse_expr n l s = parse_loop (n - 1 - spine (Magic m)) j l' s'"
    unfolding n using pp by (simp del: parse_loop.simps parse_primary.simps)
  with g show "\<exists>j l' s'. parse_expr n l s = parse_loop (n - 1 - spine (Magic m)) j l' s' \<and>
          good s (Magic m) rest j l' s'"
    by blast
qed

text \<open>An expression printed between parentheses is parsed as the expression is.\<close>

lemma primary_ok_paren:
  assumes "\<not> is_atom t" and "expr_ok t"
  shows "primary_ok t"
  unfolding primary_ok_def
proof (intro allI impI)
  fix n :: nat and l :: lexer and s :: state and rest :: string
  assume a: "dead_ok s" "delim rest" "input l = show_prim t @ rest" "4 * size t + 3 \<le> n"
  then obtain n' where n: "n = Suc n'" and n': "4 * size t + 2 \<le> n'" by (cases n) auto
  have inp: "input l = CHR ''('' # show_tree t @ CHR '')'' # rest"
    using a(3) assms(1) by (simp add: show_prim_def paren_def)
  define l1 where "l1 = l\<lparr>input := show_tree t @ CHR '')'' # rest, token := TOKEN_OPAREN\<rparr>"
  have nx: "lexer_next l = (True, l1)" unfolding l1_def using inp by (rule lexer_next_oparen)
  have c: "closed (CHR '')'' # rest)" by (simp add: closed_def)
  from assms(2)[unfolded expr_ok_def, rule_format, OF a(1) closed_delim[OF c] _ _ n', of l1] c
  obtain j l2 s1 where
    e: "parse_expr n' l1 s = parse_loop (n' - 1 - spine t) j l2 s1" and
    g: "good s t (CHR '')'' # rest) j l2 s1"
    by (auto simp: l1_def)
  have "n' - 1 - spine t \<noteq> 0" using n' spine_size[of t] by simp
  then obtain k where k: "n' - 1 - spine t = Suc k" by (cases "n' - 1 - spine t") auto
  from g have i2: "input l2 = CHR '')'' # rest" by (simp add: good_def)
  from parse_loop_exit[OF c i2, of k j s1] obtain l3 where
    x: "parse_loop (Suc k) j l2 s1 = Inr (Some j, l3, s1)" and i3: "input l3 = CHR '')'' # rest"
    by blast
  have ex: "lexer_expect l3 TOKEN_CPAREN = (True, l3\<lparr>input := rest, token := TOKEN_CPAREN\<rparr>)"
    using lexer_next_cparen[OF i3] by (simp add: lexer_expect_def)
  have "parse_primary n l s = Inr (Some j, l3\<lparr>input := rest, token := TOKEN_CPAREN\<rparr>, s1)"
    unfolding n using nx e k x ex by (simp add: l1_def)
  then show "\<exists>j l' s'. parse_primary n l s = Inr (Some j, l', s') \<and> good s t rest j l' s'"
    using g by (auto simp: good_def)
qed

lemma expr_ok_App:
  assumes p: "plain (App ta tb)" and el: "expr_ok ta" and pl: "primary_ok ta"
    and pr: "primary_ok tb"
  shows "expr_ok (App ta tb)"
  unfolding expr_ok_def
proof (intro allI impI)
  fix n :: nat and l :: lexer and s :: state and rest :: string
  assume a: "dead_ok s" "delim rest" "input l = show_tree (App ta tb) @ rest"
    "4 * size (App ta tb) + 2 \<le> n"
  from p have pt: "plain ta" "plain tb" by simp_all
  have d': "delim (CHR '' '' # show_prim tb @ rest)" by (simp add: delim_def)
  have "\<exists>j l1 s1. parse_expr n l s = parse_loop (n - 1 - spine ta) j l1 s1 \<and>
          good s ta (CHR '' '' # show_prim tb @ rest) j l1 s1"
  proof (cases "\<exists>a b. ta = App a b")
    case True
    then have nf: "\<not> is_fun ta" by auto
    have inp: "input l = show_tree ta @ CHR '' '' # show_prim tb @ rest"
      using a(3) nf by (simp add: show_prim_def paren_def)
    have "4 * size ta + 2 \<le> n" using a(4) by simp
    from el[unfolded expr_ok_def, rule_format, OF a(1) d' _ inp this] nf
    show ?thesis by simp
  next
    case False
    then have sh: "paren (is_fun ta) (show_tree ta) = show_prim ta" and sp: "spine ta = 0"
      by (cases ta; simp add: show_prim_def)+
    have inp: "input l = show_prim ta @ CHR '' '' # show_prim tb @ rest"
      using a(3) sh by (simp add: show_prim_def[of tb])
    obtain n' where n: "n = Suc n'" and n': "4 * size ta + 3 \<le> n'"
      using a(4) by (cases n) auto
    from pl[unfolded primary_ok_def, rule_format, OF a(1) d' inp n']
    obtain j l1 s1 where
      pp: "parse_primary n' l s = Inr (Some j, l1, s1)" and
      g: "good s ta (CHR '' '' # show_prim tb @ rest) j l1 s1"
      by blast
    have "parse_expr n l s = parse_loop (n - 1 - spine ta) j l1 s1"
      unfolding n sp using pp by (simp del: parse_loop.simps parse_primary.simps)
    with g show ?thesis by blast
  qed
  then obtain j l1 s1 where
    e: "parse_expr n l s = parse_loop (n - 1 - spine ta) j l1 s1" and
    g: "good s ta (CHR '' '' # show_prim tb @ rest) j l1 s1"
    by blast
  from g have g1: "denotes s1 j ta" "input l1 = CHR '' '' # show_prim tb @ rest"
    "keeps_live s s1" "dead_ok s1"
    by (simp_all add: good_def)
  have "4 * size tb + 3 < n - 1 - spine ta" using a(4) spine_size[of ta] by simp
  then obtain m where m: "n - 1 - spine ta = Suc m" and m': "4 * size tb + 3 \<le> m"
    by (cases "n - 1 - spine ta") auto
  from parse_loop_step[OF pr pt(2) g1(4) g1(1) a(2) g1(2) m']
  obtain j' l' s' where
    st: "parse_loop (Suc m) j l1 s1 = parse_loop m j' l' s'" and
    g': "good s1 (App ta tb) rest j' l' s'"
    by blast
  have "m = n - 1 - spine (App ta tb)" using m by simp
  then have "parse_expr n l s = parse_loop (n - 1 - spine (App ta tb)) j' l' s'"
    using e m st by simp
  moreover have "good s (App ta tb) rest j' l' s'"
    using g' keeps_live_trans[OF g1(3)] by (auto simp: good_def)
  ultimately show "\<exists>j l' s'. parse_expr n l s = parse_loop (n - 1 - spine (App ta tb)) j l' s' \<and>
                     good s (App ta tb) rest j l' s'"
    by blast
qed


text \<open>
  The two tokens that \<open>parse_fun\<close> reads ahead: they are a name and a dot exactly when the
  body is a function.
\<close>

lemma first_two_App:
  "plain a \<Longrightarrow> plain r \<Longrightarrow> input l = show_tree (App a r) @ rest \<Longrightarrow>
   \<exists>la lb. lexer_next l = (True, la) \<and> lexer_next la = (True, lb) \<and> token lb \<noteq> TOKEN_DOT"
proof (induction a arbitrary: r rest l)
  case (Var v)
  then have v: "tag v = 0" "ident (label v)" by simp_all
  have inp: "input l = label v @ CHR '' '' # show_prim r @ rest"
    using Var.prems(3) v by (simp add: show_symbol_plain paren_def show_prim_def)
  define la where
    "la = l\<lparr>input := CHR '' '' # show_prim r @ rest, token := TOKEN_NAME,
             token_string := label v\<rparr>"
  have 1: "lexer_next l = (True, la)"
    unfolding la_def by (rule lexer_next_name[OF v(2) _ inp]) simp
  have "lexer_next la = lexer_next (la\<lparr>input := show_prim r @ rest\<rparr>)"
    by (rule lexer_next_space) (simp add: la_def)
  with first_token[OF Var.prems(2), of "la\<lparr>input := show_prim r @ rest\<rparr>" rest]
  obtain lb where "lexer_next la = (True, lb)" "token lb \<noteq> TOKEN_DOT" by auto
  with 1 show ?case by blast
next
  case (Magic m)
  then have m: "list_all issymbol m" by simp
  have inp: "input l = CHR ''#'' # m @ CHR '' '' # show_prim r @ rest"
    using Magic.prems(3) by (simp add: paren_def show_prim_def)
  define la where
    "la = l\<lparr>input := CHR '' '' # show_prim r @ rest, token := TOKEN_MAGIC, token_string := m\<rparr>"
  have 1: "lexer_next l = (True, la)"
    unfolding la_def by (rule lexer_next_magic[OF m _ inp]) simp
  have "lexer_next la = lexer_next (la\<lparr>input := show_prim r @ rest\<rparr>)"
    by (rule lexer_next_space) (simp add: la_def)
  with first_token[OF Magic.prems(2), of "la\<lparr>input := show_prim r @ rest\<rparr>" rest]
  obtain lb where "lexer_next la = (True, lb)" "token lb \<noteq> TOKEN_DOT" by auto
  with 1 show ?case by blast
next
  case (Fun p b)
  then obtain cs where inp: "input l = CHR ''('' # CHR 0x5C # cs"
    by (simp add: paren_def)
  have 1: "lexer_next l = (True, l\<lparr>input := CHR 0x5C # cs, token := TOKEN_OPAREN\<rparr>)"
    using inp by (rule lexer_next_oparen)
  have "lexer_next (l\<lparr>input := CHR 0x5C # cs, token := TOKEN_OPAREN\<rparr>) =
        (True, l\<lparr>input := cs, token := TOKEN_LAMBDA\<rparr>)"
    using lexer_next_lambda[of "l\<lparr>input := CHR 0x5C # cs, token := TOKEN_OPAREN\<rparr>" cs] by simp
  with 1 show ?case by simp
next
  case (App a1 a2)
  have "input l = show_tree (App a1 a2) @ (CHR '' '' # paren (\<not> is_atom r) (show_tree r) @ rest)"
    using App.prems(3) by (simp add: paren_def)
  from App.IH(1)[OF _ _ this] App.prems(1) show ?case by simp
qed

lemma lookahead_plain:
  assumes "plain b" and "\<not> is_fun b" and "closed rest" and "input l = show_tree b @ rest"
  shows "\<exists>la lb. lexer_next l = (True, la) \<and> lexer_next la = (True, lb) \<and>
           \<not> (token la = TOKEN_NAME \<and> token lb = TOKEN_DOT)"
proof (cases b)
  case (Var v)
  with assms have v: "tag v = 0" "ident (label v)" by simp_all
  have inp: "input l = label v @ rest" using assms(4) Var v by (simp add: show_symbol_plain)
  define la where "la = l\<lparr>input := rest, token := TOKEN_NAME, token_string := label v\<rparr>"
  have 1: "lexer_next l = (True, la)"
    unfolding la_def
    by (rule lexer_next_name[OF v(2) delim_stops[OF closed_delim[OF assms(3)]] inp])
  from lexer_next_closed[OF assms(3), of la] obtain lb where
    "lexer_next la = (True, lb)" "token lb = TOKEN_END \<or> token lb = TOKEN_CPAREN"
    by (auto simp: la_def)
  with 1 show ?thesis by auto
next
  case (Magic m)
  with assms have m: "list_all issymbol m" by simp
  have inp: "input l = CHR ''#'' # m @ rest" using assms(4) Magic by simp
  define la where "la = l\<lparr>input := rest, token := TOKEN_MAGIC, token_string := m\<rparr>"
  have 1: "lexer_next l = (True, la)"
    unfolding la_def
    by (rule lexer_next_magic[OF m delim_stops[OF closed_delim[OF assms(3)]] inp])
  from lexer_next_closed[OF assms(3), of la] obtain lb where
    "lexer_next la = (True, lb)" by (auto simp: la_def)
  with 1 show ?thesis by (auto simp: la_def)
next
  case (Fun p t)
  with assms(2) show ?thesis by simp
next
  case (App a r)
  with assms first_two_App[of a r l rest] show ?thesis by auto
qed

lemma lookahead_fun:
  assumes "plain (Fun q b)" and "input l = show_body (Fun q b) @ rest"
  shows "\<exists>la lb. lexer_next l = (True, la) \<and> lexer_next la = (True, lb) \<and>
           token la = TOKEN_NAME \<and> token lb = TOKEN_DOT"
proof -
  from assms(1) have q: "tag q = 0" "ident (label q)" by simp_all
  have inp: "input l = label q @ CHR ''.'' # show_body b @ rest"
    using assms(2) q by (simp add: show_symbol_plain)
  define la where
    "la = l\<lparr>input := CHR ''.'' # show_body b @ rest, token := TOKEN_NAME,
             token_string := label q\<rparr>"
  have 1: "lexer_next l = (True, la)"
    unfolding la_def by (rule lexer_next_name[OF q(2) _ inp]) simp
  have "lexer_next la = (True, la\<lparr>input := show_body b @ rest, token := TOKEN_DOT\<rparr>)"
    by (rule lexer_next_dot) (simp add: la_def)
  with 1 show ?thesis by (simp add: la_def)
qed


lemma fun_ok_Fun:
  assumes p: "plain (Fun p b)" and eb: "expr_ok b" and fb: "is_fun b \<longrightarrow> fun_ok b"
  shows "fun_ok (Fun p b)"
  unfolding fun_ok_def
proof (intro allI impI)
  fix n :: nat and l :: lexer and s :: state and rest :: string
  assume a: "dead_ok s" "closed rest" "input l = show_body (Fun p b) @ rest"
    "4 * size (Fun p b) \<le> n + 1"
  from p have pp: "tag p = 0" "ident (label p)" "plain b" by simp_all
  obtain m where n: "n = Suc m" and m: "4 * size b + 2 \<le> m" using a(4) by (cases n) auto
  have inp: "input l = label p @ CHR ''.'' # show_body b @ rest"
    using a(3) pp by (simp add: show_symbol_plain)
  define l1 where
    "l1 = l\<lparr>input := CHR ''.'' # show_body b @ rest, token := TOKEN_NAME,
             token_string := label p\<rparr>"
  define l2 where "l2 = l1\<lparr>input := show_body b @ rest, token := TOKEN_DOT\<rparr>"
  have "lexer_next l = (True, l1)"
    unfolding l1_def by (rule lexer_next_name[OF pp(2) _ inp]) simp
  then have x1: "lexer_expect l TOKEN_NAME = (True, l1)"
    by (simp add: lexer_expect_def l1_def)
  have "lexer_next l1 = (True, l2)"
    unfolding l2_def by (rule lexer_next_dot) (simp add: l1_def)
  then have x2: "lexer_expect l1 TOKEN_DOT = (True, l2)"
    by (simp add: lexer_expect_def l2_def)
  have i2: "input l2 = show_body b @ rest" by (simp add: l2_def)
  have sy: "symbol (token_string l1) = p" using symbol_label[OF pp(1)] by (simp add: l1_def)
  have "\<exists>la lb j l4 s1. lexer_next l2 = (True, la) \<and> lexer_next la = (True, lb) \<and>
          (if token la = TOKEN_NAME \<and> token lb = TOKEN_DOT
           then parse_fun m (lb\<lparr>input := input l2\<rparr>) s
           else parse_expr m (lb\<lparr>input := input l2\<rparr>) s) = Inr (Some j, l4, s1) \<and>
          good s b rest j l4 s1"
  proof (cases "is_fun b")
    case True
    then obtain q b' where b: "b = Fun q b'" by (cases b) auto
    from lookahead_fun[OF pp(3)[unfolded b] i2[unfolded b]] obtain la lb where
      la: "lexer_next l2 = (True, la)" "lexer_next la = (True, lb)"
        "token la = TOKEN_NAME" "token lb = TOKEN_DOT"
      by blast
    have "4 * size b \<le> m + 1" using m by simp
    from fb[rule_format, OF True, unfolded fun_ok_def, rule_format, OF a(1) a(2) _ this,
        of "lb\<lparr>input := input l2\<rparr>"] i2
    obtain j l4 s1 where
      "parse_fun m (lb\<lparr>input := input l2\<rparr>) s = Inr (Some j, l4, s1)" "good s b rest j l4 s1"
      by auto
    with la show ?thesis by auto
  next
    case False
    have i2': "input l2 = show_tree b @ rest" using i2 show_body_plain[OF False] by simp
    from lookahead_plain[OF pp(3) False a(2) i2'] obtain la lb where
      la: "lexer_next l2 = (True, la)" "lexer_next la = (True, lb)"
        "\<not> (token la = TOKEN_NAME \<and> token lb = TOKEN_DOT)"
      by blast
    from eb[unfolded expr_ok_def, rule_format, OF a(1) closed_delim[OF a(2)] _ _ m,
        of "lb\<lparr>input := input l2\<rparr>"] False i2'
    obtain j l' s1 where
      e: "parse_expr m (lb\<lparr>input := input l2\<rparr>) s = parse_loop (m - 1 - spine b) j l' s1" and
      g: "good s b rest j l' s1"
      by auto
    have "m - 1 - spine b \<noteq> 0" using m spine_size[of b] by simp
    then obtain k where k: "m - 1 - spine b = Suc k" by (cases "m - 1 - spine b") auto
    from g have "input l' = rest" by (simp add: good_def)
    from parse_loop_exit[OF a(2) this, of k j s1] obtain l4 where
      "parse_loop (Suc k) j l' s1 = Inr (Some j, l4, s1)" "input l4 = rest" by blast
    with e k g have "parse_expr m (lb\<lparr>input := input l2\<rparr>) s = Inr (Some j, l4, s1)"
      "good s b rest j l4 s1"
      by (simp_all add: good_def)
    with la show ?thesis by auto
  qed
  then obtain la lb j l4 s1 where
    la: "lexer_next l2 = (True, la)" "lexer_next la = (True, lb)" and
    body: "(if token la = TOKEN_NAME \<and> token lb = TOKEN_DOT
            then parse_fun m (lb\<lparr>input := input l2\<rparr>) s
            else parse_expr m (lb\<lparr>input := input l2\<rparr>) s) = Inr (Some j, l4, s1)" and
    g: "good s b rest j l4 s1"
    by blast
  from g have g1: "denotes s1 j b" "input l4 = rest" "keeps_live s s1" "dead_ok s1"
    by (simp_all add: good_def)
  obtain i s2 where nw: "new_expr (EXPR_FUN p j) s1 = Inr (i, s2)" "dead_ok s2" "keeps_live s1 s2"
    using g1(4) by (rule new_node)
  have "parse_fun (Suc m) l s = Inr (Some i, l4, s2)"
    unfolding parse_fun.simps x1 prod.case Let_def x2 la sy body
    using nw(1) by (simp add: fun_expr_def)
  moreover have "good s (Fun p b) rest i l4 s2"
    using new_expr_denotes_Fun[OF nw(1) g1(1)] g1(2) nw(2) keeps_live_trans[OF g1(3) nw(3)]
    by (simp add: good_def)
  ultimately show "\<exists>j l' s'. parse_fun n l s = Inr (Some j, l', s') \<and>
                     good s (Fun p b) rest j l' s'"
    unfolding n by blast
qed

lemma expr_ok_Fun:
  assumes "fun_ok (Fun p b)"
  shows "expr_ok (Fun p b)"
  unfolding expr_ok_def
proof (intro allI impI)
  fix n :: nat and l :: lexer and s :: state and rest :: string
  assume a: "dead_ok s" "delim rest" "is_fun (Fun p b) \<longrightarrow> closed rest"
    "input l = show_tree (Fun p b) @ rest" "4 * size (Fun p b) + 2 \<le> n"
  then have c: "closed rest" by simp
  obtain m where n: "n = Suc (Suc m)" and m: "4 * size (Fun p b) \<le> m + 1"
    using a(5) by (cases n; cases "n - 1") auto
  have inp: "input l = CHR 0x5C # show_body (Fun p b) @ rest" using a(4) by simp
  define l1 where "l1 = l\<lparr>input := show_body (Fun p b) @ rest, token := TOKEN_LAMBDA\<rparr>"
  have nx: "lexer_next l = (True, l1)" unfolding l1_def using inp by (rule lexer_next_lambda)
  from assms[unfolded fun_ok_def, rule_format, OF a(1) c _ m, of l1]
  obtain j l' s' where
    pf: "parse_fun m l1 s = Inr (Some j, l', s')" and g: "good s (Fun p b) rest j l' s'"
    by (auto simp: l1_def)
  have "parse_primary (Suc m) l s = Inr (Some j, l', s')"
    using nx pf by (simp add: l1_def)
  then have "parse_expr n l s = parse_loop (n - 1 - spine (Fun p b)) j l' s'"
    unfolding n by (simp del: parse_loop.simps parse_primary.simps)
  with g show "\<exists>j l' s'. parse_expr n l s = parse_loop (n - 1 - spine (Fun p b)) j l' s' \<and>
                 good s (Fun p b) rest j l' s'"
    by blast
qed

lemma parse_ok: "plain t \<Longrightarrow> expr_ok t \<and> primary_ok t \<and> (is_fun t \<longrightarrow> fun_ok t)"
proof (induction t)
  case (Var v)
  then show ?case using expr_ok_Var primary_ok_Var by simp
next
  case (Magic m)
  then show ?case using expr_ok_Magic primary_ok_Magic by simp
next
  case (Fun p b)
  then have b: "expr_ok b" "is_fun b \<longrightarrow> fun_ok b" by simp_all
  have f: "fun_ok (Fun p b)" using fun_ok_Fun[OF Fun.prems b] .
  have e: "expr_ok (Fun p b)" using expr_ok_Fun[OF f] .
  show ?case using f e primary_ok_paren[OF _ e] by simp
next
  case (App a b)
  then have ih: "expr_ok a" "primary_ok a" "primary_ok b" by simp_all
  have e: "expr_ok (App a b)" using expr_ok_App[OF App.prems ih] .
  show ?case using e primary_ok_paren[OF _ e] by simp
qed


text \<open>
  C6, amended. Take an expression of a sound arena whose symbols all have the tag 0 and
  a name of the lexer (a non-empty run of letters, digits and underscores), and whose
  magic labels are runs of such characters: what the parser builds. Then, with fuel
  beyond the size of its tree for the printer and four times that size for the parser,
  \<open>expr_display\<close> returns a string, and \<open>parse_expr\<close> on that string returns \<^verbatim>\<open>true\<close> with
  the whole input consumed and an index that stands for the same tree as the expression
  printed, which still stands for it.
\<close>

theorem parse_display_untagged:
  assumes "dead_ok s" and "denotes s e t" and "plain t" and "size t + 1 < n"
    and "4 * size t + 2 \<le> m"
  shows "\<exists>str e' l' s'. expr_display n e s = Inr str \<and>
           parse_expr m (lexer_init str) s = Inr (Some e', l', s') \<and>
           denotes s' e' t \<and> denotes s' e t \<and> input l' = []"
proof -
  have d: "expr_display n e s = Inr (show_tree t)"
    using expr_display_denotes[OF assms(2,4)] .
  have c: "closed []" by (simp add: closed_def)
  from parse_ok[OF assms(3)] have "expr_ok t" by simp
  from this[unfolded expr_ok_def, rule_format, OF assms(1) closed_delim[OF c] _ _ assms(5),
      of "lexer_init (show_tree t)"] c
  obtain j l1 s1 where
    e: "parse_expr m (lexer_init (show_tree t)) s = parse_loop (m - 1 - spine t) j l1 s1" and
    g: "good s t [] j l1 s1"
    by (auto simp: lexer_init_def)
  have "m - 1 - spine t \<noteq> 0" using assms(5) spine_size[of t] by simp
  then obtain k where k: "m - 1 - spine t = Suc k" by (cases "m - 1 - spine t") auto
  from g have g1: "denotes s1 j t" "input l1 = []" "keeps_live s s1" by (simp_all add: good_def)
  from parse_loop_exit[OF c g1(2), of k j s1] obtain l2 where
    x: "parse_loop (Suc k) j l1 s1 = Inr (Some j, l2, s1)" "input l2 = []" by blast
  have "parse_expr m (lexer_init (show_tree t)) s = Inr (Some j, l2, s1)"
    using e k x(1) by simp
  then show ?thesis
    using d g1(1) denotes_keeps_live[OF g1(3) assms(2)] x(2) by blast
qed

text \<open>
  On \<open>example_arena\<close>, \<^verbatim>\<open>(\x.\y.x) y\<close> (index 4) is printed as \<^verbatim>\<open>(\x.y.x) y\<close> and parsed
  back.
\<close>

theorem parse_display_untagged_witness:
  "dead_ok example_arena \<and>
   denotes example_arena 4
     (App (Fun (Symbol ''x'' 0) (Fun (Symbol ''y'' 0) (Var (Symbol ''x'' 0))))
        (Var (Symbol ''y'' 0))) \<and>
   plain (App (Fun (Symbol ''x'' 0) (Fun (Symbol ''y'' 0) (Var (Symbol ''x'' 0))))
            (Var (Symbol ''y'' 0))) \<and>
   (\<exists>str e' l' s'. expr_display 5 4 example_arena = Inr str \<and>
      parse_expr 14 (lexer_init str) example_arena = Inr (Some e', l', s') \<and>
      denotes s' e'
        (App (Fun (Symbol ''x'' 0) (Fun (Symbol ''y'' 0) (Var (Symbol ''x'' 0))))
           (Var (Symbol ''y'' 0))) \<and>
      denotes s' 4
        (App (Fun (Symbol ''x'' 0) (Fun (Symbol ''y'' 0) (Var (Symbol ''x'' 0))))
           (Var (Symbol ''y'' 0))) \<and>
      input l' = [])"
proof -
  have h1: "dead_ok example_arena"
    by (simp add: dead_ok_def example_arena_def)
  have h2: "denotes example_arena 4
     (App (Fun (Symbol ''x'' 0) (Fun (Symbol ''y'' 0) (Var (Symbol ''x'' 0))))
        (Var (Symbol ''y'' 0)))"
    by (simp add: denotes.simps expr_slot_def example_arena_def)
  have h3: "plain (App (Fun (Symbol ''x'' 0) (Fun (Symbol ''y'' 0) (Var (Symbol ''x'' 0))))
            (Var (Symbol ''y'' 0)))"
    by (simp add: ident_def issymbol_def isalnum_def)
  from parse_display_untagged[OF h1 h2 h3, of 5 14] h1 h2 h3 show ?thesis by simp
qed

text \<open>
  C6, as stated, fails on a variable with a fresh tag, such as the \<open>y:1\<close> that the
  evaluation of \<^verbatim>\<open>(\x.\y.x) y\<close> introduces: it is printed as \<^verbatim>\<open>y:1\<close>, the colon is a token
  of its own that starts no primary expression, and \<open>parse_expr\<close> returns \<^verbatim>\<open>false\<close>.
\<close>

definition tagged_arena :: state where
  "tagged_arena =
     \<lparr>slots = [\<lparr>kind = EXPR_VAR (Symbol ''y'' 1), visited = False, live = True\<rparr>],
      dead = [], gens0 = [0], gens1 = [], gen_cur = 0, global_counter = 1,
      stdout = [], rand_seq = (\<lambda>i. 0), rand_pos = 0,
      order_seq = (\<lambda>i. True), order_pos = 0\<rparr>"

lemmas lexer_run =
  lexer_init_def lexer_next_def lexer_peek_def lexer_expect_def lexer_next_char_def
  lexer_skip.simps issymbol_def isalnum_def isspace_def

lemmas parse_numeral =
  parse_fun.simps(2)[of "pred_numeral k", folded numeral_eq_Suc]
  parse_primary.simps(2)[of "pred_numeral k", folded numeral_eq_Suc]
  parse_expr.simps(2)[of "pred_numeral k", folded numeral_eq_Suc]
  parse_loop.simps(2)[of "pred_numeral k", folded numeral_eq_Suc] for k

theorem parse_display_tagged_counterexample:
  "dead_ok tagged_arena \<and> denotes tagged_arena 0 (Var (Symbol ''y'' 1)) \<and>
   expr_display 5 0 tagged_arena = Inr ''y:1'' \<and>
   map_sum id fst (parse_expr 14 (lexer_init ''y:1'') tagged_arena) = Inr None"
  by (simp add: dead_ok_def denotes.simps tagged_arena_def arena_run lexer_run parse_numeral
        show_nat.simps)

end
